(* ===== verification/Prelude.thy ===== *)
theory Prelude
  imports Main "HOL-Library.Word" "HOL-Library.Monad_Syntax"
begin

unbundle bit_operations_syntax

text \<open>
  Shared vocabulary of the development.

  Machine integers of the sources (\<open>uint8_t\<close>, \<open>uint16_t\<close>, \<open>uint32_t\<close>) are words of that
  width. A C \<open>int\<close> that indexes an array or counts a loop is an \<open>int\<close> (or a \<open>nat\<close> where it
  starts at 0 and only grows under a bound the code tests).

  An operation that touches memory returns an \<open>option\<close>: \<open>None\<close> is a memory fault, an access
  outside the array or the object the source names (undefined behaviour in C++). A theorem that
  an operation returns \<open>Some\<close> is therefore a memory-safety theorem. The \<open>do\<close> notation is
  that of the option monad.
\<close>

section \<open>Types, collections, arrays\<close>

type_synonym u8 = "8 word"
type_synonym u16 = "16 word"
type_synonym u32 = "32 word"

abbreviation NUL :: char where
  "NUL \<equiv> CHR 0x00"

abbreviation NL :: char where
  "NL \<equiv> CHR 0x0A"

named_theorems array_simps "reads and writes of arrays inside their bounds"
named_theorems word_facts "word equations shared by the bit-level components"

text \<open>\<open>a[i]\<close> and \<open>a[i] = v\<close> with the bounds of the array written out.\<close>

definition arr_get :: "'a list \<Rightarrow> int \<Rightarrow> 'a option" where
  "arr_get a i = (if 0 \<le> i \<and> i < int (length a) then Some (a ! nat i) else None)"

definition arr_set :: "'a list \<Rightarrow> int \<Rightarrow> 'a \<Rightarrow> 'a list option" where
  "arr_set a i v = (if 0 \<le> i \<and> i < int (length a) then Some (a[nat i := v]) else None)"

lemma arr_get_in [array_simps]: "0 \<le> i \<Longrightarrow> i < int (length a) \<Longrightarrow> arr_get a i = Some (a ! nat i)"
  by (simp add: arr_get_def)

lemma arr_set_in [array_simps]:
  "0 \<le> i \<Longrightarrow> i < int (length a) \<Longrightarrow> arr_set a i v = Some (a[nat i := v])"
  by (simp add: arr_set_def)

lemma arr_set_out: "i < 0 \<or> int (length a) \<le> i \<Longrightarrow> arr_set a i v = None"
  by (auto simp: arr_set_def)

lemma arr_set_length: "arr_set a i v = Some b \<Longrightarrow> length b = length a"
  by (auto simp: arr_set_def split: if_splits)

lemma arr_get_set: "arr_set a i v = Some b \<Longrightarrow> arr_get b j = (if j = i then Some v else arr_get a j)"
  by (auto simp: arr_set_def arr_get_def nth_list_update split: if_splits)

text \<open>\<open>for (i = 0; i < n; i++) if (p(a[i])) { r = i; break; }\<close>: the first index, or none.\<close>

fun find_index :: "('a \<Rightarrow> bool) \<Rightarrow> 'a list \<Rightarrow> nat option" where
  "find_index p [] = None"
| "find_index p (x # xs) = (if p x then Some 0 else map_option Suc (find_index p xs))"

lemma find_index_None [simp]: "find_index p xs = None \<longleftrightarrow> (\<forall>x \<in> set xs. \<not> p x)"
  by (induction xs) auto

lemma find_index_SomeD:
  "find_index p xs = Some i \<Longrightarrow> i < length xs \<and> p (xs ! i) \<and> (\<forall>j < i. \<not> p (xs ! j))"
proof (induction xs arbitrary: i)
  case Nil
  then show ?case by simp
next
  case (Cons x xs)
  then show ?case
    by (auto split: if_splits simp: nth_Cons split: nat.splits)
qed

lemma find_index_SomeI:
  "i < length xs \<Longrightarrow> p (xs ! i) \<Longrightarrow> (\<And>j. j < i \<Longrightarrow> \<not> p (xs ! j)) \<Longrightarrow> find_index p xs = Some i"
proof (induction xs arbitrary: i)
  case Nil
  then show ?case by simp
next
  case (Cons x xs)
  show ?case
  proof (cases i)
    case 0
    with Cons.prems show ?thesis by simp
  next
    case (Suc k)
    have "\<not> p x" using Cons.prems(3) [of 0] Suc by simp
    moreover have "\<not> p (xs ! j)" if "j < k" for j
      using Cons.prems(3) [of "Suc j"] Suc that by simp
    then have "find_index p xs = Some k"
      using Cons.prems Suc by (intro Cons.IH) auto
    ultimately show ?thesis using Suc by simp
  qed
qed

lemma find_index_nth_cong:
  "length xs = length ys \<Longrightarrow> (\<And>i. i < length xs \<Longrightarrow> p (xs ! i) = q (ys ! i)) \<Longrightarrow>
   find_index p xs = find_index q ys"
proof (induction xs ys rule: list_induct2)
  case Nil
  then show ?case by simp
next
  case (Cons x xs y ys)
  have "p x = q y" using Cons.prems [of 0] by simp
  moreover have "find_index p xs = find_index q ys"
    using Cons.prems [of "Suc _"] by (intro Cons.IH) auto
  ultimately show ?case by simp
qed

text \<open>Blocks of memory as half-open intervals of byte addresses.\<close>

definition block :: "nat \<times> nat \<Rightarrow> nat set" where
  "block b = {fst b ..< fst b + snd b}"

definition disjoint_blocks :: "nat \<times> nat \<Rightarrow> nat \<times> nat \<Rightarrow> bool" where
  "disjoint_blocks b c \<longleftrightarrow> fst b + snd b \<le> fst c \<or> fst c + snd c \<le> fst b"

lemma disjoint_blocks_sym: "disjoint_blocks b c \<Longrightarrow> disjoint_blocks c b"
  by (auto simp: disjoint_blocks_def)

lemma disjoint_blocks_block: "disjoint_blocks b c \<Longrightarrow> block b \<inter> block c = {}"
  by (auto simp: disjoint_blocks_def block_def)

section \<open>Words\<close>

lemma unat_plus_no_wrap [word_facts]:
  fixes a b :: u32
  assumes "unat a + unat b < 2 ^ 32"
  shows "unat (a + b) = unat a + unat b"
  using assms by (simp add: unat_word_ariths)

lemma u32_less_nat: "(a :: u32) < b \<longleftrightarrow> unat a < unat b"
  by (rule word_less_nat_alt)

lemma u32_le_nat: "(a :: u32) \<le> b \<longleftrightarrow> unat a \<le> unat b"
  by (rule word_le_nat_alt)

lemma unat_mod_u32: "unat ((a :: u32) mod b) = unat a mod unat b"
  by (rule unat_mod)


lemma bit_u8_high [simp]: "8 \<le> n \<Longrightarrow> \<not> bit (x :: u8) n"
  by (auto dest: bit_imp_le_length)

lemma bit_u16_high [simp]: "16 \<le> n \<Longrightarrow> \<not> bit (x :: u16) n"
  by (auto dest: bit_imp_le_length)

lemma unat_u8_less: "unat (x :: u8) < 256"
  using unsigned_less [of x] by simp

lemma unat_u32_less: "unat (x :: u32) < 4294967296"
  using unsigned_less [of x] by simp

lemma sint_u8_bounds: "- 128 \<le> sint (b :: u8)" "sint b \<le> 127"
  using sint_ge [of b] sint_lt [of b] by simp_all

lemma sint_u8_uminus:
  assumes "b \<noteq> 0x80"
  shows "sint (- b :: u8) = - sint b"
proof -
  have "sint b \<noteq> -128"
  proof
    assume "sint b = -128"
    then have "word_of_int (sint b) = (word_of_int (-128) :: u8)" by simp
    then show False using assms by simp
  qed
  then have "- 128 \<le> - sint b \<and> - sint b < 128" using sint_u8_bounds [of b] by auto
  moreover have "sint (- b) = signed_take_bit 7 (- sint b)"
    by (simp add: sint_word_ariths)
  ultimately show ?thesis by (simp add: signed_take_bit_int_eq_self)
qed

lemma unat_of_nat_u32: "n < 4294967296 \<Longrightarrow> unat (of_nat n :: u32) = n"
  by (simp add: unat_of_nat)

lemma unat_u8_u32 [word_facts]: "unat (ucast (x :: u8) :: u32) = unat x"
  using unat_u8_less [of x] by (simp add: unsigned_ucast_eq take_bit_nat_eq_self)

lemma unat_u32_u8 [word_facts]: "unat (ucast (w :: u32) :: u8) = unat w mod 256"
  by (simp add: unsigned_ucast_eq take_bit_eq_mod)

lemma drop12_unat [word_facts]: "unat (drop_bit 12 (w :: u32)) = unat w div 4096"
  by (simp only: unsigned_drop_bit_eq drop_bit_eq_div) (simp add: unat_div)

lemma and_fff_unat [word_facts]: "unat ((w :: u32) AND 0xFFF) = unat w mod 4096"
proof -
  have "w AND 0xFFF = take_bit 12 w" by (simp add: take_bit_eq_mask mask_eq_exp_minus_1)
  then show ?thesis by (simp only: ) (simp add: take_bit_eq_mod unat_mod)
qed

lemma ucast_and_ff [simp]: "ucast ((w :: u32) AND 0xFF) = (ucast w :: u8)"
proof -
  have "w AND 0xFF = take_bit 8 w" by (simp add: take_bit_eq_mask mask_eq_exp_minus_1)
  then show ?thesis by (simp only: ) (rule bit_word_eqI, auto simp: bit_simps)
qed

text \<open>Bytes of a 32-bit word, least significant first, and the word of four bytes.\<close>

definition byte_at :: "nat \<Rightarrow> u32 \<Rightarrow> u8" where
  "byte_at k w = ucast (drop_bit (8 * k) w)"

definition le32 :: "u8 \<Rightarrow> u8 \<Rightarrow> u8 \<Rightarrow> u8 \<Rightarrow> u32" where
  "le32 a b c d = ucast a OR push_bit 8 (ucast b) OR push_bit 16 (ucast c) OR push_bit 24 (ucast d)"

lemma bit_byte_at: "bit (byte_at k w) n \<longleftrightarrow> n < 8 \<and> bit w (8 * k + n)"
  by (auto simp: byte_at_def bit_simps dest: bit_imp_le_length)

lemma u32_bit_range:
  assumes "n < LENGTH(32)"
  obtains "n < 8" | "8 \<le> n" "n < 16" | "16 \<le> n" "n < 24" | "24 \<le> n" "n < 32"
  using assms by fastforce

lemma le32_byte_at [word_facts]:
  "le32 (byte_at 0 w) (byte_at 1 w) (byte_at 2 w) (byte_at 3 w) = w"
proof (rule bit_word_eqI)
  fix n assume "n < LENGTH(32)"
  then show "bit (le32 (byte_at 0 w) (byte_at 1 w) (byte_at 2 w) (byte_at 3 w)) n = bit w n"
    by (cases n rule: u32_bit_range)
      (simp_all add: le32_def bit_simps bit_byte_at less_diff_conv2)
qed

lemma byte_at_le32 [word_facts]:
  "byte_at 0 (le32 a b c d) = a" "byte_at 1 (le32 a b c d) = b"
  "byte_at 2 (le32 a b c d) = c" "byte_at 3 (le32 a b c d) = d"
  by (rule bit_word_eqI; simp add: bit_byte_at le32_def bit_simps)+

lemmas le32_byte_at_Suc [word_facts] = le32_byte_at [simplified]

text \<open>The sources build words by shifting a byte at a time and adding or or-ing the next one.\<close>

lemma push8_plus [word_facts]: "push_bit 8 (r :: u32) + ucast (c :: u8) = push_bit 8 r OR ucast c"
  by (rule disjunctive_add) (auto simp: bit_simps)

lemma horner_le32:
  "push_bit 8 (push_bit 8 (push_bit 8 (ucast d) + ucast c) + ucast b) + ucast (a :: u8) = le32 a b c d"
  unfolding push8_plus le32_def
  by (simp add: push_bit_or ac_simps)

end
