(* ===== verification/CString.thy ===== *)
theory CString
  imports Prelude
begin

text \<open>
  C strings: the helpers of src/utils/StringHelpers.h, and the other copies of the same loops in
  command_registry.cpp, sfs.cpp, programs/main.cpp and legacy_v1/sdk/stdlib.cpp.

  A pointer to characters is the memory region that starts at it and ends with its object (a
  \<open>char list\<close>). Reading or writing past the region is a fault (\<open>None\<close>). \<open>cstr\<close> is the
  string a region holds, \<open>terminated\<close> says that a 0 ends it inside the region. The second half
  of the theory shows what each loop computes on terminated regions; the other theories use
  those equations, and represent an array that only ever holds a C string by that string.
\<close>

section \<open>The loops\<close>

definition uchar :: "char \<Rightarrow> int" where
  "uchar c = of_char c"

fun utils_strlen :: "char list \<Rightarrow> nat option" where
  "utils_strlen [] = None"
| "utils_strlen (c # cs) = (if c \<noteq> NUL then map_option Suc (utils_strlen cs) else Some 0)"

fun utils_strcpy :: "char list \<Rightarrow> char list \<Rightarrow> char list option" where
  "utils_strcpy (d # ds) (s # ss) =
     (if s \<noteq> NUL then map_option ((#) s) (utils_strcpy ds ss) else Some (NUL # ds))"
| "utils_strcpy _ _ = None"

fun utils_strncpy :: "char list \<Rightarrow> char list \<Rightarrow> int \<Rightarrow> char list option" where
  "utils_strncpy (d # ds) (s # ss) n =
     (if s \<noteq> NUL \<and> 0 < n then map_option ((#) s) (utils_strncpy ds ss (n - 1))
      else Some (NUL # ds))"
| "utils_strncpy _ _ _ = None"

fun utils_strcmp :: "char list \<Rightarrow> char list \<Rightarrow> int option" where
  "utils_strcmp (a # as) (b # bs) =
     (if a \<noteq> NUL \<and> a = b then utils_strcmp as bs else Some (uchar a - uchar b))"
| "utils_strcmp _ _ = None"

fun utils_strncmp :: "char list \<Rightarrow> char list \<Rightarrow> int \<Rightarrow> int option" where
  "utils_strncmp (a # as) (b # bs) n =
     (if 0 < n \<and> a \<noteq> NUL \<and> a = b then utils_strncmp as bs (n - 1)
      else if n = 0 then Some 0 else Some (uchar a - uchar b))"
| "utils_strncmp _ _ n = (if n = 0 then Some 0 else None)"

fun utils_strcat :: "char list \<Rightarrow> char list \<Rightarrow> char list option" where
  "utils_strcat [] src = None"
| "utils_strcat (d # ds) src =
     (if d \<noteq> NUL then map_option ((#) d) (utils_strcat ds src) else utils_strcpy (d # ds) src)"

text \<open>\<open>for (i = len-1; i >= 0; i--) if (path[i] == c) \<dots>\<close>: the last index below \<open>n\<close> holding \<open>c\<close>.\<close>

fun last_index_below :: "char \<Rightarrow> char list \<Rightarrow> nat \<Rightarrow> nat option" where
  "last_index_below c p 0 = None"
| "last_index_below c p (Suc i) = (if p ! i = c then Some i else last_index_below c p i)"

definition utils_basename :: "char list \<Rightarrow> char list option" where
  "utils_basename path = do {
     len \<leftarrow> utils_strlen path;
     if len = 0 then Some path
     else (case last_index_below CHR ''/'' path len of
             Some i \<Rightarrow> Some (drop (i + 1) path)
           | None \<Rightarrow> Some path)
   }"

text \<open>The registry's file-local \<open>strcmp\<close> and the legacy SDK's are the same loop.\<close>

fun registry_strcmp :: "char list \<Rightarrow> char list \<Rightarrow> int option" where
  "registry_strcmp (a # as) (b # bs) =
     (if a \<noteq> NUL \<and> a = b then registry_strcmp as bs else Some (uchar a - uchar b))"
| "registry_strcmp _ _ = None"

fun sfs_strcmp :: "char list \<Rightarrow> char list \<Rightarrow> bool option" where
  "sfs_strcmp (a # as) (b # bs) =
     (if a \<noteq> NUL \<and> b \<noteq> NUL then (if a \<noteq> b then Some False else sfs_strcmp as bs)
      else Some (a = b))"
| "sfs_strcmp _ _ = None"

fun sfs_strcpy :: "char list \<Rightarrow> char list \<Rightarrow> char list option" where
  "sfs_strcpy (d # ds) (s # ss) =
     (if s \<noteq> NUL then map_option ((#) s) (sfs_strcpy ds ss) else Some (NUL # ds))"
| "sfs_strcpy _ _ = None"

text \<open>The user program's \<open>strcmp\<close> returns true for equal strings.\<close>

fun user_strcmp :: "char list \<Rightarrow> char list \<Rightarrow> bool option" where
  "user_strcmp (a # as) (b # bs) =
     (if a \<noteq> NUL \<and> b \<noteq> NUL then (if a \<noteq> b then Some False else user_strcmp as bs)
      else Some (a = b))"
| "user_strcmp _ _ = None"

fun user_strlen :: "char list \<Rightarrow> nat option" where
  "user_strlen [] = None"
| "user_strlen (c # cs) = (if c \<noteq> NUL then map_option Suc (user_strlen cs) else Some 0)"

text \<open>The legacy SDK's \<open>strcpy\<close> copies first and tests the copied character.\<close>

fun sdk_strcpy :: "char list \<Rightarrow> char list \<Rightarrow> char list option" where
  "sdk_strcpy (d # ds) (s # ss) =
     map_option ((#) s) (if s \<noteq> NUL then sdk_strcpy ds ss else Some ds)"
| "sdk_strcpy _ _ = None"

fun sdk_strcat :: "char list \<Rightarrow> char list \<Rightarrow> char list option" where
  "sdk_strcat [] src = None"
| "sdk_strcat (d # ds) src =
     (if d \<noteq> NUL then map_option ((#) d) (sdk_strcat ds src) else sdk_strcpy (d # ds) src)"

fun sdk_memset :: "char list \<Rightarrow> char \<Rightarrow> nat \<Rightarrow> char list option" where
  "sdk_memset ds v 0 = Some ds"
| "sdk_memset (d # ds) v (Suc n) = map_option ((#) v) (sdk_memset ds v n)"
| "sdk_memset [] v (Suc n) = None"

fun sdk_memcpy :: "char list \<Rightarrow> char list \<Rightarrow> nat \<Rightarrow> char list option" where
  "sdk_memcpy ds ss 0 = Some ds"
| "sdk_memcpy (d # ds) (s # ss) (Suc n) = map_option ((#) s) (sdk_memcpy ds ss n)"
| "sdk_memcpy _ _ (Suc n) = None"

section \<open>What the loops compute\<close>

definition terminated :: "char list \<Rightarrow> bool" where
  "terminated m \<longleftrightarrow> NUL \<in> set m"

definition cstr :: "char list \<Rightarrow> string" where
  "cstr m = takeWhile (\<lambda>c. c \<noteq> NUL) m"

lemma terminated_simps [simp]:
  "terminated [] = False"
  "terminated (c # cs) = (c = NUL \<or> terminated cs)"
  by (auto simp: terminated_def)

lemma terminated_append [simp]: "terminated (a @ b) \<longleftrightarrow> terminated a \<or> terminated b"
  by (auto simp: terminated_def)

lemma cstr_simps [simp]:
  "cstr [] = []"
  "cstr (c # cs) = (if c = NUL then [] else c # cstr cs)"
  by (auto simp: cstr_def)

lemma cstr_no_nul [simp]: "NUL \<notin> set (cstr m)"
  by (auto simp: cstr_def dest: set_takeWhileD)

lemma cstr_literal [simp]: "NUL \<notin> set s \<Longrightarrow> cstr (s @ NUL # r) = s"
  by (induction s) auto

lemma cstr_append_stop: "cstr (c @ NUL # r) = cstr c"
  by (induction c) auto

lemma cstr_append_NULs [simp]: "cstr (c @ replicate n NUL) = cstr c"
  by (induction c) (cases n; auto)+

lemma cstr_length_le: "length (cstr m) \<le> length m"
  by (simp add: cstr_def length_takeWhile_le)

lemma cstr_length_less: "terminated m \<Longrightarrow> length (cstr m) < length m"
  by (induction m) auto

lemma terminated_split: "terminated m \<Longrightarrow> m = cstr m @ NUL # drop (Suc (length (cstr m))) m"
  by (induction m) auto

text \<open>A string without an embedded terminator: what a C array can hold.\<close>

definition c_string :: "string \<Rightarrow> bool" where
  "c_string k \<longleftrightarrow> NUL \<notin> set k"

lemma c_string_region [simp]: "c_string k \<Longrightarrow> cstr (k @ [NUL]) = k"
  by (simp add: c_string_def)

lemma utils_strlen_spec:
  "utils_strlen m = (if terminated m then Some (length (cstr m)) else None)"
  by (induction m) auto

lemma utils_strcpy_spec:
  "terminated src \<Longrightarrow> utils_strcpy dest src =
     (if length (cstr src) < length dest
      then Some (cstr src @ NUL # drop (Suc (length (cstr src))) dest) else None)"
  by (induction dest src rule: utils_strcpy.induct) auto

lemma sfs_strcpy_eq: "sfs_strcpy = utils_strcpy"
proof (intro ext)
  fix d s
  show "sfs_strcpy d s = utils_strcpy d s"
    by (induction d s rule: sfs_strcpy.induct) auto
qed

lemma sdk_strcpy_eq: "sdk_strcpy = utils_strcpy"
proof (intro ext)
  fix d s
  show "sdk_strcpy d s = utils_strcpy d s"
    by (induction d s rule: sdk_strcpy.induct) auto
qed

lemma registry_strcmp_eq: "registry_strcmp = utils_strcmp"
proof (intro ext)
  fix a b
  show "registry_strcmp a b = utils_strcmp a b"
    by (induction a b rule: registry_strcmp.induct) auto
qed

lemma user_strcmp_eq: "user_strcmp = sfs_strcmp"
proof (intro ext)
  fix a b
  show "user_strcmp a b = sfs_strcmp a b"
    by (induction a b rule: user_strcmp.induct) auto
qed

lemma user_strlen_eq: "user_strlen s = utils_strlen s"
  by (induction s) auto

lemma sdk_strcat_eq: "sdk_strcat d s = utils_strcat d s"
  by (induction d) (auto simp: sdk_strcpy_eq)

text \<open>\<open>strncpy\<close> here always terminates, and keeps the first \<open>n\<close> characters of the string.\<close>

lemma utils_strncpy_spec:
  assumes "terminated src" and "0 \<le> n"
  shows "utils_strncpy dest src n =
     (let s = take (nat n) (cstr src)
      in if length s < length dest then Some (s @ NUL # drop (Suc (length s)) dest) else None)"
  using assms
proof (induction dest src n rule: utils_strncpy.induct)
  case (1 d ds s ss n)
  show ?case
  proof (cases "s \<noteq> NUL \<and> 0 < n")
    case True
    then have "nat n = Suc (nat (n - 1))" by linarith
    with True 1 show ?thesis by (simp add: Let_def)
  next
    case False
    with 1 show ?thesis by (auto simp: Let_def)
  qed
qed (auto simp: Let_def)

lemma utils_strcat_spec:
  "terminated dest \<Longrightarrow> terminated src \<Longrightarrow> utils_strcat dest src =
     (let s = cstr dest @ cstr src
      in if length s < length dest then Some (s @ NUL # drop (Suc (length s)) dest) else None)"
  by (induction dest) (auto simp: Let_def utils_strcpy_spec)

subsection \<open>Comparison\<close>

lemma uchar_inj [simp]: "uchar a = uchar b \<longleftrightarrow> a = b"
  by (simp add: uchar_def)

lemma uchar_NUL [simp]: "uchar NUL = 0"
  by (simp add: uchar_def)

lemma uchar_nonneg [simp]: "0 \<le> uchar c"
  by (simp add: uchar_def of_char_def)

lemma uchar_pos [simp]: "0 < uchar c \<longleftrightarrow> c \<noteq> NUL"
  using uchar_nonneg [of c] uchar_inj [of c NUL] by (simp only: uchar_NUL) linarith

text \<open>The order the comparison decides: lexicographic on unsigned characters.\<close>

fun str_less :: "string \<Rightarrow> string \<Rightarrow> bool" where
  "str_less _ [] = False"
| "str_less [] (b # bs) = True"
| "str_less (a # as) (b # bs) = (uchar a < uchar b \<or> (a = b \<and> str_less as bs))"

lemma utils_strcmp_spec:
  assumes "terminated a" and "terminated b"
  shows "\<exists>d. utils_strcmp a b = Some d \<and> (d = 0 \<longleftrightarrow> cstr a = cstr b)
    \<and> (d < 0 \<longleftrightarrow> str_less (cstr a) (cstr b))"
  using assms
proof (induction a b rule: utils_strcmp.induct)
  case (1 a as b bs)
  show ?case
  proof (cases "a \<noteq> NUL \<and> a = b")
    case True
    with 1 show ?thesis by auto
  next
    case False
    then show ?thesis by (auto simp: not_less)
  qed
qed simp_all

lemma utils_strcmp_zero:
  "terminated a \<Longrightarrow> terminated b \<Longrightarrow> (utils_strcmp a b = Some 0) = (cstr a = cstr b)"
  using utils_strcmp_spec [of a b] by auto

lemma sfs_strcmp_spec:
  "terminated a \<Longrightarrow> terminated b \<Longrightarrow> sfs_strcmp a b = Some (cstr a = cstr b)"
  by (induction a b rule: sfs_strcmp.induct) auto

text \<open>Comparing the first \<open>strlen(p)\<close> characters with \<open>p\<close> is the prefix test.\<close>

lemma utils_strncmp_prefix:
  assumes "terminated a" and "terminated p"
  shows "(utils_strncmp a p (int (length (cstr p))) = Some 0) \<longleftrightarrow> take (length (cstr p)) (cstr a) = cstr p"
  using assms
proof (induction a p "int (length (cstr p))" rule: utils_strncmp.induct)
  case (1 a as b bs)
  show ?case
  proof (cases "a \<noteq> NUL \<and> a = b")
    case True
    with 1 show ?thesis by auto
  next
    case False
    then show ?thesis by auto
  qed
qed simp_all

lemma last_index_below_Some:
  "last_index_below c p n = Some i \<Longrightarrow> i < n \<and> p ! i = c \<and> (\<forall>j. i < j \<and> j < n \<longrightarrow> p ! j \<noteq> c)"
  by (induction n) (auto split: if_splits simp: less_Suc_eq)

lemma last_index_below_None:
  "last_index_below c p n = None \<longleftrightarrow> (\<forall>j < n. p ! j \<noteq> c)"
  by (induction n) (auto simp: less_Suc_eq)


lemma utils_basename_spec:
  assumes "terminated path"
  shows "\<exists>pre r. utils_basename path = Some r \<and> path = pre @ r \<and> CHR ''/'' \<notin> set (cstr r)
    \<and> terminated r \<and> NUL \<notin> set pre \<and> (pre = [] \<or> last pre = CHR ''/'')"
proof -
  let ?n = "length (cstr path)"
  have len: "utils_strlen path = Some ?n" using assms by (simp add: utils_strlen_spec)
  have pre: "j < ?n \<Longrightarrow> path ! j = cstr path ! j" for j
    by (simp add: cstr_def takeWhile_nth)
  show ?thesis
  proof (cases "last_index_below CHR ''/'' path ?n")
    case None
    then have "CHR ''/'' \<notin> set (cstr path)"
      by (auto simp: last_index_below_None in_set_conv_nth pre)
    moreover have "utils_basename path = Some path"
      using None len by (simp add: utils_basename_def)
    ultimately show ?thesis using assms
      by (metis append_Nil empty_iff list.set(1))
  next
    case (Some i)
    note i = last_index_below_Some [OF Some]
    have split: "path = cstr path @ NUL # drop (Suc ?n) path"
      using assms by (rule terminated_split)
    have drop: "drop (Suc i) path = drop (Suc i) (cstr path) @ NUL # drop (Suc ?n) path"
      using i by (subst split) simp
    have nonul: "NUL \<notin> set (drop (Suc i) (cstr path))"
      using cstr_no_nul in_set_dropD by metis
    have c: "cstr (drop (Suc i) path) = drop (Suc i) (cstr path)"
      unfolding drop using nonul by simp
    have noslash: "CHR ''/'' \<notin> set (drop (Suc i) (cstr path))"
      using i pre by (auto simp: in_set_conv_nth)
    have "take (Suc i) path = take (Suc i) (cstr path)"
      using i by (subst split) simp
    then have nonul': "NUL \<notin> set (take (Suc i) path)"
      by (metis cstr_no_nul in_set_takeD)
    have "last (take (Suc i) path) = CHR ''/''"
      using i cstr_length_le [of path] by (simp add: take_Suc_conv_app_nth)
    moreover have "cstr path \<noteq> []" using i by (cases "cstr path") simp_all
    ultimately have "utils_basename path = Some (drop (Suc i) path)"
      using Some len by (simp add: utils_basename_def)
    moreover have "terminated (drop (Suc i) path)" by (simp add: drop)
    moreover have "path = take (Suc i) path @ drop (Suc i) path" by simp
    moreover note \<open>last (take (Suc i) path) = CHR ''/''\<close> nonul'
    moreover have "CHR ''/'' \<notin> set (cstr (drop (Suc i) path))" using noslash c by simp
    ultimately show ?thesis by blast
  qed
qed

section \<open>Looking a name up in a table\<close>

text \<open>
  The command registry, the environment and both file systems look names up by a linear scan
  with one of the comparisons. The interface is what the scan needs: the comparison decides
  equality of the strings held.
\<close>

fun scan_names ::
  "(char list \<Rightarrow> char list \<Rightarrow> bool option) \<Rightarrow> char list list \<Rightarrow> char list \<Rightarrow> nat option option" where
  "scan_names eq [] k = Some None"
| "scan_names eq (n # ns) k = do {
     b \<leftarrow> eq n k;
     if b then Some (Some 0) else map_option (map_option Suc) (scan_names eq ns k)
   }"

locale string_equality =
  fixes eq :: "char list \<Rightarrow> char list \<Rightarrow> bool option"
  assumes eq_spec: "terminated a \<Longrightarrow> terminated b \<Longrightarrow> eq a b = Some (cstr a = cstr b)"
begin

lemma eq_sym: "terminated a \<Longrightarrow> terminated b \<Longrightarrow> eq a b = eq b a"
  by (auto simp: eq_spec)

lemma scan_finds_first:
  "(\<forall>n \<in> set ns. terminated n) \<Longrightarrow> terminated k \<Longrightarrow>
   scan_names eq ns k = Some (find_index (\<lambda>n. cstr n = cstr k) ns)"
  by (induction ns) (auto simp: eq_spec)

end

definition utils_streq :: "char list \<Rightarrow> char list \<Rightarrow> bool option" where
  "utils_streq a b = map_option (\<lambda>d. d = 0) (utils_strcmp a b)"

definition registry_streq :: "char list \<Rightarrow> char list \<Rightarrow> bool option" where
  "registry_streq a b = map_option (\<lambda>d. d = 0) (registry_strcmp a b)"

lemma utils_streq_spec: "terminated a \<Longrightarrow> terminated b \<Longrightarrow> utils_streq a b = Some (cstr a = cstr b)"
  using utils_strcmp_spec [of a b] by (auto simp: utils_streq_def)

interpretation useq: string_equality utils_streq
  by unfold_locales (rule utils_streq_spec)

interpretation rseq: string_equality registry_streq
  by unfold_locales (simp add: registry_streq_def registry_strcmp_eq
      utils_streq_spec [unfolded utils_streq_def])

interpretation sfseq: string_equality sfs_strcmp
  by unfold_locales (rule sfs_strcmp_spec)

end
