(* ===== verification/KHeap.thy ===== *)
theory KHeap
  imports CString
begin

text \<open>
  The kernel's bump allocator, src/core/mm/kheap.cpp, and the interface \<open>bump_region\<close> of a
  region of memory that hands out fresh blocks from a moving frontier. The interface is
  interpreted on \<open>kmalloc\<close> here and on the break system call in theory Interrupts; the
  disjointness of every sequence of allocations is proved once, from the interface.
\<close>

section \<open>The interface\<close>

text \<open>A run of allocations: the blocks handed out (failed requests give none), and the end state.\<close>

fun alloc_all ::
  "(u32 \<Rightarrow> 'h \<Rightarrow> u32 \<times> 'h) \<Rightarrow> u32 list \<Rightarrow> 'h \<Rightarrow> (nat \<times> nat) list \<times> 'h" where
  "alloc_all alloc [] h = ([], h)"
| "alloc_all alloc (n # ns) h =
     (let (p, h1) = alloc n h; (bs, h2) = alloc_all alloc ns h1
      in (if p = 0 then bs else (unat p, unat n) # bs, h2))"

locale bump_region =
  fixes alloc :: "u32 \<Rightarrow> 'h \<Rightarrow> u32 \<times> 'h"
    and frontier :: "'h \<Rightarrow> nat"
    and limit :: "'h \<Rightarrow> nat"
    and inv :: "'h \<Rightarrow> bool"
  assumes inv_alloc: "inv h \<Longrightarrow> unat n < 2 ^ 31 \<Longrightarrow> inv (snd (alloc n h))"
    and limit_alloc: "limit (snd (alloc n h)) = limit h"
    and frontier_alloc: "inv h \<Longrightarrow> unat n < 2 ^ 31 \<Longrightarrow> frontier h \<le> frontier (snd (alloc n h))"
    and alloc_block: "inv h \<Longrightarrow> unat n < 2 ^ 31 \<Longrightarrow> alloc n h = (p, h') \<Longrightarrow> p \<noteq> 0 \<Longrightarrow>
      frontier h \<le> unat p \<and> unat p + unat n \<le> frontier h' \<and> unat p + unat n \<le> limit h"
begin

lemma alloc_all_region:
  assumes "inv h" and "\<forall>n \<in> set ns. unat n < 2 ^ 31" and "alloc_all alloc ns h = (bs, h')"
  shows "inv h' \<and> limit h' = limit h \<and> frontier h \<le> frontier h' \<and>
    (\<forall>b \<in> set bs. frontier h \<le> fst b \<and> fst b + snd b \<le> frontier h' \<and> fst b + snd b \<le> limit h) \<and>
    sorted_wrt (\<lambda>b c. fst b + snd b \<le> fst c) bs \<and>
    frontier h + sum_list (map snd bs) \<le> frontier h'"
  using assms
proof (induction ns arbitrary: h bs h')
  case Nil
  then show ?case by simp
next
  case (Cons n ns)
  obtain p h1 where a: "alloc n h = (p, h1)" by (cases "alloc n h")
  obtain cs h2 where r: "alloc_all alloc ns h1 = (cs, h2)" by (cases "alloc_all alloc ns h1")
  have bs: "bs = (if p = 0 then cs else (unat p, unat n) # cs)" and h': "h' = h2"
    using Cons.prems(3) by (simp_all add: a r)
  have n: "unat n < 2 ^ 31" and ns: "\<forall>n \<in> set ns. unat n < 2 ^ 31"
    using Cons.prems(2) by simp_all
  have i1: "inv h1" and l1: "limit h1 = limit h" and f1: "frontier h \<le> frontier h1"
    using inv_alloc [OF Cons.prems(1) n] limit_alloc [of n h] frontier_alloc [OF Cons.prems(1) n]
    by (simp_all add: a)
  note IH = Cons.IH [OF i1 ns r]
  show ?case
  proof (cases "p = 0")
    case True
    with IH f1 l1 show ?thesis unfolding bs h' by (auto intro: order_trans)
  next
    case False
    note blk = alloc_block [OF Cons.prems(1) n a False]
    with False IH f1 l1 show ?thesis unfolding bs h' by (fastforce intro: order_trans)
  qed
qed

lemma alloc_all_disjoint:
  assumes "inv h" and "\<forall>n \<in> set ns. unat n < 2 ^ 31" and "alloc_all alloc ns h = (bs, h')"
  shows "sorted_wrt disjoint_blocks bs"
proof -
  have "sorted_wrt (\<lambda>b c. fst b + snd b \<le> fst c) bs"
    using alloc_all_region [OF assms] by blast
  then show ?thesis
    by (rule sorted_wrt_mono_rel [rotated]) (simp add: disjoint_blocks_def)
qed

lemma alloc_all_blocks:
  assumes "\<And>h n p h'. inv h \<Longrightarrow> unat n < 2 ^ 31 \<Longrightarrow> alloc n h = (p, h') \<Longrightarrow> p \<noteq> 0 \<Longrightarrow>
      P (limit h) (unat p, unat n)"
    and "inv h" and "\<forall>n \<in> set ns. unat n < 2 ^ 31" and "alloc_all alloc ns h = (bs, h')"
  shows "\<forall>b \<in> set bs. P (limit h) b"
  using assms(2-)
proof (induction ns arbitrary: h bs h')
  case Nil
  then show ?case by simp
next
  case (Cons n ns)
  obtain p h1 where a: "alloc n h = (p, h1)" by (cases "alloc n h")
  obtain cs h2 where r: "alloc_all alloc ns h1 = (cs, h2)" by (cases "alloc_all alloc ns h1")
  have n: "unat n < 2 ^ 31" and ns: "\<forall>n \<in> set ns. unat n < 2 ^ 31"
    using Cons.prems(2) by simp_all
  have "inv h1" "limit h1 = limit h"
    using inv_alloc [OF Cons.prems(1) n] limit_alloc [of n h] by (simp_all add: a)
  with Cons.IH [OF _ ns r] assms(1) [OF Cons.prems(1) n a] Cons.prems(3) show ?case
    by (auto simp: a r split: if_splits)
qed

lemma alloc_all_budget:
  assumes "inv h" and "\<forall>n \<in> set ns. unat n < 2 ^ 31" and "alloc_all alloc ns h = (bs, h')"
  shows "frontier h + sum_list (map snd bs) \<le> frontier h'"
  using alloc_all_region [OF assms] by blast

end

section \<open>The kernel heap\<close>

record kheap =
  heap_start :: u32
  heap_curr :: u32
  heap_end :: u32

definition kheap_init :: "u32 \<Rightarrow> u32 \<Rightarrow> kheap" where
  "kheap_init start sz = \<lparr>heap_start = start, heap_curr = start, heap_end = start + sz\<rparr>"

text \<open>\<open>if (heap_curr % 4 != 0) heap_curr += 4 - heap_curr % 4\<close>; the new frontier stays even when
  the request then fails.\<close>

definition align_curr :: "kheap \<Rightarrow> kheap" where
  "align_curr h = (if heap_curr h mod 4 \<noteq> 0
                   then h\<lparr>heap_curr := heap_curr h + (4 - heap_curr h mod 4)\<rparr> else h)"

definition kmalloc :: "u32 \<Rightarrow> kheap \<Rightarrow> u32 \<times> kheap" where
  "kmalloc sz h = (let h1 = align_curr h in
     if heap_end h1 \<le> heap_curr h1 + sz then (0, h1)
     else (heap_curr h1, h1\<lparr>heap_curr := heap_curr h1 + sz\<rparr>))"

definition kfree :: "u32 \<Rightarrow> kheap \<Rightarrow> kheap" where
  "kfree ptr h = h"

text \<open>The C++ operators.\<close>

definition operator_new :: "u32 \<Rightarrow> kheap \<Rightarrow> u32 \<times> kheap" where
  "operator_new sz h = kmalloc sz h"

definition operator_delete :: "u32 \<Rightarrow> kheap \<Rightarrow> kheap" where
  "operator_delete p h = kfree p h"

definition round_up4 :: "nat \<Rightarrow> nat" where
  "round_up4 n = 4 * ((n + 3) div 4)"

text \<open>The heap's invariant. The frontier may pass the end by the alignment of a failed request.\<close>

definition heap_ok :: "kheap \<Rightarrow> bool" where
  "heap_ok h \<longleftrightarrow> heap_start h \<le> heap_curr h \<and>
     unat (heap_curr h) \<le> round_up4 (unat (heap_end h)) \<and> unat (heap_end h) \<le> 2 ^ 30"

lemma round_up4_alt: "round_up4 n = n + (if n mod 4 = 0 then 0 else 4 - n mod 4)"
proof -
  define q r where "q = n div 4" and "r = n mod 4"
  have n: "n = 4 * q + r" and "r < 4" unfolding q_def r_def by simp_all
  have "(n + 3) div 4 = q + (if r = 0 then 0 else 1)"
    using \<open>r < 4\<close> unfolding n by (simp add: div_nat_eqI)
  then show ?thesis
    using n \<open>r < 4\<close> unfolding round_up4_def r_def [symmetric] by simp
qed

lemma round_up4_bounds:
  shows round_up4_ge: "n \<le> round_up4 n"
    and round_up4_le: "round_up4 n \<le> n + 3"
    and round_up4_mod: "round_up4 n mod 4 = 0"
proof -
  show "n \<le> round_up4 n" by (simp add: round_up4_alt)
  show "round_up4 n \<le> n + 3" by (cases "n mod 4 = 0") (simp_all add: round_up4_alt)
  show "round_up4 n mod 4 = 0" by (simp add: round_up4_def)
qed

lemma round_up4_mono: "m \<le> round_up4 n \<Longrightarrow> round_up4 m \<le> round_up4 n"
proof -
  assume "m \<le> round_up4 n"
  then have "(m + 3) div 4 \<le> (round_up4 n + 3) div 4" by (intro div_le_mono) simp
  also have "(round_up4 n + 3) div 4 = (n + 3) div 4" unfolding round_up4_def by simp
  finally show ?thesis unfolding round_up4_def by simp
qed

lemma align_curr_unat:
  assumes "unat (heap_curr h) \<le> 2 ^ 30 + 3"
  shows "unat (heap_curr (align_curr h)) = round_up4 (unat (heap_curr h))"
proof -
  let ?c = "unat (heap_curr h)"
  have m: "unat (heap_curr h mod 4) = ?c mod 4" by (simp add: unat_mod_u32)
  show ?thesis
  proof (cases "?c mod 4 = 0")
    case True
    then have "heap_curr h mod 4 = 0" using m by (metis unat_eq_zero)
    then have "align_curr h = h" by (simp add: align_curr_def)
    with True show ?thesis by (simp add: round_up4_alt)
  next
    case False
    then have n0: "heap_curr h mod 4 \<noteq> 0" using m by (metis unat_0)
    have lt: "?c mod 4 < 4" by simp
    have "unat (4 - heap_curr h mod 4) = 4 - ?c mod 4"
      using m lt by (subst unat_sub) (simp_all add: u32_le_nat)
    then have "unat (heap_curr h + (4 - heap_curr h mod 4)) = ?c + (4 - ?c mod 4)"
      using assms by (subst unat_plus_no_wrap) simp_all
    with n0 False show ?thesis by (simp add: round_up4_alt align_curr_def)
  qed
qed

lemma align_curr_fields [simp]:
  "heap_start (align_curr h) = heap_start h" "heap_end (align_curr h) = heap_end h"
  by (simp_all add: align_curr_def)

lemma heap_okD:
  assumes "heap_ok h"
  shows "unat (heap_start h) \<le> unat (heap_curr h)" "unat (heap_end h) \<le> 2 ^ 30"
    "unat (heap_curr h) \<le> round_up4 (unat (heap_end h))" "unat (heap_curr h) \<le> 2 ^ 30 + 3"
  using assms round_up4_bounds(2) [of "unat (heap_end h)"]
  by (simp_all add: heap_ok_def u32_le_nat)

text \<open>What one request does, in numbers.\<close>

lemma kmalloc_cases:
  assumes ok: "heap_ok h" and n: "unat n < 2 ^ 31" and a: "a = round_up4 (unat (heap_curr h))"
  shows kmalloc_ok: "a + unat n < unat (heap_end h) \<Longrightarrow>
      \<exists>p. kmalloc n h = (p, h\<lparr>heap_curr := p + n\<rparr>) \<and> unat p = a \<and> unat (p + n) = a + unat n"
    and kmalloc_oom: "unat (heap_end h) \<le> a + unat n \<Longrightarrow> kmalloc n h = (0, align_curr h)"
proof -
  note h = heap_okD [OF ok]
  have al: "unat (heap_curr (align_curr h)) = a"
    using align_curr_unat [OF h(4)] a by simp
  have "a \<le> 2 ^ 30 + 6" using h(4) a round_up4_bounds(2) [of "unat (heap_curr h)"] by simp
  then have s: "unat (heap_curr (align_curr h) + n) = a + unat n"
    using n al by (subst unat_plus_no_wrap) simp_all
  show "\<exists>p. kmalloc n h = (p, h\<lparr>heap_curr := p + n\<rparr>) \<and> unat p = a \<and> unat (p + n) = a + unat n"
    if "a + unat n < unat (heap_end h)"
    using that al s by (auto simp: kmalloc_def Let_def u32_le_nat align_curr_def)
  show "kmalloc n h = (0, align_curr h)" if "unat (heap_end h) \<le> a + unat n"
    using that s by (simp add: kmalloc_def Let_def u32_le_nat)
qed

lemma kmalloc_bump:
  assumes ok: "heap_ok h" and n: "unat n < 2 ^ 31" and r: "kmalloc n h = (p, h')"
  shows "heap_ok h' \<and> heap_start h' = heap_start h \<and> heap_end h' = heap_end h
    \<and> unat (heap_curr h) \<le> unat (heap_curr h')
    \<and> (p \<noteq> 0 \<longrightarrow> unat p mod 4 = 0 \<and> unat (heap_curr h) \<le> unat p
         \<and> unat p + unat n = unat (heap_curr h') \<and> unat p + unat n < unat (heap_end h))"
proof -
  define a where "a = round_up4 (unat (heap_curr h))"
  note h = heap_okD [OF ok]
  have up: "unat (heap_curr h) \<le> a" "a mod 4 = 0" "a \<le> round_up4 (unat (heap_end h))"
    unfolding a_def using round_up4_bounds round_up4_mono [OF h(3)] by auto
  show ?thesis
  proof (cases "a + unat n < unat (heap_end h)")
    case True
    from kmalloc_ok [OF ok n a_def True] r up h True round_up4_bounds(1) [of "unat (heap_end h)"]
    show ?thesis by (auto simp: heap_ok_def u32_le_nat)
  next
    case False
    have "unat (heap_curr (align_curr h)) = a"
      using h(4) unfolding a_def by (rule align_curr_unat)
    with False kmalloc_oom [OF ok n a_def] r up h
    show ?thesis by (auto simp: heap_ok_def u32_le_nat)
  qed
qed

interpretation kh: bump_region kmalloc "\<lambda>h. unat (heap_curr h)" "\<lambda>h. unat (heap_end h)" heap_ok
proof unfold_locales
  fix h :: kheap and n p :: u32 and h' :: kheap
  show "heap_ok h \<Longrightarrow> unat n < 2 ^ 31 \<Longrightarrow> heap_ok (snd (kmalloc n h))"
    using kmalloc_bump [of h n "fst (kmalloc n h)" "snd (kmalloc n h)"] by simp
  show "unat (heap_end (snd (kmalloc n h))) = unat (heap_end h)"
    by (simp add: kmalloc_def Let_def)
  show "heap_ok h \<Longrightarrow> unat n < 2 ^ 31 \<Longrightarrow> unat (heap_curr h) \<le> unat (heap_curr (snd (kmalloc n h)))"
    using kmalloc_bump [of h n "fst (kmalloc n h)" "snd (kmalloc n h)"] by simp
  show "heap_ok h \<Longrightarrow> unat n < 2 ^ 31 \<Longrightarrow> kmalloc n h = (p, h') \<Longrightarrow> p \<noteq> 0 \<Longrightarrow>
      unat (heap_curr h) \<le> unat p \<and> unat p + unat n \<le> unat (heap_curr h')
      \<and> unat p + unat n \<le> unat (heap_end h)"
    using kmalloc_bump [of h n p h'] by simp
qed

section \<open>The kernel's heap at boot\<close>

text \<open>\<open>kheap_init(0x00A00000, 0x00A00000)\<close> of \<open>kernel_main\<close>.\<close>

definition boot_heap :: kheap where
  "boot_heap = kheap_init 0x00A00000 0x00A00000"

lemma boot_heap_ok [simp]: "heap_ok boot_heap"
  by (simp add: heap_ok_def boot_heap_def kheap_init_def round_up4_def)


text \<open>C16: whatever sequence of requests the kernel makes, the blocks \<open>kmalloc\<close> hands out are
  aligned to 4, lie between the frontier and the end of the heap, are pairwise disjoint and in
  address order, their sizes sum up to at most the room that was left, and the invariant holds
  afterwards. (Requests of 2 GB and more are excluded: see the next property but one.)\<close>

theorem kmalloc_blocks_disjoint:
  assumes "heap_ok h" and "\<forall>n \<in> set ns. unat n < 2 ^ 31" and "alloc_all kmalloc ns h = (bs, h')"
  shows "sorted_wrt disjoint_blocks bs \<and> sorted_wrt (\<lambda>b c. fst b + snd b \<le> fst c) bs
    \<and> (\<forall>(a, n) \<in> set bs. a mod 4 = 0 \<and> unat (heap_curr h) \<le> a \<and> a + n < unat (heap_end h))
    \<and> unat (heap_curr h) + sum_list (map snd bs) \<le> unat (heap_curr h') \<and> heap_ok h'"
proof -
  have "\<forall>b \<in> set bs. fst b mod 4 = 0 \<and> fst b + snd b < unat (heap_end h)"
  proof (rule kh.alloc_all_blocks [where P = "\<lambda>l b. fst b mod 4 = 0 \<and> fst b + snd b < l", OF _ assms])
    fix h :: kheap and n p :: u32 and h' :: kheap
    assume "heap_ok h" "unat n < 2 ^ 31" "kmalloc n h = (p, h')" "p \<noteq> 0"
    then show "fst (unat p, unat n) mod 4 = 0 \<and> fst (unat p, unat n) + snd (unat p, unat n) < unat (heap_end h)"
      using kmalloc_bump [of h n p h'] by simp
  qed
  with kh.alloc_all_region [OF assms] kh.alloc_all_disjoint [OF assms] show ?thesis
    by (simp add: case_prod_beta)
qed

theorem kmalloc_blocks_disjoint_witness:
  "\<exists>bs h'. alloc_all kmalloc [10, 3, 0x00A00000, 100] boot_heap = (bs, h')
    \<and> length bs = 3 \<and> sorted_wrt disjoint_blocks bs \<and> heap_ok h'"
proof -
  let ?bs = "fst (alloc_all kmalloc [10, 3, 0x00A00000, 100] boot_heap)"
  let ?h = "snd (alloc_all kmalloc [10, 3, 0x00A00000, 100] boot_heap)"
  have "sorted_wrt disjoint_blocks ?bs \<and> heap_ok ?h"
    using kmalloc_blocks_disjoint [of boot_heap "[10, 3, 0x00A00000, 100]" ?bs ?h] by simp
  moreover have "length ?bs = 3"
    by (simp add: boot_heap_def kheap_init_def kmalloc_def align_curr_def)
  ultimately show ?thesis by (metis prod.collapse)
qed

text \<open>A request succeeds exactly when the aligned frontier plus the size stays strictly below
  the end of the heap; it then returns the aligned frontier, and otherwise 0 with nothing but the
  alignment changed. A block that would end exactly at the heap's end is refused.\<close>

theorem kmalloc_success_iff:
  assumes "heap_ok h" and "unat n < 2 ^ 31" and "0 < heap_curr h"
  shows "(fst (kmalloc n h) \<noteq> 0 \<longleftrightarrow> round_up4 (unat (heap_curr h)) + unat n < unat (heap_end h))
    \<and> (fst (kmalloc n h) \<noteq> 0 \<longrightarrow> unat (fst (kmalloc n h)) = round_up4 (unat (heap_curr h)))
    \<and> (fst (kmalloc n h) = 0 \<longrightarrow> snd (kmalloc n h) = align_curr h)"
proof -
  have pos: "0 < round_up4 (unat (heap_curr h))"
    using assms(3) round_up4_ge [of "unat (heap_curr h)"] by (simp add: u32_less_nat)
  show ?thesis
  proof (cases "round_up4 (unat (heap_curr h)) + unat n < unat (heap_end h)")
    case True
    with kmalloc_ok [OF assms(1,2) refl] pos show ?thesis by fastforce
  next
    case False
    with kmalloc_oom [OF assms(1,2) refl] show ?thesis by simp
  qed
qed

theorem kmalloc_success_iff_witness:
  "fst (kmalloc 100 boot_heap) = 0x00A00000 \<and> fst (kmalloc 0x00A00000 boot_heap) = 0"
proof -
  have ok: "heap_ok boot_heap" "0 < heap_curr boot_heap"
    by (simp_all add: boot_heap_def kheap_init_def heap_ok_def round_up4_def)
  have "fst (kmalloc 0x00A00000 boot_heap) = 0"
    using kmalloc_success_iff [OF ok(1) _ ok(2), of "0x00A00000"]
    by (simp add: boot_heap_def kheap_init_def round_up4_def)
  moreover have "fst (kmalloc 100 boot_heap) \<noteq> 0"
    using kmalloc_success_iff [OF ok(1) _ ok(2), of 100]
    by (simp add: boot_heap_def kheap_init_def round_up4_def)
  ultimately show ?thesis by (simp add: kmalloc_def boot_heap_def kheap_init_def align_curr_def)
qed

text \<open>The overflow of \<open>heap_curr + size\<close> is not checked. On the kernel's own heap a request of
  2^32 - 64 bytes after a 64-byte block succeeds, moves the frontier back to the block, and the
  next request returns the block a second time.\<close>

theorem kmalloc_wraparound:
  "(let (p, h1) = kmalloc 64 boot_heap; (q, h2) = kmalloc (- 64) h1; (r, h3) = kmalloc 64 h2
    in p \<noteq> 0 \<and> q \<noteq> 0 \<and> r = p \<and> heap_curr h2 < heap_curr h1)"
  by (simp add: Let_def kmalloc_def align_curr_def boot_heap_def kheap_init_def)

section \<open>A copy of a string\<close>

text \<open>\<open>Utils::strdup\<close>: \<open>mem n\<close> is what the new block of \<open>n\<close> bytes held; a refused request is written to
  at address 0.\<close>

definition utils_strdup :: "(nat \<Rightarrow> char list) \<Rightarrow> char list \<Rightarrow> kheap \<Rightarrow> (u32 \<times> char list \<times> kheap) option" where
  "utils_strdup mem s h = do {
     len \<leftarrow> utils_strlen s;
     let (p, h1) = kmalloc (of_nat (len + 1)) h;
     d \<leftarrow> (if p = 0 then None else utils_strcpy (mem (len + 1)) s);
     Some (p, d, h1)
   }"

text \<open>The copy has the string's bytes and its 0, and fills its block exactly.\<close>

lemma utils_strdup_spec:
  assumes "heap_ok h" "0 < heap_curr h" "terminated s" "length s < 2 ^ 31" "\<And>n. length (mem n) = n"
    and room: "round_up4 (unat (heap_curr h)) + length (cstr s) + 1 < unat (heap_end h)"
  shows "\<exists>p h'. utils_strdup mem s h = Some (p, cstr s @ [NUL], h') \<and> unat p = round_up4 (unat (heap_curr h))"
proof -
  let ?n = "of_nat (length (cstr s) + 1) :: u32"
  have l: "length (cstr s) + 1 < 2 ^ 31" using cstr_length_less [OF assms(3)] assms(4) by simp
  then have n: "unat ?n = length (cstr s) + 1" by (simp only: unat_of_nat, simp)
  have "fst (kmalloc ?n h) \<noteq> 0" "unat (fst (kmalloc ?n h)) = round_up4 (unat (heap_curr h))"
    using kmalloc_success_iff [OF assms(1) _ assms(2), of ?n] room l n by auto
  moreover have "utils_strcpy (mem (length (cstr s) + 1)) s = Some (cstr s @ [NUL])"
    using assms(3,5) by (simp add: utils_strcpy_spec)
  ultimately show ?thesis using assms(3)
    by (cases "kmalloc ?n h") (auto simp: utils_strdup_def utils_strlen_spec)
qed

end
