(* ===== verification/Paging.thy ===== *)
theory Paging
  imports KHeap
begin

text \<open>
  Page tables, src/core/paging.cpp. Physical memory is the map from byte addresses to the 32-bit
  word stored there (every access of this code is to a multiple of 4); the page directory and the
  tables live in it, where \<open>kmalloc\<close> puts them. \<open>page_walk\<close> is the processor's two-level
  translation, the specification the tables are built for.
\<close>

section \<open>State and operations\<close>

record paging =
  pmem :: "u32 \<Rightarrow> u32"
  page_directory :: u32
  pheap :: kheap
  cr3 :: u32
  cr0 :: u32
  flushed :: "u32 list"

definition entry :: "u32 \<Rightarrow> u32 \<Rightarrow> u32" where
  "entry t i = t + 4 * i"

text \<open>\<open>for (i = 0; i < n; i++) t[i] = f(i)\<close>\<close>

fun fill_table :: "(u32 \<Rightarrow> u32) \<Rightarrow> u32 \<Rightarrow> (u32 \<Rightarrow> u32) \<Rightarrow> nat \<Rightarrow> (u32 \<Rightarrow> u32)" where
  "fill_table m t f 0 = m"
| "fill_table m t f (Suc n) = (fill_table m t f n)(entry t (of_nat n) := f (of_nat n))"

text \<open>Step 3 of \<open>MapMemory\<close>: a directory entry that is not present gets a new, empty table.\<close>

definition ensure_table :: "u32 \<Rightarrow> paging \<Rightarrow> paging" where
  "ensure_table pd_index s =
     (let pde_addr = entry (page_directory s) pd_index
      in if pmem s pde_addr AND 1 = 0
         then let (new_pt, h) = kmalloc 4096 (pheap s);
                  m = fill_table (pmem s) new_pt (\<lambda>_. 0x2) 1024
              in s\<lparr>pheap := h, pmem := m(pde_addr := new_pt OR 7)\<rparr>
         else s)"

text \<open>\<open>invlpg\<close>: the processor forgets what it holds of the page; \<open>flushed\<close> records the addresses, the newest first.\<close>

definition invlpg :: "u32 \<Rightarrow> paging \<Rightarrow> paging" where
  "invlpg v s = s\<lparr>flushed := v # flushed s\<rparr>"

definition MapMemory :: "u32 \<Rightarrow> u32 \<Rightarrow> paging \<Rightarrow> paging" where
  "MapMemory virt phys s =
     (let pd_index = drop_bit 22 virt;
          pt_index = drop_bit 12 virt AND 0x03FF;
          s1 = ensure_table pd_index s;
          pt = pmem s1 (entry (page_directory s1) pd_index) AND 0xFFFFF000;
          s2 = s1\<lparr>pmem := (pmem s1)(entry pt pt_index := (phys AND 0xFFFFF000) OR 7)\<rparr>
      in invlpg virt s2)"

definition SwitchPageDirectory :: "u32 \<Rightarrow> paging \<Rightarrow> paging" where
  "SwitchPageDirectory dir s = s\<lparr>cr3 := dir\<rparr>"

definition EnablePaging :: "paging \<Rightarrow> paging" where
  "EnablePaging s = s\<lparr>cr0 := cr0 s OR 0x80000000\<rparr>"

text \<open>One turn of the loop over the 32 tables: allocate, align, fill with the identity, link.\<close>

definition init_table :: "u32 \<Rightarrow> paging \<Rightarrow> paging" where
  "init_table i s =
     (let (raw_pt, h) = kmalloc 8192 (pheap s);
          pt = (raw_pt + 4096) AND 0xFFFFF000;
          m = fill_table (pmem s) pt (\<lambda>j. (i * 4 * 1024 * 1024 + j * 4096) OR 7) 1024
      in s\<lparr>pheap := h, pmem := m(entry (page_directory s) i := pt OR 7)\<rparr>)"

fun init_tables :: "nat \<Rightarrow> paging \<Rightarrow> paging" where
  "init_tables 0 s = s"
| "init_tables (Suc n) s = init_table (of_nat n) (init_tables n s)"

definition init_directory :: "paging \<Rightarrow> paging" where
  "init_directory s =
     (let (raw_pd, h) = kmalloc 8192 (pheap s);
          pd = (raw_pd + 4096) AND 0xFFFFF000
      in s\<lparr>pheap := h, page_directory := pd, pmem := fill_table (pmem s) pd (\<lambda>_. 2) 1024\<rparr>)"

definition PageTableManager_Init :: "paging \<Rightarrow> paging" where
  "PageTableManager_Init s =
     (let s1 = init_tables 32 (init_directory s)
      in EnablePaging (SwitchPageDirectory (page_directory s1) s1))"

section \<open>The processor's translation\<close>

definition page_walk :: "paging \<Rightarrow> u32 \<Rightarrow> u32 option" where
  "page_walk s v =
     (let pde = pmem s (entry (page_directory s) (drop_bit 22 v))
      in if pde AND 1 = 0 then None
         else let pte = pmem s (entry (pde AND 0xFFFFF000) (drop_bit 12 v AND 0x3FF))
              in if pte AND 1 = 0 then None
                 else Some ((pte AND 0xFFFFF000) OR (v AND 0xFFF)))"

definition page_aligned :: "u32 \<Rightarrow> bool" where
  "page_aligned t \<longleftrightarrow> unat t mod 4096 = 0"

lemma page_aligned_code [simp]: "page_aligned 0"
  by (simp add: page_aligned_def)

section \<open>Address arithmetic\<close>

lemma page_mask: "x AND 0xFFFFF000 = push_bit 12 (drop_bit 12 (x :: u32))"
proof -
  have c: "(0xFFFFF000 :: u32) = NOT (mask 12)" by (simp add: mask_eq_exp_minus_1)
  have "x AND 0xFFFFF000 = x AND NOT (mask 12)" by (simp only: c)
  also have "\<dots> = push_bit 12 (drop_bit 12 x)"
    by (rule bit_word_eqI) (auto simp: bit_simps)
  finally show ?thesis .
qed

lemma page_mask_unat: "unat (x AND 0xFFFFF000 :: u32) = unat x div 4096 * 4096"
proof -
  have "unat (push_bit 12 (drop_bit 12 x)) = unat (drop_bit 12 x * 4096)"
    by (simp add: push_bit_eq_mult)
  also have "\<dots> = unat x div 4096 * 4096"
    using unat_u32_less [of x] by (simp add: unat_word_ariths word_facts)
  finally show ?thesis by (simp add: page_mask)
qed

lemma page_aligned_mask [simp]: "page_aligned (x AND 0xFFFFF000)"
  by (simp add: page_aligned_def page_mask_unat)

lemma page_aligned_mask_id: "page_aligned t \<Longrightarrow> t AND 0xFFFFF000 = t"
  by (auto simp: word_unat_eq_iff page_aligned_def page_mask_unat)

lemma page_aligned_bits: "page_aligned t \<Longrightarrow> n < 12 \<Longrightarrow> \<not> bit t n"
  using page_mask [of t] by (metis bit_push_bit_iff not_le page_aligned_mask_id)

lemma seven_bits: "bit (7 :: u32) n \<longleftrightarrow> n < 3"
proof -
  have "(7 :: u32) = mask 3" by (simp add: mask_eq_exp_minus_1)
  then show ?thesis by (simp only: bit_simps) auto
qed

lemma and1_eq_0: "(x :: u32) AND 1 = 0 \<longleftrightarrow> \<not> bit x 0"
  by (simp add: and_one_eq bit_0 odd_iff_mod_2_eq_one)

text \<open>A table address with the flags 7 (present, writable, user).\<close>

lemma entry_flags:
  assumes "page_aligned t"
  shows "(t OR 7) AND 0xFFFFF000 = t" and "(t OR 7) AND 1 \<noteq> 0"
proof -
  have "push_bit 12 (drop_bit 12 (t OR 7)) = t"
    apply (rule bit_word_eqI)
    subgoal for n
      using page_aligned_bits [OF assms, of n]
      by (cases "n < 12") (auto simp: bit_simps seven_bits)
    done
  then show "(t OR 7) AND 0xFFFFF000 = t" by (simp add: page_mask)
  show "(t OR 7) AND 1 \<noteq> 0" by (simp add: and1_eq_0 bit_simps seven_bits)
qed

lemma page_offset_or: "(v AND 0xFFFFF000) OR (v AND 0xFFF) = (v :: u32)"
proof -
  have "v AND 0xFFF = take_bit 12 v" by (simp add: take_bit_eq_mask mask_eq_exp_minus_1)
  moreover have "push_bit 12 (drop_bit 12 v) OR take_bit 12 v = v"
    by (rule bit_word_eqI) (auto simp: bit_simps)
  ultimately show ?thesis by (simp add: page_mask)
qed

lemma entry_unat:
  assumes "page_aligned t" and "unat i < 1024"
  shows "unat (entry t i) = unat t + 4 * unat i"
proof -
  have "unat t div 4096 * 4096 = unat t"
    using assms(1) by (simp add: page_aligned_def mult.commute mod_0_imp_dvd)
  moreover have "unat t div 4096 \<le> 1048575" using unat_u32_less [of t] by simp
  ultimately have "unat t \<le> 4294963200" by linarith
  with assms(2) show ?thesis by (simp add: entry_def unat_word_ariths)
qed

lemma entry_inject:
  assumes "page_aligned t" "page_aligned t'" "unat i < 1024" "unat j < 1024"
  shows "entry t i = entry t' j \<longleftrightarrow> t = t' \<and> i = j"
proof
  assume "entry t i = entry t' j"
  then have e: "unat t + 4 * unat i = unat t' + 4 * unat j"
    using assms by (metis entry_unat)
  then have "(unat t + 4 * unat i) div 4096 = (unat t' + 4 * unat j) div 4096" by simp
  moreover have "(unat x + 4 * unat k) div 4096 = unat x div 4096"
    if "page_aligned x" "unat k < 1024" for x k :: u32
    using that by (simp add: page_aligned_def div_add1_eq [of "unat x"])
  ultimately have "unat t div 4096 = unat t' div 4096" using assms by metis
  then have "unat t = unat t'"
    using assms(1,2) unfolding page_aligned_def by (metis div_mod_decomp)
  with e show "t = t' \<and> i = j" by (simp add: word_unat_eq_iff)
qed simp

lemma of_nat_small: "n < 1024 \<Longrightarrow> unat (of_nat n :: u32) = n"
  by (simp add: unat_of_nat)

lemma fill_table_entry:
  assumes "page_aligned t" "page_aligned t'" "unat j < 1024" "n \<le> 1024"
  shows "fill_table m t f n (entry t' j) = (if t' = t \<and> unat j < n then f j else m (entry t' j))"
  using assms(4)
proof (induction n)
  case 0
  then show ?case by simp
next
  case (Suc n)
  have "entry t' j = entry t (of_nat n) \<longleftrightarrow> t' = t \<and> unat j = n"
    using Suc.prems entry_inject [OF assms(2,1,3), of "of_nat n"]
    by (simp add: of_nat_small word_unat_eq_iff [of j])
  with Suc show ?case by (auto simp: less_Suc_eq word_unat_eq_iff of_nat_small)
qed

lemma pd_index_unat: "unat (drop_bit 22 (v :: u32)) = unat v div 4194304"
  by (simp only: unsigned_drop_bit_eq drop_bit_eq_div) (simp add: unat_div)

lemma pd_index_less [simp]: "unat (drop_bit 22 (v :: u32)) < 1024"
  using unat_u32_less [of v] by (simp add: pd_index_unat less_mult_imp_div_less)

lemma pt_index_unat: "unat (drop_bit 12 (v :: u32) AND 0x3FF) = unat v div 4096 mod 1024"
proof -
  have "drop_bit 12 v AND 0x3FF = take_bit 10 (drop_bit 12 v)"
    by (simp add: take_bit_eq_mask mask_eq_exp_minus_1)
  then show ?thesis by (simp only:) (simp add: take_bit_eq_mod unat_mod word_facts)
qed

lemma pt_index_less [simp]: "unat (drop_bit 12 (v :: u32) AND 0x3FF) < 1024"
  by (simp add: pt_index_unat)

text \<open>Two addresses have the same table and table slot exactly when they lie in the same page.\<close>

lemma same_page_iff:
  "drop_bit 22 u = drop_bit 22 v \<and> drop_bit 12 u AND 0x3FF = drop_bit 12 v AND 0x3FF
   \<longleftrightarrow> unat u div 4096 = unat (v :: u32) div 4096"
proof -
  have "unat x div 4194304 = unat x div 4096 div 1024" for x :: u32
    by (simp add: div_mult2_eq)
  then have "drop_bit 22 u = drop_bit 22 v \<and> drop_bit 12 u AND 0x3FF = drop_bit 12 v AND 0x3FF
      \<longleftrightarrow> unat u div 4096 div 1024 = unat v div 4096 div 1024 \<and>
          unat u div 4096 mod 1024 = unat v div 4096 mod 1024"
    by (simp add: word_unat_eq_iff pd_index_unat pt_index_unat)
  then show ?thesis by (metis div_mod_decomp)
qed


section \<open>The invariant of the tables\<close>

definition pde :: "paging \<Rightarrow> u32 \<Rightarrow> u32" where
  "pde s i = pmem s (entry (page_directory s) i)"

definition present :: "paging \<Rightarrow> u32 \<Rightarrow> bool" where
  "present s i \<longleftrightarrow> pde s i AND 1 \<noteq> 0"

definition table_of :: "paging \<Rightarrow> u32 \<Rightarrow> u32" where
  "table_of s i = pde s i AND 0xFFFFF000"

text \<open>The directory and the tables of its present entries are page-aligned, lie below the heap's
  frontier, and no two of them coincide.\<close>

definition tables_ok :: "paging \<Rightarrow> bool" where
  "tables_ok s \<longleftrightarrow> heap_ok (pheap s) \<and> page_aligned (page_directory s)
     \<and> unat (page_directory s) + 4096 \<le> unat (heap_curr (pheap s))
     \<and> (\<forall>i. unat i < 1024 \<longrightarrow> present s i \<longrightarrow>
          table_of s i \<noteq> page_directory s \<and> unat (table_of s i) + 4096 \<le> unat (heap_curr (pheap s)))
     \<and> (\<forall>i j. unat i < 1024 \<longrightarrow> unat j < 1024 \<longrightarrow> present s i \<longrightarrow> present s j \<longrightarrow>
          table_of s i = table_of s j \<longrightarrow> i = j)"

lemma page_walk_alt:
  "page_walk s v = (if present s (drop_bit 22 v)
     then let pte = pmem s (entry (table_of s (drop_bit 22 v)) (drop_bit 12 v AND 0x3FF))
          in if pte AND 1 = 0 then None else Some ((pte AND 0xFFFFF000) OR (v AND 0xFFF))
     else None)"
  by (simp add: page_walk_def present_def table_of_def pde_def Let_def)

lemma table_of_aligned [simp]: "page_aligned (table_of s i)"
  by (simp add: table_of_def)

lemma MapMemory_alt:
  "MapMemory virt phys s =
     (let s1 = ensure_table (drop_bit 22 virt) s
      in invlpg virt (s1\<lparr>pmem := (pmem s1)(entry (table_of s1 (drop_bit 22 virt)) (drop_bit 12 virt AND 0x3FF)
              := (phys AND 0xFFFFF000) OR 7)\<rparr>))"
  by (simp add: MapMemory_def table_of_def pde_def Let_def)

text \<open>The tables do not depend on what the processor forgets.\<close>

lemma invlpg_simps [simp]:
  "page_walk (invlpg a s) = page_walk s" "tables_ok (invlpg a s) = tables_ok s" "pheap (invlpg a s) = pheap s"
proof -
  have t: "pde (invlpg a s) = pde s" "present (invlpg a s) = present s" "table_of (invlpg a s) = table_of s"
    by (simp_all add: fun_eq_iff pde_def present_def table_of_def invlpg_def)
  then show "page_walk (invlpg a s) = page_walk s" by (simp add: fun_eq_iff page_walk_alt invlpg_def)
  show "pheap (invlpg a s) = pheap s" by (simp add: invlpg_def)
  show "tables_ok (invlpg a s) = tables_ok s" unfolding tables_ok_def t by (simp add: invlpg_def)
qed

text \<open>Writing one slot of a present table changes the translation of one page.\<close>

lemma set_pte:
  fixes x :: u32
  assumes ok: "tables_ok s" and pr: "present s (drop_bit 22 virt)"
    and s': "s' = s\<lparr>pmem := (pmem s)(entry (table_of s (drop_bit 22 virt))
                (drop_bit 12 virt AND 0x3FF) := x AND 0xFFFFF000 OR 7)\<rparr>"
  shows "tables_ok s'" and "page_walk s' v =
    (if unat v div 4096 = unat virt div 4096 then Some ((x AND 0xFFFFF000) OR (v AND 0xFFF))
     else page_walk s v)"
proof -
  let ?t = "table_of s (drop_bit 22 virt)" and ?k = "drop_bit 12 virt AND 0x3FF"
  have pd: "page_aligned (page_directory s)" and ne: "?t \<noteq> page_directory s"
    using ok pr by (auto simp: tables_ok_def)
  have "unat i < 1024 \<Longrightarrow> entry (page_directory s) i \<noteq> entry ?t ?k" for i
    using entry_inject [OF pd, of ?t i ?k] ne by simp
  then have pdes: "unat i < 1024 \<Longrightarrow> pde s' i = pde s i" for i
    by (simp add: pde_def s')
  then have same: "unat i < 1024 \<Longrightarrow> present s' i = present s i \<and> table_of s' i = table_of s i" for i
    by (simp add: present_def table_of_def)
  then show "tables_ok s'" using ok by (simp add: tables_ok_def s')
  have slot: "present s i \<Longrightarrow> unat i < 1024 \<Longrightarrow> unat l < 1024 \<Longrightarrow>
      pmem s' (entry (table_of s i) l) =
      (if i = drop_bit 22 virt \<and> l = ?k then x AND 0xFFFFF000 OR 7 else pmem s (entry (table_of s i) l))"
    for i l
    using ok pr entry_inject [of "table_of s i" ?t l ?k]
    by (auto simp: s' tables_ok_def)
  show "page_walk s' v = (if unat v div 4096 = unat virt div 4096
      then Some ((x AND 0xFFFFF000) OR (v AND 0xFFF)) else page_walk s v)"
    using pr same [of "drop_bit 22 v"] slot [of "drop_bit 22 v" "drop_bit 12 v AND 0x3FF"]
      same_page_iff [of v virt] entry_flags [of "x AND 0xFFFFF000"]
    by (auto simp: page_walk_alt Let_def)
qed

text \<open>Filling fresh memory at \<open>t\<close> and linking it into the directory: the other entries and tables
  stay, and the tables stay in order.\<close>

lemma link_table:
  fixes f :: "u32 \<Rightarrow> u32"
  assumes ok: "tables_ok s" and np: "\<not> present s i" and i: "unat i < 1024"
    and t: "page_aligned t" "unat (heap_curr (pheap s)) \<le> unat t" "unat t + 4096 \<le> unat (heap_curr h)"
    and h: "heap_ok h" "unat (heap_curr (pheap s)) \<le> unat (heap_curr h)"
    and s': "s' = s\<lparr>pheap := h, pmem := (fill_table (pmem s) t f 1024)(entry (page_directory s) i := t OR 7)\<rparr>"
  shows "tables_ok s'" and "present s' i" and "table_of s' i = t"
    and "unat j < 1024 \<Longrightarrow> j \<noteq> i \<Longrightarrow> pde s' j = pde s j"
    and "unat l < 1024 \<Longrightarrow> pmem s' (entry t l) = f l"
    and "drop_bit 22 v \<noteq> i \<Longrightarrow> page_walk s' v = page_walk s v"
proof -
  have pd: "page_aligned (page_directory s)" "t \<noteq> page_directory s"
    using ok t(2) by (auto simp: tables_ok_def)
  have slot: "unat j < 1024 \<Longrightarrow> pde s' j = (if j = i then t OR 7 else pde s j)" for j
    using pd i by (simp add: pde_def s' entry_inject fill_table_entry [OF t(1) pd(1)])
  then show pr: "present s' i" and ti: "table_of s' i = t"
    using i entry_flags [OF t(1)] by (simp_all add: present_def table_of_def)
  show "unat j < 1024 \<Longrightarrow> j \<noteq> i \<Longrightarrow> pde s' j = pde s j" using slot by simp
  have oth: "unat j < 1024 \<Longrightarrow> j \<noteq> i \<Longrightarrow> present s' j = present s j \<and> table_of s' j = table_of s j" for j
    using slot by (simp add: present_def table_of_def)
  have tp: "unat j < 1024 \<Longrightarrow> present s j \<Longrightarrow> table_of s j \<noteq> t" for j
    using ok t(2) by (auto simp: tables_ok_def)
  have slots: "unat j < 1024 \<Longrightarrow> j \<noteq> i \<Longrightarrow> present s j \<Longrightarrow> unat l < 1024 \<Longrightarrow>
      pmem s' (entry (table_of s j) l) = pmem s (entry (table_of s j) l)" for j l
    using ok pd(1) tp [of j] i
    by (auto simp: s' tables_ok_def fill_table_entry [OF t(1)] entry_inject)
  show "unat l < 1024 \<Longrightarrow> pmem s' (entry t l) = f l"
    using pd i t(1) by (simp add: s' fill_table_entry entry_inject)
  have "table_of s' j \<noteq> page_directory s' \<and> unat (table_of s' j) + 4096 \<le> unat (heap_curr (pheap s'))"
    if "unat j < 1024" "present s' j" for j
    using that ok oth [of j] ti pd t h by (cases "j = i") (auto simp: tables_ok_def s')
  moreover have "j = k" if "unat j < 1024" "unat k < 1024" "present s' j" "present s' k"
      "table_of s' j = table_of s' k" for j k
    using that ok oth [of j] oth [of k] ti tp [of j] tp [of k]
    by (cases "j = i"; cases "k = i") (auto simp: tables_ok_def)
  ultimately show "tables_ok s'"
    using h ok by (auto simp: tables_ok_def s')
  show "drop_bit 22 v \<noteq> i \<Longrightarrow> page_walk s' v = page_walk s v"
    using oth [of "drop_bit 22 v"] slots [of "drop_bit 22 v" "drop_bit 12 v AND 0x3FF"]
    by (auto simp: page_walk_alt Let_def)
qed

text \<open>Adding an empty table changes no translation.\<close>

lemma ensure_table_present: "present s i \<Longrightarrow> ensure_table i s = s"
  by (simp add: ensure_table_def present_def pde_def)

lemma page_frontier_round:
  "unat (heap_curr h) mod 4096 = 0 \<Longrightarrow> round_up4 (unat (heap_curr h)) = unat (heap_curr h)"
  using mod_mod_cancel [of 4 4096 "unat (heap_curr h)"] by (simp add: round_up4_alt)

lemma ensure_table_new:
  assumes ok: "tables_ok s" and np: "\<not> present s i" and i: "unat i < 1024"
    and al: "unat (heap_curr (pheap s)) mod 4096 = 0"
    and room: "unat (heap_curr (pheap s)) + 4096 < unat (heap_end (pheap s))"
  shows "tables_ok (ensure_table i s) \<and> present (ensure_table i s) i
    \<and> page_walk (ensure_table i s) v = page_walk s v
    \<and> unat (heap_curr (pheap (ensure_table i s))) = unat (heap_curr (pheap s)) + 4096
    \<and> heap_end (pheap (ensure_table i s)) = heap_end (pheap s)"
proof -
  let ?h = "pheap s"
  have hok: "heap_ok ?h" using ok by (simp add: tables_ok_def)
  obtain p where km: "kmalloc 4096 ?h = (p, ?h\<lparr>heap_curr := p + 4096\<rparr>)"
    and p: "unat p = unat (heap_curr ?h)" and p': "unat (p + 4096) = unat (heap_curr ?h) + 4096"
    using kmalloc_ok [OF hok _ page_frontier_round [OF al, symmetric], of 4096] room by auto
  define s' where "s' = ensure_table i s"
  have s'_eq: "s' = s\<lparr>pheap := ?h\<lparr>heap_curr := p + 4096\<rparr>,
      pmem := (fill_table (pmem s) p (\<lambda>_. 2) 1024)(entry (page_directory s) i := p OR 7)\<rparr>"
    using np by (simp add: s'_def ensure_table_def km present_def pde_def Let_def)
  have pa: "page_aligned p" using al p by (simp add: page_aligned_def)
  have hok': "heap_ok (?h\<lparr>heap_curr := p + 4096\<rparr>)" using kmalloc_bump [OF hok _ km] by simp
  note link = link_table [OF ok np i pa _ _ hok' _ s'_eq]
  have "page_walk s' v = page_walk s v"
  proof (cases "drop_bit 22 v = i")
    case True
    then show ?thesis
      using np link(2,3,5) p p' by (simp add: page_walk_alt Let_def)
  next
    case False
    then show ?thesis using link(6) p p' by simp
  qed
  then show ?thesis
    using link(1,2) p p' unfolding s'_def [symmetric] by (simp add: s'_eq)
qed

lemma MapMemory_step:
  assumes ok: "tables_ok s"
    and room: "present s (drop_bit 22 virt) \<or> unat (heap_curr (pheap s)) mod 4096 = 0
       \<and> unat (heap_curr (pheap s)) + 4096 < unat (heap_end (pheap s))"
  shows "page_walk (MapMemory virt phys s) v =
      (if unat v div 4096 = unat virt div 4096
       then Some ((phys AND 0xFFFFF000) OR (v AND 0xFFF)) else page_walk s v)"
    and "tables_ok (MapMemory virt phys s)"
    and "unat (heap_curr (pheap (MapMemory virt phys s))) \<in>
       {unat (heap_curr (pheap s)), unat (heap_curr (pheap s)) + 4096}"
    and "heap_end (pheap (MapMemory virt phys s)) = heap_end (pheap s)"
proof -
  define s1 where "s1 = ensure_table (drop_bit 22 virt) s"
  have s1: "tables_ok s1 \<and> present s1 (drop_bit 22 virt) \<and> page_walk s1 v = page_walk s v
      \<and> unat (heap_curr (pheap s1)) \<in> {unat (heap_curr (pheap s)), unat (heap_curr (pheap s)) + 4096}
      \<and> heap_end (pheap s1) = heap_end (pheap s)" for v
    using ensure_table_new [OF ok _ _ _ _, of "drop_bit 22 virt"] ensure_table_present [of s "drop_bit 22 virt"]
      ok room unfolding s1_def by (cases "present s (drop_bit 22 virt)") auto
  define s2 where "s2 = s1\<lparr>pmem := (pmem s1)(entry (table_of s1 (drop_bit 22 virt))
      (drop_bit 12 virt AND 0x3FF) := (phys AND 0xFFFFF000) OR 7)\<rparr>"
  have eq: "MapMemory virt phys s = invlpg virt s2"
    by (simp add: MapMemory_alt s1_def s2_def Let_def)
  note st = set_pte [OF _ _ s2_def]
  show "page_walk (MapMemory virt phys s) v = (if unat v div 4096 = unat virt div 4096
       then Some ((phys AND 0xFFFFF000) OR (v AND 0xFFF)) else page_walk s v)"
    using st(2) [of v] s1 [of v] by (simp add: eq)
  show "tables_ok (MapMemory virt phys s)" using st(1) s1 by (simp add: eq)
  show "unat (heap_curr (pheap (MapMemory virt phys s))) \<in>
       {unat (heap_curr (pheap s)), unat (heap_curr (pheap s)) + 4096}"
    "heap_end (pheap (MapMemory virt phys s)) = heap_end (pheap s)"
    using s1 by (simp_all add: eq s2_def)
qed


section \<open>Mapping the framebuffer\<close>

text \<open>The loop of \<open>kernel_main\<close>: \<open>for (offset = 0; offset < fb_size; offset += 4096)
  MapMemory(fb_phys + offset, fb_phys + offset)\<close>, on 32-bit values. The fuel bounds the turns;
  \<open>None\<close> is a loop that has not ended within it.\<close>

fun map_framebuffer :: "nat \<Rightarrow> u32 \<Rightarrow> u32 \<Rightarrow> u32 \<Rightarrow> paging \<Rightarrow> paging option" where
  "map_framebuffer 0 fb_phys fb_size offset s = None"
| "map_framebuffer (Suc n) fb_phys fb_size offset s =
     (if offset < fb_size
      then map_framebuffer n fb_phys fb_size (offset + 4096) (MapMemory (fb_phys + offset) (fb_phys + offset) s)
      else Some s)"

definition identity_at :: "paging \<Rightarrow> u32 \<Rightarrow> bool" where
  "identity_at s v \<longleftrightarrow> page_walk s v = Some v"

lemma same_page_mask:
  "unat v div 4096 = unat w div 4096 \<Longrightarrow> (w AND 0xFFFFF000) OR (v AND 0xFFF) = (v :: u32)"
  using page_offset_or [of v] by (metis page_mask_unat word_unat_eq_iff)

lemma MapMemory_identity:
  assumes "tables_ok s" and "unat (heap_curr (pheap s)) mod 4096 = 0"
    and "unat (heap_curr (pheap s)) + 4096 < unat (heap_end (pheap s))"
  shows "identity_at s v \<or> unat v div 4096 = unat w div 4096 \<Longrightarrow> identity_at (MapMemory w w s) v"
  using MapMemory_step(1) [OF assms(1), of w w v] assms same_page_mask [of v w]
  by (auto simp: identity_at_def)

lemma map_framebuffer_run:
  assumes "tables_ok s" and "unat (heap_curr (pheap s)) mod 4096 = 0"
    and "unat (heap_curr (pheap s)) + 4096 * n < unat (heap_end (pheap s))"
    and "unat fb_size \<le> 4096 * (k + n)" and "4096 * (k + n) < 2 ^ 32"
  shows "\<exists>s'. map_framebuffer (Suc n) fb_phys fb_size (of_nat (4096 * k)) s = Some s' \<and> tables_ok s'
    \<and> (\<forall>v. identity_at s v \<longrightarrow> identity_at s' v)
    \<and> (\<forall>v j. k \<le> j \<longrightarrow> 4096 * j < unat fb_size \<longrightarrow>
         unat v div 4096 = unat (fb_phys + of_nat (4096 * j)) div 4096 \<longrightarrow> identity_at s' v)"
  using assms
proof (induction n arbitrary: k s)
  case 0
  have "\<not> of_nat (4096 * k) < fb_size"
    unfolding u32_less_nat using 0 by (subst unat_of_nat_u32) simp_all
  with 0 show ?case by auto
next
  case (Suc n)
  let ?o = "of_nat (4096 * k) :: u32"
  have o: "unat ?o = 4096 * k" using Suc.prems(5) by (intro unat_of_nat_u32) simp
  show ?case
  proof (cases "?o < fb_size")
    case False
    with Suc.prems(1) o show ?thesis by (auto simp: u32_less_nat)
  next
    case True
    define s1 where "s1 = MapMemory (fb_phys + ?o) (fb_phys + ?o) s"
    have rm: "unat (heap_curr (pheap s)) + 4096 < unat (heap_end (pheap s))"
      using Suc.prems(3) by simp
    note st = MapMemory_step [OF Suc.prems(1), of "fb_phys + ?o" "fb_phys + ?o", folded s1_def]
      and id1 = MapMemory_identity [OF Suc.prems(1,2) rm, of _ "fb_phys + ?o", folded s1_def]
    have c1: "unat (heap_curr (pheap s1)) \<in> {unat (heap_curr (pheap s)), unat (heap_curr (pheap s)) + 4096}"
      "heap_end (pheap s1) = heap_end (pheap s)" "tables_ok s1"
      using st Suc.prems(2) rm by blast+
    have "unat (heap_curr (pheap s1)) mod 4096 = 0"
      "unat (heap_curr (pheap s1)) + 4096 * n < unat (heap_end (pheap s1))"
      using c1 Suc.prems(2,3) by auto
    from Suc.IH [OF c1(3) this, of "Suc k"] Suc.prems(4,5)
    obtain s' where s': "map_framebuffer (Suc n) fb_phys fb_size (of_nat (4096 * Suc k)) s1 = Some s'"
        "tables_ok s'" "\<forall>v. identity_at s1 v \<longrightarrow> identity_at s' v"
        "\<forall>v j. Suc k \<le> j \<longrightarrow> 4096 * j < unat fb_size \<longrightarrow>
           unat v div 4096 = unat (fb_phys + of_nat (4096 * j)) div 4096 \<longrightarrow> identity_at s' v"
      by auto
    have "map_framebuffer (Suc (Suc n)) fb_phys fb_size ?o s = Some s'"
      using True s'(1) by (simp add: s1_def algebra_simps)
    moreover have "identity_at s' v" if "k \<le> j" "4096 * j < unat fb_size"
        "unat v div 4096 = unat (fb_phys + of_nat (4096 * j)) div 4096" for v j
    proof (cases "j = k")
      case True
      then show ?thesis using that s'(3) id1 by simp
    next
      case False
      then have "Suc k \<le> j" using that(1) by simp
      then show ?thesis using that s'(4) by blast
    qed
    ultimately show ?thesis using s'(2,3) id1 by blast
  qed
qed


section \<open>The initial tables\<close>

lemma kmalloc_page_slot:
  assumes ok: "heap_ok h" and room: "round_up4 (unat (heap_curr h)) + 8192 < unat (heap_end h)"
    and km: "kmalloc 8192 h = (raw, h')" and t: "t = (raw + 4096) AND 0xFFFFF000"
  shows "page_aligned t" and "unat (heap_curr h) < unat t" and "unat t + 4096 \<le> unat (heap_curr h')"
    and "heap_ok h'" and "unat (heap_curr h') = round_up4 (unat (heap_curr h)) + 8192"
    and "heap_end h' = heap_end h"
proof -
  obtain p where p: "kmalloc 8192 h = (p, h\<lparr>heap_curr := p + 8192\<rparr>)"
    "unat p = round_up4 (unat (heap_curr h))" "unat (p + 8192) = round_up4 (unat (heap_curr h)) + 8192"
    using kmalloc_ok [OF ok _ refl, of 8192] room by auto
  have raw: "raw = p" "h' = h\<lparr>heap_curr := p + 8192\<rparr>" using km p(1) by auto
  have e: "unat (heap_end h) \<le> 2 ^ 30" using heap_okD [OF ok] by simp
  have r4: "unat (raw + 4096) = unat raw + 4096"
    using raw p room e by (intro unat_plus_no_wrap [THEN trans]) simp_all
  have ut: "unat t = (unat raw + 4096) div 4096 * 4096" using r4 t by (simp add: page_mask_unat)
  show "page_aligned t" using t by simp
  have "unat raw < unat t \<and> unat t \<le> unat raw + 4096"
    using ut div_mult_mod_eq [of "unat raw + 4096" 4096] mod_less_divisor [of 4096 "unat raw + 4096"]
    by linarith
  then show "unat (heap_curr h) < unat t" "unat t + 4096 \<le> unat (heap_curr h')"
    using raw p round_up4_ge [of "unat (heap_curr h)"] by simp_all
  show "heap_ok h'" using kmalloc_bump [OF ok _ km] by simp
  show "unat (heap_curr h') = round_up4 (unat (heap_curr h)) + 8192" "heap_end h' = heap_end h"
    using raw p by simp_all
qed

lemma round_up4_add: "round_up4 (round_up4 n + 8192 * k) = round_up4 n + 8192 * k"
  by (simp add: round_up4_alt [of "round_up4 n + 8192 * k"]) (simp add: round_up4_def mod_mult_right_eq)

text \<open>The state after the directory and \<open>n\<close> tables: the first \<open>n\<close> entries map 4 MB each onto
  themselves, the others are not present.\<close>

definition init_inv :: "kheap \<Rightarrow> nat \<Rightarrow> paging \<Rightarrow> bool" where
  "init_inv h n s \<longleftrightarrow> tables_ok s
     \<and> unat (heap_curr (pheap s)) = round_up4 (unat (heap_curr h)) + 8192 * Suc n
     \<and> heap_end (pheap s) = heap_end h
     \<and> (\<forall>i. unat i < 1024 \<longrightarrow> (present s i \<longleftrightarrow> unat i < n))
     \<and> (\<forall>v. unat v div 4194304 < n \<longrightarrow> identity_at s v)"

lemma init_directory_inv:
  assumes "heap_ok (pheap s)" and "round_up4 (unat (heap_curr (pheap s))) + 8192 < unat (heap_end (pheap s))"
  shows "init_inv (pheap s) 0 (init_directory s)"
proof -
  obtain raw h' where km: "kmalloc 8192 (pheap s) = (raw, h')" by (cases "kmalloc 8192 (pheap s)")
  define t where "t = (raw + 4096) AND 0xFFFFF000"
  note sl = kmalloc_page_slot [OF assms km t_def]
  have eq: "init_directory s = s\<lparr>pheap := h', page_directory := t, pmem := fill_table (pmem s) t (\<lambda>_. 2) 1024\<rparr>"
    by (simp add: init_directory_def km t_def Let_def)
  have "unat i < 1024 \<Longrightarrow> \<not> present (init_directory s) i" for i
    by (simp add: present_def pde_def eq fill_table_entry [OF sl(1,1)])
  then show ?thesis
    using sl by (auto simp: init_inv_def tables_ok_def eq)
qed

lemma identity_pte:
  fixes v :: u32
  assumes "drop_bit 22 v = i" and "drop_bit 12 v AND 0x3FF = j"
  shows "i * 4 * 1024 * 1024 + j * 4096 = v AND 0xFFFFF000"
proof -
  have i: "unat i = unat v div 4096 div 1024" and j: "unat j = unat v div 4096 mod 1024"
    using assms pd_index_unat [of v] pt_index_unat [of v] by (auto simp: div_mult2_eq)
  have "unat i < 1024" using assms(1) pd_index_less by blast
  then have ui: "unat (i * 4 * 1024 * 1024) = unat i * 4194304"
    by (simp add: unat_word_ariths)
  have uj: "unat (j * 4096) = unat j * 4096" using j by (simp add: unat_word_ariths)
  have sum: "unat i * 4194304 + unat j * 4096 = unat v div 4096 * 4096"
    using div_mult_mod_eq [of "unat v div 4096" 1024] unfolding i j by linarith
  have "unat v div 4096 * 4096 \<le> unat v" by simp
  then have "unat (i * 4 * 1024 * 1024 + j * 4096) = unat v div 4096 * 4096"
    using ui uj sum unat_u32_less [of v] by (subst unat_plus_no_wrap) simp_all
  then show ?thesis by (simp add: word_unat_eq_iff page_mask_unat)
qed

lemma init_table_inv:
  assumes inv: "init_inv h n s" and n: "n < 32"
    and room: "round_up4 (unat (heap_curr h)) + 8192 * Suc (Suc n) < unat (heap_end h)"
  shows "init_inv h (Suc n) (init_table (of_nat n) s)"
proof -
  have ok: "tables_ok s" using inv unfolding init_inv_def by blast
  then have hok: "heap_ok (pheap s)" unfolding tables_ok_def by blast
  have i: "unat (of_nat n :: u32) = n" using n by (intro unat_of_nat_u32) simp
  have np: "\<not> present s (of_nat n)" using inv n i by (simp add: init_inv_def)
  have r: "round_up4 (unat (heap_curr (pheap s))) = round_up4 (unat (heap_curr h)) + 8192 * Suc n"
    using inv round_up4_add [of "unat (heap_curr h)" "Suc n"] by (simp add: init_inv_def)
  obtain raw h' where km: "kmalloc 8192 (pheap s) = (raw, h')" by (cases "kmalloc 8192 (pheap s)")
  define t where "t = (raw + 4096) AND 0xFFFFF000"
  have "round_up4 (unat (heap_curr (pheap s))) + 8192 < unat (heap_end (pheap s))"
    using r room inv by (simp add: init_inv_def)
  note sl = kmalloc_page_slot [OF hok this km t_def]
  define s' where "s' = init_table (of_nat n) s"
  have eq: "s' = s\<lparr>pheap := h', pmem := (fill_table (pmem s) t
      (\<lambda>j. (of_nat n * 4 * 1024 * 1024 + j * 4096) OR 7) 1024)(entry (page_directory s) (of_nat n) := t OR 7)\<rparr>"
    by (simp add: s'_def init_table_def km t_def Let_def)
  note link = link_table [OF ok np _ sl(1) _ sl(3,4) _ eq]
  have facts: "unat (of_nat n :: u32) < 1024" "unat (heap_curr (pheap s)) \<le> unat t"
    "unat (heap_curr (pheap s)) \<le> unat (heap_curr h')"
    using i n sl by simp_all
  have walk: "identity_at s' v" if "unat v div 4194304 < Suc n" for v
  proof (cases "drop_bit 22 v = of_nat n")
    case True
    let ?e = "(of_nat n * 4 * 1024 * 1024 + (drop_bit 12 v AND 0x3FF) * 4096 :: u32) OR 7"
    have "of_nat n * 4 * 1024 * 1024 + (drop_bit 12 v AND 0x3FF) * 4096 = v AND 0xFFFFF000"
      using identity_pte [OF True refl] .
    then have "?e AND 0xFFFFF000 = v AND 0xFFFFF000" "?e AND 1 \<noteq> 0"
      using entry_flags [of "v AND 0xFFFFF000"] by simp_all
    then show ?thesis
      using True link(2,3) link(5) [of "drop_bit 12 v AND 0x3FF"] facts page_offset_or [of v]
      by (simp add: identity_at_def page_walk_alt Let_def)
  next
    case False
    then have "unat v div 4194304 \<noteq> n" using pd_index_unat [of v] i by (metis word_unat_eq_iff)
    then have "identity_at s v" using that inv by (simp add: init_inv_def)
    then show ?thesis using False link(6) facts by (simp add: identity_at_def)
  qed
  have "present s' j \<longleftrightarrow> unat j < Suc n" if "unat j < 1024" for j
  proof (cases "j = of_nat n")
    case True
    then show ?thesis using link(2) facts i by simp
  next
    case False
    then have "unat j \<noteq> n" using i by (metis word_unat_eq_iff)
    then show ?thesis
      using False link(4) [of j] facts that inv by (auto simp: init_inv_def present_def)
  qed
  then show ?thesis
    using link(1) facts walk sl r inv unfolding s'_def [symmetric]
    by (simp add: init_inv_def eq)
qed

lemma init_tables_inv:
  assumes "init_inv h 0 s" and "n \<le> 32"
    and "round_up4 (unat (heap_curr h)) + 8192 * Suc n < unat (heap_end h)"
  shows "init_inv h n (init_tables n s)"
  using assms(2,3)
proof (induction n)
  case 0
  then show ?case using assms(1) by simp
next
  case (Suc n)
  then show ?case by (auto intro!: init_table_inv)
qed


section \<open>Properties\<close>

text \<open>The state \<open>kernel_main\<close> starts from: memory cleared, the heap just initialised.\<close>

definition boot_paging :: paging where
  "boot_paging = \<lparr>pmem = (\<lambda>_. 0), page_directory = 0, pheap = boot_heap, cr3 = 0, cr0 = 0, flushed = []\<rparr>"

lemma boot_heap_numbers:
  "round_up4 (unat (heap_curr boot_heap)) = 0x00A00000" "unat (heap_end boot_heap) = 0x01400000"
  by (simp_all add: boot_heap_def kheap_init_def round_up4_def)

lemma Init_fields:
  "page_walk (PageTableManager_Init s) = page_walk (init_tables 32 (init_directory s))"
  "pheap (PageTableManager_Init s) = pheap (init_tables 32 (init_directory s))"
  "tables_ok (PageTableManager_Init s) = tables_ok (init_tables 32 (init_directory s))"
  by (auto simp: PageTableManager_Init_def EnablePaging_def SwitchPageDirectory_def Let_def
      page_walk_alt present_def table_of_def pde_def tables_ok_def fun_eq_iff)

lemma PageTableManager_Init_inv:
  assumes "heap_ok (pheap s)"
    and "round_up4 (unat (heap_curr (pheap s))) + 33 * 8192 < unat (heap_end (pheap s))"
  shows "init_inv (pheap s) 32 (init_tables 32 (init_directory s))"
  using assms by (intro init_tables_inv init_directory_inv) simp_all

text \<open>C15: initialisation. Given room for 33 double pages, \<open>PageTableManager::Init\<close> leaves the tables
  in order with every address below 128 MB translating to itself and every other address not
  present, the directory loaded into CR3 and paging enabled; it takes 33 blocks of 8 KB.\<close>

theorem PageTableManager_Init_identity:
  assumes "heap_ok (pheap s)"
    and "round_up4 (unat (heap_curr (pheap s))) + 33 * 8192 < unat (heap_end (pheap s))"
  shows "let s' = PageTableManager_Init s in
    tables_ok s' \<and> (\<forall>v. page_walk s' v = (if unat v < 128 * 1024 * 1024 then Some v else None))
    \<and> cr3 s' = page_directory s' \<and> bit (cr0 s') 31
    \<and> unat (heap_curr (pheap s')) = round_up4 (unat (heap_curr (pheap s))) + 33 * 8192
    \<and> heap_end (pheap s') = heap_end (pheap s)"
proof -
  note inv = PageTableManager_Init_inv [OF assms]
  have "page_walk (PageTableManager_Init s) v = (if unat v < 128 * 1024 * 1024 then Some v else None)" for v
  proof -
    have "unat v < 128 * 1024 * 1024 \<longleftrightarrow> unat v div 4194304 < 32" by (simp add: less_mult_imp_div_less) linarith
    then show ?thesis
      using inv pd_index_unat [of v] pd_index_less [of v]
      by (auto simp: init_inv_def Init_fields identity_at_def page_walk_alt [of _ v])
  qed
  moreover have "bit (cr0 (PageTableManager_Init s)) 31"
  proof -
    have "(0x80000000 :: u32) = push_bit 31 1" by simp
    then have "bit (0x80000000 :: u32) 31" by (simp only: bit_simps) simp
    then show ?thesis by (simp add: PageTableManager_Init_def EnablePaging_def Let_def bit_or_iff)
  qed
  ultimately show ?thesis
    using inv by (auto simp: Let_def Init_fields init_inv_def)
      (simp add: PageTableManager_Init_def EnablePaging_def SwitchPageDirectory_def Let_def)
qed

lemma boot_paging_room:
  "heap_ok (pheap boot_paging)"
  "round_up4 (unat (heap_curr (pheap boot_paging))) + 33 * 8192 < unat (heap_end (pheap boot_paging))"
  by (simp_all add: boot_paging_def boot_heap_numbers)

theorem PageTableManager_Init_identity_witness:
  "page_walk (PageTableManager_Init boot_paging) 0x00400123 = Some 0x00400123
   \<and> page_walk (PageTableManager_Init boot_paging) 0x08000000 = None"
  using PageTableManager_Init_identity [OF boot_paging_room] by (simp add: Let_def)

text \<open>C7: mapping a page. With the tables in order, and the frontier page-aligned with room for
  one table in case a new one is needed, \<open>MapMemory virt phys\<close> makes every address of the page
  of \<open>virt\<close> translate to the same offset of the page of \<open>phys\<close>, leaves the translation of every
  other address as it was, and keeps the tables in order.\<close>

theorem MapMemory_translates:
  assumes "tables_ok s"
    and "present s (drop_bit 22 virt) \<or> unat (heap_curr (pheap s)) mod 4096 = 0
       \<and> unat (heap_curr (pheap s)) + 4096 < unat (heap_end (pheap s))"
  shows "page_walk (MapMemory virt phys s) v =
      (if unat v div 4096 = unat virt div 4096
       then Some ((phys AND 0xFFFFF000) OR (v AND 0xFFF)) else page_walk s v)
    \<and> tables_ok (MapMemory virt phys s)"
  using MapMemory_step(1,2) [OF assms] by simp

lemma boot_tables:
  "tables_ok (PageTableManager_Init boot_paging)"
  "unat (heap_curr (pheap (PageTableManager_Init boot_paging))) = 0x00A42000"
  "unat (heap_end (pheap (PageTableManager_Init boot_paging))) = 0x01400000"
  "unat v < 128 * 1024 * 1024 \<Longrightarrow> identity_at (PageTableManager_Init boot_paging) v"
  using PageTableManager_Init_inv [OF boot_paging_room] pd_index_unat
  by (auto simp: init_inv_def Init_fields boot_paging_def boot_heap_numbers identity_at_def
      less_mult_imp_div_less)

theorem MapMemory_translates_witness:
  "page_walk (MapMemory 0xFD000000 0x12345678 (PageTableManager_Init boot_paging)) 0xFD000ABC
   = Some 0x12345ABC"
proof -
  have "page_walk (MapMemory 0xFD000000 0x12345678 (PageTableManager_Init boot_paging)) 0xFD000ABC
      = Some ((0x12345678 AND 0xFFFFF000) OR (0xFD000ABC AND 0xFFF))"
    using MapMemory_translates [of "PageTableManager_Init boot_paging" "0xFD000000" "0x12345678" "0xFD000ABC"]
    by (simp add: boot_tables)
  then show ?thesis by simp
qed

lemma page_of_sum: "unat (a + of_nat d :: u32) div 4096 = (unat a + d) div 4096 mod 1048576"
proof -
  have "unat (a + of_nat d) div 4096 = (unat a + d) mod (4096 * 1048576) div 4096"
    by (simp add: unat_word_ariths unat_of_nat mod_add_right_eq)
  also have "\<dots> = (unat a + d) div 4096 mod 1048576"
    by (subst mod_mult2_eq) simp
  finally show ?thesis .
qed

lemma map_framebuffer_all:
  assumes "tables_ok s" and "unat (heap_curr (pheap s)) mod 4096 = 0"
    and "n = (unat fb_size + 4095) div 4096" and "unat fb_size \<le> 2 ^ 32 - 4096"
    and "unat (heap_curr (pheap s)) + 4096 * n < unat (heap_end (pheap s))"
    and "page_aligned fb_phys"
  shows "\<exists>s'. map_framebuffer (Suc n) fb_phys fb_size 0 s = Some s' \<and> tables_ok s'
    \<and> (\<forall>v. page_walk s v = Some v \<longrightarrow> page_walk s' v = Some v)
    \<and> (\<forall>d. d < unat fb_size \<longrightarrow> page_walk s' (fb_phys + of_nat d) = Some (fb_phys + of_nat d))"
proof -
  have n: "unat fb_size \<le> 4096 * n" using assms(3) by simp
  have n': "4096 * n < 2 ^ 32" using assms(3,4) by simp
  obtain s' where s': "map_framebuffer (Suc n) fb_phys fb_size 0 s = Some s'" "tables_ok s'"
    "\<forall>v. identity_at s v \<longrightarrow> identity_at s' v"
    "\<forall>v j. 4096 * j < unat fb_size \<longrightarrow>
       unat v div 4096 = unat (fb_phys + of_nat (4096 * j)) div 4096 \<longrightarrow> identity_at s' v"
    using map_framebuffer_run [OF assms(1,2,5), of fb_size 0 fb_phys] n n' by auto
  have "identity_at s' (fb_phys + of_nat d)" if "d < unat fb_size" for d
  proof -
    let ?j = "d div 4096"
    have lt: "4096 * ?j < unat fb_size" using that div_times_less_eq_dividend [of d 4096] by linarith
    have "(unat fb_phys + d) div 4096 = (unat fb_phys + 4096 * ?j) div 4096"
      using assms(6) by (simp add: page_aligned_def div_add1_eq [of "unat fb_phys"])
    then have "unat (fb_phys + of_nat d) div 4096 = unat (fb_phys + of_nat (4096 * ?j)) div 4096"
      by (simp only: page_of_sum)
    then show ?thesis using s'(4) lt by blast
  qed
  then show ?thesis using s' unfolding identity_at_def by blast
qed

text \<open>The framebuffer. From tables in order with a page-aligned frontier and one page of heap
  per page mapped, the loop over a page-aligned framebuffer of at most 2^32 - 4096 bytes ends, and
  then every address of the framebuffer translates to itself, as does every address that did
  before.\<close>

theorem map_framebuffer_identity:
  assumes "tables_ok s" and "unat (heap_curr (pheap s)) mod 4096 = 0"
    and "n = (unat fb_size + 4095) div 4096" and "unat fb_size \<le> 2 ^ 32 - 4096"
    and "unat (heap_curr (pheap s)) + 4096 * n < unat (heap_end (pheap s))"
    and "page_aligned fb_phys"
  shows "\<exists>s'. map_framebuffer (Suc n) fb_phys fb_size 0 s = Some s' \<and> tables_ok s'
    \<and> (\<forall>v. page_walk s v = Some v \<longrightarrow> page_walk s' v = Some v)
    \<and> (\<forall>d. d < unat fb_size \<longrightarrow> page_walk s' (fb_phys + of_nat d) = Some (fb_phys + of_nat d))"
  by (rule map_framebuffer_all [OF assms])


theorem map_framebuffer_identity_witness:
  "\<exists>s'. map_framebuffer 470 0xFD000000 1920000 0 (PageTableManager_Init boot_paging) = Some s'
    \<and> page_walk s' 0xFD1D4BFC = Some 0xFD1D4BFC \<and> page_walk s' 0x00400000 = Some 0x00400000"
proof -
  let ?s = "PageTableManager_Init boot_paging"
  obtain s' where s': "map_framebuffer (Suc 469) 0xFD000000 1920000 0 ?s = Some s'"
    "\<forall>v. page_walk ?s v = Some v \<longrightarrow> page_walk s' v = Some v"
    "\<forall>d. d < 1920000 \<longrightarrow> page_walk s' (0xFD000000 + of_nat d) = Some (0xFD000000 + of_nat d)"
    using map_framebuffer_identity [of ?s 469 1920000 "0xFD000000"]
    by (auto simp: boot_tables page_aligned_def)
  have "page_walk s' 0xFD1D4BFC = Some 0xFD1D4BFC"
    using s'(3) [rule_format, of 1919996] by simp
  moreover have "page_walk s' 0x00400000 = Some 0x00400000"
    using s'(2) boot_tables(4) [of "0x00400000"] by (simp add: identity_at_def)
  ultimately show ?thesis using s'(1) by (auto simp: numeral_eq_Suc)
qed

text \<open>The table of a new directory entry comes from \<open>kmalloc\<close>, which aligns to 4 only. When the
  frontier is not page-aligned, the entry's address field drops the low bits and the table in use
  begins below the frontier, in memory that was handed out before.\<close>

theorem MapMemory_unaligned_table:
  assumes "heap_ok (pheap s)" and "\<not> present s i" and "round_up4 (unat (heap_curr (pheap s))) mod 4096 \<noteq> 0"
    and "round_up4 (unat (heap_curr (pheap s))) + 4096 < unat (heap_end (pheap s))"
  shows "unat (table_of (ensure_table i s) i) < unat (heap_curr (pheap s))
    \<and> unat (heap_curr (pheap s)) < unat (table_of (ensure_table i s) i) + 4096"
proof -
  let ?c = "unat (heap_curr (pheap s))"
  obtain p where km: "kmalloc 4096 (pheap s) = (p, pheap s\<lparr>heap_curr := p + 4096\<rparr>)" "unat p = round_up4 ?c"
    using kmalloc_ok [OF assms(1) _ refl, of 4096] assms(4) by auto
  have "pde (ensure_table i s) i = p OR 7"
    using assms(2) by (simp add: ensure_table_def pde_def present_def km Let_def)
  moreover have "(p OR 7) AND 0xFFFFF000 = p AND 0xFFFFF000"
  proof -
    have "push_bit 12 (drop_bit 12 (p OR 7)) = push_bit 12 (drop_bit 12 p)"
      by (rule bit_word_eqI) (auto simp: bit_simps seven_bits)
    then show ?thesis by (simp only: page_mask)
  qed
  ultimately have t: "unat (table_of (ensure_table i s) i) = round_up4 ?c div 4096 * 4096"
    using km(2) by (simp add: table_of_def page_mask_unat)
  define q r where "q = round_up4 ?c div 4096" and "r = round_up4 ?c mod 4096"
  have split: "round_up4 ?c = 4096 * q + r" "r < 4096" "r \<noteq> 0"
    using assms(3) unfolding q_def r_def by simp_all
  have "(4 * (1024 * q) + r) mod 4 = 0" using round_up4_mod [of ?c] unfolding split(1) by simp
  then have "r mod 4 = 0" by (simp only: mod_mult_self4)
  then have "4 \<le> r" using split(3) by (metis mod_less not_le)
  then show ?thesis
    using t split round_up4_le [of ?c] round_up4_ge [of ?c] unfolding q_def [symmetric] by simp
qed

theorem MapMemory_unaligned_table_witness:
  "unat (table_of (ensure_table 0x3F4 (boot_paging\<lparr>pheap := boot_heap\<lparr>heap_curr := 0x00A00010\<rparr>\<rparr>)) 0x3F4)
   < 0x00A00010"
proof -
  let ?s = "boot_paging\<lparr>pheap := boot_heap\<lparr>heap_curr := 0x00A00010\<rparr>\<rparr>"
  have "heap_ok (pheap ?s)" "\<not> present ?s 0x3F4"
    by (simp_all add: heap_ok_def boot_heap_def kheap_init_def round_up4_def present_def pde_def boot_paging_def)
  then show ?thesis
    using MapMemory_unaligned_table [of ?s "0x3F4"]
    by (simp add: round_up4_def boot_heap_def kheap_init_def)
qed

end
