(* ===== verification/PortIO.thy ===== *)
theory PortIO
  imports Prelude
begin

text \<open>
  Port input and output, the wrappers \<open>WritePort\<close>, \<open>ReadPort\<close>, \<open>WritePort16\<close> and
  \<open>ReadPort16\<close> of src/core/interrupts.cpp and interrupts.h. The hardware is the environment: the
  values it answers to the successive reads are a list, a parameter of every run; \<open>None\<close> means
  that the answers have run out, that is, that the code is still waiting. What the code did is
  kept as a log of events in program order. The three drivers that are only port traffic follow:
  the ATA disk (src/drivers/ata.cpp), the clock (rtc.cpp) and the interrupt controllers.
\<close>

datatype io_event =
    OutB u16 u8
  | OutW u16 u16
  | InB u16 u8
  | InW u16 u16

record io =
  answers :: "u16 list"
  events :: "io_event list"

definition WritePort :: "u16 \<Rightarrow> u8 \<Rightarrow> io \<Rightarrow> io" where
  "WritePort port d io = io\<lparr>events := events io @ [OutB port d]\<rparr>"

text \<open>The slow variant only jumps twice after the write.\<close>

definition Port8BitSlow :: "u16 \<Rightarrow> u8 \<Rightarrow> io \<Rightarrow> io" where
  "Port8BitSlow port d io = io\<lparr>events := events io @ [OutB port d]\<rparr>"

definition WritePort16 :: "u16 \<Rightarrow> u16 \<Rightarrow> io \<Rightarrow> io" where
  "WritePort16 port d io = io\<lparr>events := events io @ [OutW port d]\<rparr>"

definition ReadPort :: "u16 \<Rightarrow> io \<Rightarrow> (u8 \<times> io) option" where
  "ReadPort port io = (case answers io of [] \<Rightarrow> None
     | v # vs \<Rightarrow> Some (ucast v, io\<lparr>answers := vs, events := events io @ [InB port (ucast v)]\<rparr>))"

definition ReadPort16 :: "u16 \<Rightarrow> io \<Rightarrow> (u16 \<times> io) option" where
  "ReadPort16 port io = (case answers io of [] \<Rightarrow> None
     | v # vs \<Rightarrow> Some (v, io\<lparr>answers := vs, events := events io @ [InW port v]\<rparr>))"

lemma ReadPort_shrinks: "ReadPort port io = Some (v, io') \<Longrightarrow> length (answers io') < length (answers io)"
  by (auto simp: ReadPort_def split: list.splits)

lemmas port_defs = WritePort_def WritePort16_def ReadPort_def ReadPort16_def

section \<open>The ATA disk\<close>

definition ATA_DATA :: u16 where "ATA_DATA = 0x1F0"
definition ATA_ERROR :: u16 where "ATA_ERROR = 0x1F1"
definition ATA_SECTOR_CNT :: u16 where "ATA_SECTOR_CNT = 0x1F2"
definition ATA_LBA_LO :: u16 where "ATA_LBA_LO = 0x1F3"
definition ATA_LBA_MID :: u16 where "ATA_LBA_MID = 0x1F4"
definition ATA_LBA_HI :: u16 where "ATA_LBA_HI = 0x1F5"
definition ATA_DRIVE_HEAD :: u16 where "ATA_DRIVE_HEAD = 0x1F6"
definition ATA_COMMAND :: u16 where "ATA_COMMAND = 0x1F7"

lemmas ata_ports = ATA_DATA_def ATA_ERROR_def ATA_SECTOR_CNT_def ATA_LBA_LO_def ATA_LBA_MID_def
  ATA_LBA_HI_def ATA_DRIVE_HEAD_def ATA_COMMAND_def

text \<open>Steps 1 to 5, shared by both transfers: select the drive, one sector, its address, the command.\<close>

definition ata_select :: "u32 \<Rightarrow> u8 \<Rightarrow> io \<Rightarrow> io" where
  "ata_select sector command io =
     (let io = WritePort ATA_DRIVE_HEAD (0xE0 OR ucast (drop_bit 24 sector AND 0x0F)) io;
          io = WritePort ATA_ERROR 0x00 io;
          io = WritePort ATA_SECTOR_CNT 1 io;
          io = WritePort ATA_LBA_LO (ucast (sector AND 0xFF)) io;
          io = WritePort ATA_LBA_MID (ucast (drop_bit 8 sector AND 0xFF)) io;
          io = WritePort ATA_LBA_HI (ucast (drop_bit 16 sector AND 0xFF)) io
      in WritePort ATA_COMMAND command io)"

text \<open>\<open>while ((status & 0x80) && !(status & 0x08)) status = ReadPort(ATA_STATUS)\<close>, with the read
  before it; the status port is the command port.\<close>

definition ata_busy :: "u8 \<Rightarrow> bool" where
  "ata_busy status \<longleftrightarrow> status AND 0x80 \<noteq> 0 \<and> status AND 0x08 = 0"

function ata_wait :: "io \<Rightarrow> io option" where
  "ata_wait io = do {
     (status, io1) \<leftarrow> ReadPort ATA_COMMAND io;
     if ata_busy status then ata_wait io1 else Some io1
   }"
  by pat_completeness auto
termination
  by (relation "measure (length \<circ> answers)") (auto dest: ReadPort_shrinks)

declare ata_wait.simps [simp del]

fun ata_read_words :: "nat \<Rightarrow> io \<Rightarrow> (u8 list \<times> io) option" where
  "ata_read_words 0 io = Some ([], io)"
| "ata_read_words (Suc n) io = do {
     (d, io1) \<leftarrow> ReadPort16 ATA_DATA io;
     (rest, io2) \<leftarrow> ata_read_words n io1;
     Some (ucast (d AND 0xFF) # ucast (drop_bit 8 d AND 0xFF) # rest, io2)
   }"

definition Read28 :: "u32 \<Rightarrow> io \<Rightarrow> (u8 list \<times> io) option" where
  "Read28 sector io = do {
     io1 \<leftarrow> ata_wait (ata_select sector 0x20 io);
     ata_read_words 256 io1
   }"

text \<open>The buffer must hold the 512 bytes that are read from it.\<close>

fun ata_write_words :: "nat \<Rightarrow> u8 list \<Rightarrow> io \<Rightarrow> io option" where
  "ata_write_words 0 data io = Some io"
| "ata_write_words (Suc n) (lo # hi # data) io =
     ata_write_words n data (WritePort16 ATA_DATA (ucast lo OR push_bit 8 (ucast hi)) io)"
| "ata_write_words (Suc n) _ io = None"

definition ata_flush :: "io \<Rightarrow> io" where
  "ata_flush io = WritePort ATA_COMMAND 0xE7 io"

definition Write28 :: "u32 \<Rightarrow> u8 list \<Rightarrow> io \<Rightarrow> io option" where
  "Write28 sector data io = do {
     io1 \<leftarrow> ata_wait (ata_select sector 0x30 io);
     io2 \<leftarrow> ata_write_words 256 data io1;
     Some (WritePort ATA_COMMAND 0xE7 io2)
   }"

subsection \<open>Words and bytes on the data port\<close>

definition word_lo :: "u16 \<Rightarrow> u8" where "word_lo d = ucast (d AND 0xFF)"
definition word_hi :: "u16 \<Rightarrow> u8" where "word_hi d = ucast (drop_bit 8 d AND 0xFF)"
definition word_of_bytes :: "u8 \<Rightarrow> u8 \<Rightarrow> u16" where
  "word_of_bytes lo hi = ucast lo OR push_bit 8 (ucast hi)"

lemma and_ff_u16: "(d :: u16) AND 0xFF = take_bit 8 d"
  by (simp add: take_bit_eq_mask mask_eq_exp_minus_1)

lemma word_of_bytes_split [simp]: "word_of_bytes (word_lo d) (word_hi d) = d"
  unfolding word_of_bytes_def word_lo_def word_hi_def and_ff_u16
  apply (rule bit_word_eqI)
  subgoal for n by (cases "n < 8") (auto simp: bit_simps less_diff_conv2)
  done

lemma word_bytes_join [simp]: "word_lo (word_of_bytes a b) = a" "word_hi (word_of_bytes a b) = b"
  unfolding word_of_bytes_def word_lo_def word_hi_def and_ff_u16
  by (rule bit_word_eqI; auto simp: bit_simps)+

fun bytes_of_words :: "u16 list \<Rightarrow> u8 list" where
  "bytes_of_words [] = []"
| "bytes_of_words (w # ws) = word_lo w # word_hi w # bytes_of_words ws"

fun words_of_bytes :: "u8 list \<Rightarrow> u16 list" where
  "words_of_bytes (a # b # bs) = word_of_bytes a b # words_of_bytes bs"
| "words_of_bytes _ = []"

lemma length_words_of_bytes [simp]: "length (words_of_bytes bs) = length bs div 2"
  by (induction bs rule: words_of_bytes.induct) auto

lemma bytes_of_words_of_bytes: "even (length bs) \<Longrightarrow> bytes_of_words (words_of_bytes bs) = bs"
  by (induction bs rule: words_of_bytes.induct) auto

lemma ata_wait_spec:
  "(\<forall>b \<in> set bs. ata_busy (ucast b)) \<Longrightarrow> \<not> ata_busy (ucast r) \<Longrightarrow> answers io = bs @ r # rest \<Longrightarrow>
   ata_wait io = Some (io\<lparr>answers := rest,
     events := events io @ map (InB ATA_COMMAND) (map ucast (bs @ [r]))\<rparr>)"
proof (induction bs arbitrary: io)
  case Nil
  then show ?case by (simp add: ata_wait.simps [of io] ReadPort_def)
next
  case (Cons b bs)
  then show ?case by (simp add: ata_wait.simps [of io] ReadPort_def)
qed

lemma ata_read_words_spec:
  "answers io = ws @ rest \<Longrightarrow> length ws = n \<Longrightarrow>
   ata_read_words n io = Some (bytes_of_words ws,
     io\<lparr>answers := rest, events := events io @ map (InW ATA_DATA) ws\<rparr>)"
proof (induction n arbitrary: io ws)
  case 0
  then show ?case by simp
next
  case (Suc n)
  then obtain w ws' where "ws = w # ws'" by (cases ws) auto
  with Suc show ?case by (simp add: ReadPort16_def word_lo_def word_hi_def)
qed

lemma ata_write_words_spec:
  "2 * n \<le> length data \<Longrightarrow> ata_write_words n data io =
     Some (io\<lparr>events := events io @ map (OutW ATA_DATA) (words_of_bytes (take (2 * n) data))\<rparr>)"
  by (induction n data io rule: ata_write_words.induct)
    (auto simp: WritePort16_def word_of_bytes_def)

text \<open>The seven register writes that start a transfer.\<close>

definition select_events :: "u32 \<Rightarrow> u8 \<Rightarrow> io_event list" where
  "select_events sector command =
     [OutB ATA_DRIVE_HEAD (0xE0 OR ucast (drop_bit 24 sector AND 0x0F)), OutB ATA_ERROR 0,
      OutB ATA_SECTOR_CNT 1, OutB ATA_LBA_LO (byte_at 0 sector), OutB ATA_LBA_MID (byte_at 1 sector),
      OutB ATA_LBA_HI (byte_at 2 sector), OutB ATA_COMMAND command]"

lemma ata_select_spec:
  "ata_select sector command io = io\<lparr>events := events io @ select_events sector command\<rparr>"
  by (simp add: ata_select_def select_events_def WritePort_def Let_def byte_at_def)


subsection \<open>Properties of the transfers\<close>

lemma Read28_spec:
  assumes "\<forall>b \<in> set bs. ata_busy (ucast b)" and "\<not> ata_busy (ucast r)"
    and "answers io = bs @ r # ws @ rest" and "length ws = 256"
  shows "Read28 sector io = Some (bytes_of_words ws, io\<lparr>answers := rest,
    events := events io @ select_events sector 0x20
      @ map (InB ATA_COMMAND) (map ucast (bs @ [r])) @ map (InW ATA_DATA) ws\<rparr>)"
  using assms
  by (simp add: Read28_def ata_select_spec ata_wait_spec [OF assms(1,2)] ata_read_words_spec
      del: ata_read_words.simps)

lemma Write28_spec:
  assumes "\<forall>b \<in> set bs. ata_busy (ucast b)" and "\<not> ata_busy (ucast r)"
    and "answers io = bs @ r # rest" and "length data = 512"
  shows "Write28 sector data io = Some (io\<lparr>answers := rest,
    events := events io @ select_events sector 0x30
      @ map (InB ATA_COMMAND) (map ucast (bs @ [r]))
      @ map (OutW ATA_DATA) (words_of_bytes data) @ [OutB ATA_COMMAND 0xE7]\<rparr>)"
  using assms
  by (simp add: Write28_def ata_select_spec ata_wait_spec [OF assms(1,2)] ata_write_words_spec
      WritePort_def del: ata_write_words.simps)

text \<open>C35: a sector written with \<open>Write28\<close> goes out as 256 words after the seven register writes, the
  polled status reads and before the cache flush; a later \<open>Read28\<close> of that sector that the drive
  answers with these words returns the 512 bytes, in order, after the same register writes with
  the read command. Both wait exactly while the status says busy without a data request.\<close>

theorem ata_sector_roundtrip:
  assumes "length data = 512"
    and "\<forall>b \<in> set bs. ata_busy (ucast b)" and "\<not> ata_busy (ucast r)" and "answers io = bs @ r # rest"
    and "\<forall>b \<in> set bs'. ata_busy (ucast b)" and "\<not> ata_busy (ucast r')"
  shows "\<exists>ws. length ws = 256
    \<and> Write28 sector data io = Some (io\<lparr>answers := rest,
        events := events io @ select_events sector 0x30
          @ map (InB ATA_COMMAND) (map ucast (bs @ [r])) @ map (OutW ATA_DATA) ws
          @ [OutB ATA_COMMAND 0xE7]\<rparr>)
    \<and> (\<forall>io'. answers io' = bs' @ r' # ws @ rest' \<longrightarrow>
        Read28 sector io' = Some (data, io'\<lparr>answers := rest',
          events := events io' @ select_events sector 0x20
            @ map (InB ATA_COMMAND) (map ucast (bs' @ [r'])) @ map (InW ATA_DATA) ws\<rparr>))"
proof (intro exI [of _ "words_of_bytes data"] conjI allI impI)
  show len: "length (words_of_bytes data) = 256" using assms(1) by simp
  have "bytes_of_words (words_of_bytes data) = data"
    using assms(1) by (intro bytes_of_words_of_bytes) simp
  then show "Read28 sector io' = Some (data, io'\<lparr>answers := rest',
          events := events io' @ select_events sector 0x20
            @ map (InB ATA_COMMAND) (map ucast (bs' @ [r'])) @ map (InW ATA_DATA) (words_of_bytes data)\<rparr>)"
    if "answers io' = bs' @ r' # words_of_bytes data @ rest'" for io'
    using Read28_spec [OF assms(5,6) that len] by simp
qed (rule Write28_spec [OF assms(2,3,4,1)])

theorem ata_sector_roundtrip_witness:
  "\<exists>ws. length ws = 256 \<and> Write28 7 (replicate 512 0xAB) \<lparr>answers = [0x80, 0x58], events = []\<rparr> \<noteq> None
    \<and> (\<exists>io. Read28 7 \<lparr>answers = 0x80 # 0x58 # ws, events = []\<rparr> = Some (replicate 512 0xAB, io))"
proof -
  have "\<forall>b \<in> set [0x80 :: u16]. ata_busy (ucast b)" "\<not> ata_busy (ucast (0x58 :: u16))"
    by (simp_all add: ata_busy_def)
  from ata_sector_roundtrip [of "replicate 512 0xAB", OF _ this _ this,
      of "\<lparr>answers = [0x80, 0x58], events = []\<rparr>" "[]" 7 "[]"]
  show ?thesis by auto
qed

text \<open>The four register values that address a sector carry the low 28 bits of its number: the
  low nibble of the drive byte and the three address bytes give it back when it fits, and the
  drive byte selects the master drive in LBA mode.\<close>

theorem ata_lba_address:
  "let head = (0xE0 OR ucast (drop_bit 24 sector AND 0x0F) :: u8)
   in select_events sector command =
        [OutB ATA_DRIVE_HEAD head, OutB ATA_ERROR 0, OutB ATA_SECTOR_CNT 1,
         OutB ATA_LBA_LO (byte_at 0 sector), OutB ATA_LBA_MID (byte_at 1 sector),
         OutB ATA_LBA_HI (byte_at 2 sector), OutB ATA_COMMAND command]
      \<and> le32 (byte_at 0 sector) (byte_at 1 sector) (byte_at 2 sector) (head AND 0x0F) = take_bit 28 sector
      \<and> head AND 0xF0 = 0xE0"
proof -
  let ?head = "0xE0 OR ucast (drop_bit 24 sector AND 0x0F) :: u8"
  have m: "(x :: u8) AND 0xF = take_bit 4 x" "(y :: u32) AND 0xF = take_bit 4 y" for x y
    by (simp_all add: take_bit_eq_mask mask_eq_exp_minus_1)
  have e0: "bit (0xE0 :: u8) n \<longleftrightarrow> 5 \<le> n \<and> n < 8" for n
  proof -
    have "(0xE0 :: u8) = push_bit 5 (mask 3)" by (simp add: mask_eq_exp_minus_1)
    then show ?thesis by (simp only: bit_simps) auto
  qed
  have f0: "bit (0xF0 :: u8) n \<longleftrightarrow> 4 \<le> n \<and> n < 8" for n
  proof -
    have "(0xF0 :: u8) = push_bit 4 (mask 4)" by (simp add: mask_eq_exp_minus_1)
    then show ?thesis by (simp only: bit_simps) auto
  qed
  have "le32 (byte_at 0 sector) (byte_at 1 sector) (byte_at 2 sector) (?head AND 0x0F) = take_bit 28 sector"
    unfolding m le32_def
    apply (rule bit_word_eqI)
    subgoal for n
      by (cases n rule: u32_bit_range) (auto simp: bit_simps bit_byte_at e0 less_diff_conv2)
    done
  moreover have "?head AND 0xF0 = 0xE0"
    unfolding m by (rule bit_word_eqI) (simp only: bit_simps e0 f0, auto)
  ultimately show ?thesis by (simp add: Let_def select_events_def)
qed

text \<open>The polling loop ends at the first status that is not busy, and never ends when the drive
  reports busy for ever: over any finite sequence of answers it is still waiting exactly when all
  of them are busy.\<close>

theorem ata_wait_blocks_iff:
  "ata_wait io = None \<longleftrightarrow> (\<forall>a \<in> set (answers io). ata_busy (ucast a))"
proof (induction "answers io" arbitrary: io)
  case Nil
  then show ?case by (simp add: ata_wait.simps [of io] ReadPort_def)
next
  case (Cons a as)
  have "ata_wait (io\<lparr>answers := as, events := events io @ [InB ATA_COMMAND (ucast a)]\<rparr>) = None
      \<longleftrightarrow> (\<forall>a \<in> set as. ata_busy (ucast a))"
    using Cons.hyps(1) [of "io\<lparr>answers := as, events := events io @ [InB ATA_COMMAND (ucast a)]\<rparr>"] by simp
  then show ?case
    using Cons.hyps(2) [symmetric] by (auto simp: ata_wait.simps [of io] ReadPort_def)
qed

section \<open>The real-time clock\<close>

definition RTC_Read :: "u8 \<Rightarrow> io \<Rightarrow> (u8 \<times> io) option" where
  "RTC_Read reg io = do {
     (val, io1) \<leftarrow> ReadPort 0x71 (WritePort 0x70 reg io);
     Some ((val AND 0x0F) + (val div 16) * 10, io1)
   }"

definition RTC_GetSecond :: "io \<Rightarrow> (u8 \<times> io) option" where "RTC_GetSecond = RTC_Read 0x00"
definition RTC_GetMinute :: "io \<Rightarrow> (u8 \<times> io) option" where "RTC_GetMinute = RTC_Read 0x02"
definition RTC_GetHour :: "io \<Rightarrow> (u8 \<times> io) option" where "RTC_GetHour = RTC_Read 0x04"

text \<open>The chip's answer for the number \<open>n\<close> in binary-coded decimal.\<close>

definition bcd :: "nat \<Rightarrow> u16" where
  "bcd n = of_nat (n div 10 * 16 + n mod 10)"

text \<open>Reading a clock register that holds a number below 100 in binary-coded decimal selects the
  register and returns that number.\<close>

theorem RTC_Read_bcd:
  assumes "n < 100" and "answers io = bcd n # rest"
  shows "RTC_Read reg io = Some (of_nat n,
    io\<lparr>answers := rest, events := events io @ [OutB 0x70 reg, InB 0x71 (ucast (bcd n))]\<rparr>)"
proof -
  define b :: u8 where "b = ucast (bcd n)"
  have d: "n div 10 < 10" "n mod 10 < 10" using assms(1) by auto
  have "unat (bcd n) = n div 10 * 16 + n mod 10"
    unfolding bcd_def using d by (subst unat_of_nat) simp
  then have b: "unat b = n div 10 * 16 + n mod 10"
    using d by (simp add: b_def unsigned_ucast_eq take_bit_eq_mod)
  have "b AND 0x0F = take_bit 4 b" by (simp add: take_bit_eq_mask mask_eq_exp_minus_1)
  then have "unat (b AND 0x0F) = n mod 10"
    using d by (simp add: take_bit_eq_mod unat_mod b)
  moreover have "unat (b div 16) = n div 10" using d by (simp add: unat_div b)
  ultimately have "unat ((b AND 0x0F) + (b div 16) * 10) = n"
    using d by (simp add: unat_word_ariths)
  then have "(b AND 0x0F) + (b div 16) * 10 = of_nat n"
    using assms(1) by (simp only: word_unat_eq_iff unat_of_nat) simp
  then show ?thesis
    using assms(2) by (simp add: RTC_Read_def ReadPort_def WritePort_def b_def)
qed

theorem RTC_Read_bcd_witness:
  "RTC_GetHour \<lparr>answers = [0x23], events = []\<rparr>
   = Some (23, \<lparr>answers = [], events = [OutB 0x70 4, InB 0x71 0x23]\<rparr>)"
  using RTC_Read_bcd [of 23 "\<lparr>answers = [0x23], events = []\<rparr>" "[]" 4]
  by (simp add: RTC_GetHour_def bcd_def)

section \<open>The interrupt controllers\<close>

definition RemapPIC :: "io \<Rightarrow> io" where
  "RemapPIC io =
     (let io = WritePort 0x20 0x11 io; io = WritePort 0xA0 0x11 io;
          io = WritePort 0x21 0x20 io; io = WritePort 0xA1 0x28 io;
          io = WritePort 0x21 0x04 io; io = WritePort 0xA1 0x02 io;
          io = WritePort 0x21 0x01 io; io = WritePort 0xA1 0x01 io;
          io = WritePort 0x21 0xF8 io
      in WritePort 0xA1 0xEF io)"

text \<open>End of interrupt, the last step of \<open>HandleInterrupt\<close>.\<close>

definition acknowledge :: "u8 \<Rightarrow> io \<Rightarrow> io" where
  "acknowledge interrupt io =
     (if 0x20 \<le> interrupt \<and> interrupt < 0x30
      then let io1 = WritePort 0x20 0x20 io
           in if 0x28 \<le> interrupt then WritePort 0xA0 0x20 io1 else io1
      else io)"

end
