(* ===== verification/Disk.thy ===== *)
theory Disk
  imports CString PortIO
begin

text \<open>
  The drive behind the ATA ports, as the file systems see it: 512-byte sectors addressed by the 28
  bits the driver transmits. \<open>disk_read\<close> and \<open>disk_write\<close> are \<open>Read28\<close> and \<open>Write28\<close> on a
  drive that answers; the theory links them to the driver of \<open>PortIO\<close>, and gives the byte
  encodings of characters and words and the interface of a table searched by key.
\<close>

section \<open>Bytes\<close>

definition byte_of_char :: "char \<Rightarrow> u8" where
  "byte_of_char c = of_nat (of_char c)"

definition char_of_byte :: "u8 \<Rightarrow> char" where
  "char_of_byte b = char_of (unat b)"

lemma char_of_byte_of_char [simp]: "char_of_byte (byte_of_char c) = c"
proof -
  have "unat (of_nat (of_char c) :: u8) = of_char c"
    using nat_of_char_less_256 [of c] by (simp add: unat_of_nat)
  then show ?thesis by (simp add: char_of_byte_def byte_of_char_def)
qed

lemma byte_of_char_of_byte [simp]: "byte_of_char (char_of_byte b) = b"
  using unat_u8_less [of b] by (simp add: char_of_byte_def byte_of_char_def)

lemma byte_of_char_NUL [simp]: "byte_of_char NUL = 0"
  by (simp add: byte_of_char_def)

lemma char_of_byte_0 [simp]: "char_of_byte 0 = NUL"
  using char_of_byte_of_char [of NUL] by simp

lemma char_of_byte_inverse [simp]: "map (char_of_byte \<circ> byte_of_char) cs = cs"
  by (induction cs) auto

definition word_bytes :: "u32 \<Rightarrow> u8 list" where
  "word_bytes w = [byte_at 0 w, byte_at 1 w, byte_at 2 w, byte_at 3 w]"

text \<open>A little-endian word at an offset of a buffer; reading past the buffer is a fault.\<close>

definition word_at :: "nat \<Rightarrow> u8 list \<Rightarrow> u32 option" where
  "word_at i m = (if i + 4 \<le> length m
     then Some (le32 (m ! i) (m ! (i + 1)) (m ! (i + 2)) (m ! (i + 3))) else None)"

definition half_at :: "nat \<Rightarrow> u8 list \<Rightarrow> u16 option" where
  "half_at i m = (if i + 2 \<le> length m then Some (word_of_bytes (m ! i) (m ! (i + 1))) else None)"

lemma word_bytes_length [simp]: "length (word_bytes w) = 4"
  by (simp add: word_bytes_def)

lemma word_at_word_bytes: "length a = i \<Longrightarrow> word_at i (a @ word_bytes w @ b) = Some w"
  using le32_byte_at [of w] by (simp add: word_at_def word_bytes_def nth_append)

section \<open>The drive\<close>

type_synonym drive = "u32 \<Rightarrow> u8 list"

definition drive_ok :: "drive \<Rightarrow> bool" where
  "drive_ok d \<longleftrightarrow> (\<forall>s. length (d s) = 512)"

definition disk_read :: "u32 \<Rightarrow> drive \<Rightarrow> u8 list" where
  "disk_read sector d = d (take_bit 28 sector)"

definition disk_write :: "u32 \<Rightarrow> u8 list \<Rightarrow> drive \<Rightarrow> drive" where
  "disk_write sector data d = d(take_bit 28 sector := take 512 data)"

lemma disk_read_length [simp]: "drive_ok d \<Longrightarrow> length (disk_read s d) = 512"
  by (simp add: drive_ok_def disk_read_def)

lemma disk_write_ok: "drive_ok d \<Longrightarrow> 512 \<le> length data \<Longrightarrow> drive_ok (disk_write s data d)"
  by (simp add: drive_ok_def disk_write_def)

lemma disk_read_write:
  "disk_read t (disk_write s data d) =
     (if take_bit 28 t = take_bit 28 s then take 512 data else disk_read t d)"
  by (simp add: disk_read_def disk_write_def)

text \<open>What the drive answers to a read: it is ready, then the words of the sector. With these
  answers the driver's \<open>Read28\<close> is \<open>disk_read\<close>; and the words \<open>Write28\<close> sends are those of the
  sector \<open>disk_write\<close> stores.\<close>

definition drive_answers :: "u32 \<Rightarrow> drive \<Rightarrow> u16 list" where
  "drive_answers sector d = 0x58 # words_of_bytes (disk_read sector d)"

lemma Read28_disk_read:
  assumes "drive_ok d" and "answers io = drive_answers sector d @ rest"
  shows "\<exists>io'. Read28 sector io = Some (disk_read sector d, io') \<and> answers io' = rest"
proof -
  have "even (length (disk_read sector d))" using assms(1) by simp
  then have "bytes_of_words (words_of_bytes (disk_read sector d)) = disk_read sector d"
    by (rule bytes_of_words_of_bytes)
  then show ?thesis
    using Read28_spec [of "[]" "0x58" io "words_of_bytes (disk_read sector d)" rest sector] assms
    by (simp add: drive_answers_def ata_busy_def)
qed

lemma Write28_disk_write:
  assumes "length data = 512" and "answers io = 0x50 # rest"
  shows "\<exists>io'. Write28 sector data io = Some io' \<and> answers io' = rest
    \<and> filter (\<lambda>e. \<exists>w. e = OutW ATA_DATA w) (drop (length (events io)) (events io'))
      = map (OutW ATA_DATA) (words_of_bytes (disk_read sector (disk_write sector data d)))"
  using Write28_spec [of "[]" "0x50" io rest data sector] assms
  by (simp add: ata_busy_def disk_read_write select_events_def filter_map o_def)

section \<open>Tables searched by key\<close>

text \<open>
  The contract the command registry, the environment and the file systems share: a state that
  represents a finite map, an insertion that never fails where the arguments fit and updates the
  map at one key, and a lookup that shows (\<open>view\<close>) what the map holds at a proper key.
\<close>

locale keyed_table =
  fixes inv :: "'s \<Rightarrow> bool"
    and abs :: "'s \<Rightarrow> 'k \<Rightarrow> 'v option"
    and fits :: "'s \<Rightarrow> 'k \<Rightarrow> 'v \<Rightarrow> bool"
    and key :: "'k \<Rightarrow> bool"
    and view :: "'v option \<Rightarrow> 'r"
    and put :: "'k \<Rightarrow> 'v \<Rightarrow> 's \<Rightarrow> 's option"
    and get :: "'k \<Rightarrow> 's \<Rightarrow> 'r"
  assumes put_spec: "inv s \<Longrightarrow> fits s k v \<Longrightarrow>
      \<exists>s'. put k v s = Some s' \<and> inv s' \<and> abs s' = (abs s)(k \<mapsto> v)"
    and get_spec: "inv s \<Longrightarrow> key k \<Longrightarrow> get k s = view (abs s k)"
begin

lemma get_after_put:
  "inv s \<Longrightarrow> fits s k v \<Longrightarrow> put k v s = Some s' \<Longrightarrow> key k' \<Longrightarrow>
   get k' s' = (if k' = k then view (Some v) else get k' s)"
  using put_spec [of s k v] by (auto simp: get_spec)

lemma put_inv: "inv s \<Longrightarrow> fits s k v \<Longrightarrow> put k v s = Some s' \<Longrightarrow> inv s'"
  using put_spec [of s k v] by auto

lemma put_safe: "inv s \<Longrightarrow> fits s k v \<Longrightarrow> \<exists>s'. put k v s = Some s' \<and> inv s'"
  using put_spec [of s k v] by auto

end

end
