(* ===== verification/Sfs.thy ===== *)
theory Sfs
  imports Disk
begin

text \<open>
  The simple file system of src/core/fs/sfs.cpp: a table of sixteen entries cached in memory and
  stored from sector 1 on, one data sector per file. The theory models every operation, proves
  the table invariant and that a write, a read and a deletion implement a finite map from names
  to 512-byte contents, and shows what survives a remount: the table is 704 bytes long and only
  its first sector is ever stored.
\<close>

section \<open>State and encodings\<close>

record sfs_entry =
  fe_name :: "char list"
  fe_sector :: u32
  fe_size :: u32
  fe_flags :: u32

record sfs =
  sfs_table :: "sfs_entry list"
  sfs_disk :: drive
  sfs_log :: "string list"

definition entry_bytes :: "sfs_entry \<Rightarrow> u8 list" where
  "entry_bytes e = map byte_of_char (fe_name e) @ word_bytes (fe_sector e) @ word_bytes (fe_size e)
     @ word_bytes (fe_flags e)"

definition table_bytes :: "sfs_entry list \<Rightarrow> u8 list" where
  "table_bytes t = concat (map entry_bytes t)"

text \<open>\<open>(FileEntry*)buffer\<close>: the entries laid over a region of memory.\<close>

definition entry_at :: "u8 list \<Rightarrow> sfs_entry option" where
  "entry_at m = do {
     sector \<leftarrow> word_at 32 m; size \<leftarrow> word_at 36 m; flags \<leftarrow> word_at 40 m;
     Some \<lparr>fe_name = map char_of_byte (take 32 m), fe_sector = sector, fe_size = size, fe_flags = flags\<rparr>
   }"

fun entries_at :: "nat \<Rightarrow> u8 list \<Rightarrow> sfs_entry list option" where
  "entries_at 0 m = Some []"
| "entries_at (Suc n) m = do {
     e \<leftarrow> entry_at m; es \<leftarrow> entries_at n (drop 44 m); Some (e # es)
   }"

definition sfs_print :: "string \<Rightarrow> sfs \<Rightarrow> sfs" where
  "sfs_print t s = s\<lparr>sfs_log := sfs_log s @ [t]\<rparr>"

definition sfs_save :: "sfs \<Rightarrow> sfs" where
  "sfs_save s = s\<lparr>sfs_disk := disk_write 1 (table_bytes (sfs_table s)) (sfs_disk s)\<rparr>"

section \<open>Operations\<close>

fun format_entries :: "nat \<Rightarrow> sfs_entry list \<Rightarrow> sfs_entry list" where
  "format_entries i [] = []"
| "format_entries i (e # es) =
     e\<lparr>fe_flags := 0, fe_sector := 10 + of_nat i, fe_name := replicate 32 NUL\<rparr> # format_entries (i + 1) es"

definition sfs_Format :: "sfs \<Rightarrow> sfs" where
  "sfs_Format s =
     (let s1 = sfs_print (''[FS] Formatting Disk...'' @ [NL]) s;
          s2 = sfs_save (s1\<lparr>sfs_table := format_entries 0 (sfs_table s1)\<rparr>)
      in sfs_print (''[FS] Disk Formatted.'' @ [NL]) s2)"

text \<open>\<open>Init\<close> lays the sixteen entries over its 512-byte buffer; \<open>beyond\<close> is whatever memory
  follows the buffer on the stack. The language grants none (\<open>beyond = []\<close>).\<close>

definition sfs_Init :: "u8 list \<Rightarrow> sfs \<Rightarrow> sfs option" where
  "sfs_Init beyond s = do {
     let m = disk_read 1 (sfs_disk s) @ beyond;
     e0 \<leftarrow> entry_at m;
     if 1 < fe_flags e0 \<or> 100000 < fe_sector e0 then Some (sfs_Format s)
     else do {
       es \<leftarrow> entries_at 16 m;
       Some (sfs_print (''[FS] File System Mounted.'' @ [NL]) (s\<lparr>sfs_table := es\<rparr>))
     }
   }"

fun sfs_list :: "sfs_entry list \<Rightarrow> sfs \<Rightarrow> sfs option" where
  "sfs_list [] s = Some s"
| "sfs_list (e # es) s =
     (if fe_flags e = 1
      then (if terminated (fe_name e)
            then sfs_list es (sfs_print [NL] (sfs_print (cstr (fe_name e)) (sfs_print '' - '' s)))
            else None)
      else sfs_list es s)"

definition sfs_List :: "sfs \<Rightarrow> sfs option" where
  "sfs_List s = sfs_list (sfs_table s) (sfs_print (''Files:'' @ [NL]) s)"

text \<open>The scan the three operations share.\<close>

fun sfs_find :: "sfs_entry list \<Rightarrow> char list \<Rightarrow> nat option option" where
  "sfs_find [] k = Some None"
| "sfs_find (e # es) k = do {
     b \<leftarrow> (if fe_flags e = 1 then sfs_strcmp (fe_name e) k else Some False);
     if b then Some (Some 0) else map_option (map_option Suc) (sfs_find es k)
   }"

text \<open>\<open>for (i = 0; content[i] != 0 && i < 512; i++) buffer[i] = content[i]\<close>: the content is read
  once more at index 512 before the bound is tested.\<close>

fun sfs_fill :: "char list \<Rightarrow> u8 list \<Rightarrow> u8 list option" where
  "sfs_fill (c # cs) (b # bs) =
     (if c \<noteq> NUL then map_option ((#) (byte_of_char c)) (sfs_fill cs bs) else Some (b # bs))"
| "sfs_fill (c # cs) [] = Some []"
| "sfs_fill [] bs = None"

definition sfs_slot :: "sfs_entry list \<Rightarrow> char list \<Rightarrow> nat option option" where
  "sfs_slot t k = do {
     r \<leftarrow> sfs_find t k;
     Some (case r of Some i \<Rightarrow> Some i | None \<Rightarrow> find_index (\<lambda>e. fe_flags e = 0) t)
   }"

definition sfs_WriteFile :: "char list \<Rightarrow> char list \<Rightarrow> sfs \<Rightarrow> sfs option" where
  "sfs_WriteFile name content s = do {
     slot \<leftarrow> sfs_slot (sfs_table s) name;
     case slot of
       None \<Rightarrow> Some (sfs_print (''Disk Full!'' @ [NL]) s)
     | Some i \<Rightarrow> do {
         let e = sfs_table s ! i;
         name' \<leftarrow> sfs_strcpy (fe_name e) name;
         let s1 = s\<lparr>sfs_table := (sfs_table s)[i := e\<lparr>fe_name := name', fe_flags := 1\<rparr>]\<rparr>;
         buffer \<leftarrow> sfs_fill content (replicate 512 0);
         let s2 = s1\<lparr>sfs_disk := disk_write (fe_sector e) buffer (sfs_disk s1)\<rparr>;
         Some (sfs_print (''Saved.'' @ [NL]) (sfs_save s2))
       }
   }"

text \<open>\<open>out_buf\<close> is the caller's memory; all 512 bytes of the sector are stored to it.\<close>

definition sfs_ReadFile :: "char list \<Rightarrow> char list \<Rightarrow> sfs \<Rightarrow> (char list \<times> sfs) option" where
  "sfs_ReadFile name out_buf s = do {
     r \<leftarrow> sfs_find (sfs_table s) name;
     case r of
       Some i \<Rightarrow>
         (let buffer = disk_read (fe_sector (sfs_table s ! i)) (sfs_disk s)
          in if length out_buf < 512 then None
             else Some (map char_of_byte (take 512 buffer) @ drop 512 out_buf, s))
     | None \<Rightarrow>
         (case out_buf of
            [] \<Rightarrow> None
          | c # cs \<Rightarrow> Some (NUL # cs, sfs_print (''File not found.'' @ [NL]) s))
   }"

definition sfs_DeleteFile :: "char list \<Rightarrow> sfs \<Rightarrow> sfs option" where
  "sfs_DeleteFile name s = do {
     r \<leftarrow> sfs_find (sfs_table s) name;
     Some (case r of
       Some i \<Rightarrow> sfs_print (''Deleted.'' @ [NL]) (sfs_save (s\<lparr>sfs_table := (sfs_table s)[i := (sfs_table s ! i)\<lparr>fe_flags := 0\<rparr>]\<rparr>))
     | None \<Rightarrow> sfs_print (''File not found.'' @ [NL]) s)
   }"

section \<open>The invariant and the map it represents\<close>

definition used :: "sfs_entry \<Rightarrow> bool" where
  "used e \<longleftrightarrow> fe_flags e = 1"

definition holds_name :: "string \<Rightarrow> sfs_entry \<Rightarrow> bool" where
  "holds_name k e \<longleftrightarrow> used e \<and> cstr (fe_name e) = k"

text \<open>Entry \<open>i\<close> owns data sector \<open>10 + i\<close>, and no two used entries hold the same name.\<close>

definition sfs_ok :: "sfs \<Rightarrow> bool" where
  "sfs_ok s \<longleftrightarrow> length (sfs_table s) = 16 \<and> drive_ok (sfs_disk s)
     \<and> (\<forall>i < 16. length (fe_name (sfs_table s ! i)) = 32 \<and> terminated (fe_name (sfs_table s ! i))
          \<and> fe_sector (sfs_table s ! i) = 10 + of_nat i
          \<and> (fe_flags (sfs_table s ! i) = 0 \<or> fe_flags (sfs_table s ! i) = 1))
     \<and> (\<forall>i < 16. \<forall>j < 16. used (sfs_table s ! i) \<and> used (sfs_table s ! j)
          \<and> cstr (fe_name (sfs_table s ! i)) = cstr (fe_name (sfs_table s ! j)) \<longrightarrow> i = j)"

definition sfs_content :: "u8 list \<Rightarrow> string" where
  "sfs_content data = map char_of_byte data"

definition sfs_abs :: "sfs \<Rightarrow> string \<Rightarrow> string option" where
  "sfs_abs s k = map_option (\<lambda>i. sfs_content (disk_read (fe_sector (sfs_table s ! i)) (sfs_disk s)))
     (find_index (holds_name k) (sfs_table s))"

text \<open>What a write stores: the first 512 characters, padded with zeros.\<close>

definition padded :: "string \<Rightarrow> string" where
  "padded c = take 512 c @ replicate (512 - length c) NUL"

subsection \<open>What the loops compute\<close>

lemma sfs_find_spec:
  "(\<forall>e \<in> set t. terminated (fe_name e)) \<Longrightarrow> terminated k \<Longrightarrow>
   sfs_find t k = Some (find_index (holds_name (cstr k)) t)"
  by (induction t) (auto simp: sfseq.eq_spec holds_name_def used_def)

lemma sfs_fill_spec:
  "terminated content \<Longrightarrow> sfs_fill content buf =
     Some (map byte_of_char (take (length buf) (cstr content)) @ drop (length (cstr content)) buf)"
  by (induction content buf rule: sfs_fill.induct) auto

lemma padded_length [simp]: "length (padded c) = 512"
  by (simp add: padded_def)

lemma sfs_fill_padded:
  assumes "terminated content"
  shows "sfs_fill content (replicate 512 0) = Some (map byte_of_char (padded (cstr content)))"
  using sfs_fill_spec [OF assms, of "replicate 512 0"] by (simp add: padded_def)

lemma entry_bytes_length: "length (fe_name e) = 32 \<Longrightarrow> length (entry_bytes e) = 44"
  by (simp add: entry_bytes_def)

lemma table_bytes_length:
  "(\<forall>e \<in> set t. length (fe_name e) = 32) \<Longrightarrow> length (table_bytes t) = 44 * length t"
  by (induction t) (simp_all add: table_bytes_def entry_bytes_length)

lemma table_sectors_distinct:
  assumes "i < 16" and "j < 16"
  shows "take_bit 28 (10 + of_nat i :: u32) = take_bit 28 (10 + of_nat j) \<longleftrightarrow> i = j"
    and "take_bit 28 (10 + of_nat i :: u32) \<noteq> take_bit 28 1"
proof -
  have u: "unat (take_bit 28 (10 + of_nat n :: u32)) = 10 + n" if "n < 16" for n
    using that by (simp add: unsigned_take_bit_eq unat_word_ariths unat_of_nat take_bit_eq_mod)
  show "take_bit 28 (10 + of_nat i :: u32) = take_bit 28 (10 + of_nat j) \<longleftrightarrow> i = j"
    using u [OF assms(1)] u [OF assms(2)] by (metis add_left_cancel)
  show "take_bit 28 (10 + of_nat i :: u32) \<noteq> take_bit 28 1"
  proof
    assume "take_bit 28 (10 + of_nat i :: u32) = take_bit 28 1"
    then have "10 + i = unat (take_bit 28 1 :: u32)" using u [OF assms(1)] by metis
    then show False by (simp add: unsigned_take_bit_eq)
  qed
qed

subsection \<open>The invariant, one field at a time\<close>

lemma sfs_okD:
  assumes "sfs_ok s"
  shows "length (sfs_table s) = 16" "drive_ok (sfs_disk s)"
    and "i < 16 \<Longrightarrow> length (fe_name (sfs_table s ! i)) = 32"
    and "i < 16 \<Longrightarrow> terminated (fe_name (sfs_table s ! i))"
    and "i < 16 \<Longrightarrow> fe_sector (sfs_table s ! i) = 10 + of_nat i"
    and "i < 16 \<Longrightarrow> fe_flags (sfs_table s ! i) \<noteq> 0 \<Longrightarrow> fe_flags (sfs_table s ! i) = 1"
    and "i < 16 \<Longrightarrow> j < 16 \<Longrightarrow> holds_name k (sfs_table s ! i) \<Longrightarrow> holds_name k (sfs_table s ! j) \<Longrightarrow> i = j"
  using assms by (auto simp: sfs_ok_def holds_name_def)

lemma sfs_find_ok:
  "sfs_ok s \<Longrightarrow> terminated k \<Longrightarrow>
   sfs_find (sfs_table s) k = Some (find_index (holds_name (cstr k)) (sfs_table s))"
  by (intro sfs_find_spec) (auto simp: in_set_conv_nth sfs_okD)

lemma sfs_abs_None: "sfs_ok s \<Longrightarrow> sfs_abs s k = None \<longleftrightarrow> (\<forall>i < 16. \<not> holds_name k (sfs_table s ! i))"
  by (simp add: sfs_abs_def all_set_conv_all_nth sfs_okD(1))

lemma sfs_abs_holder:
  assumes "sfs_ok s" and "i < 16" and "holds_name k (sfs_table s ! i)"
  shows "find_index (holds_name k) (sfs_table s) = Some i"
    and "sfs_abs s k = Some (sfs_content (disk_read (10 + of_nat i) (sfs_disk s)))"
proof -
  show f: "find_index (holds_name k) (sfs_table s) = Some i"
  proof (rule find_index_SomeI)
    show "i < length (sfs_table s)" using assms by (simp add: sfs_okD(1))
    show "\<not> holds_name k (sfs_table s ! j)" if "j < i" for j
      using sfs_okD(7) [OF assms(1), of j i k] assms(2,3) that by auto
  qed (rule assms(3))
  then show "sfs_abs s k = Some (sfs_content (disk_read (10 + of_nat i) (sfs_disk s)))"
    using assms(1,2) by (simp add: sfs_abs_def sfs_okD)
qed

lemma sfs_abs_SomeE:
  assumes "sfs_ok s" and "sfs_abs s k = Some c"
  obtains i where "i < 16" "holds_name k (sfs_table s ! i)"
    "c = sfs_content (disk_read (10 + of_nat i) (sfs_disk s))"
proof -
  have "\<not> (\<forall>i < 16. \<not> holds_name k (sfs_table s ! i))"
    using sfs_abs_None [OF assms(1), of k] assms(2) by auto
  then obtain i where i: "i < 16" "holds_name k (sfs_table s ! i)" by auto
  from sfs_abs_holder(2) [OF assms(1) i] assms(2) that i show ?thesis by auto
qed

lemma sfs_table_bytes_length: "sfs_ok s \<Longrightarrow> length (table_bytes (sfs_table s)) = 704"
  using table_bytes_length [of "sfs_table s"] by (simp add: all_set_conv_all_nth sfs_okD)

text \<open>Saving the table touches sector 1 only, which no entry owns.\<close>

lemma sfs_save_ok: "sfs_ok s \<Longrightarrow> sfs_ok (sfs_save s)"
  using sfs_table_bytes_length [of s] disk_write_ok [of "sfs_disk s" "table_bytes (sfs_table s)" 1]
  by (simp add: sfs_ok_def sfs_save_def)

lemma sfs_save_read: "i < 16 \<Longrightarrow>
  disk_read (10 + of_nat i) (sfs_disk (sfs_save s)) = disk_read (10 + of_nat i) (sfs_disk s)"
  using table_sectors_distinct(2) [of i] by (simp add: sfs_save_def disk_read_write)

lemma sfs_save_abs:
  assumes "sfs_ok s"
  shows "sfs_abs (sfs_save s) = sfs_abs s"
proof
  fix k
  show "sfs_abs (sfs_save s) k = sfs_abs s k"
  proof (cases "\<exists>i < 16. holds_name k (sfs_table s ! i)")
    case True
    then obtain i where i: "i < 16" "holds_name k (sfs_table s ! i)" by auto
    then have "holds_name k (sfs_table (sfs_save s) ! i)" by (simp add: sfs_save_def)
    from sfs_abs_holder(2) [OF sfs_save_ok [OF assms] i(1) this] sfs_abs_holder(2) [OF assms i]
    show ?thesis using sfs_save_read [OF i(1)] by simp
  next
    case False
    then have "sfs_abs s k = None" using sfs_abs_None [OF assms] by auto
    moreover have "sfs_abs (sfs_save s) k = None"
      using False sfs_abs_None [OF sfs_save_ok [OF assms]] by (auto simp: sfs_save_def)
    ultimately show ?thesis by simp
  qed
qed

lemma sfs_print_ok [simp]: "sfs_ok (sfs_print t s) = sfs_ok s" "sfs_abs (sfs_print t s) = sfs_abs s"
  by (simp_all add: sfs_ok_def sfs_print_def sfs_abs_def fun_eq_iff)

subsection \<open>One entry changed\<close>

definition sfs_set_entry :: "nat \<Rightarrow> sfs_entry \<Rightarrow> u8 list \<Rightarrow> sfs \<Rightarrow> sfs" where
  "sfs_set_entry i e data s = s\<lparr>sfs_table := (sfs_table s)[i := e],
     sfs_disk := disk_write (10 + of_nat i) data (sfs_disk s)\<rparr>"

lemma sfs_put_ok:
  assumes ok: "sfs_ok s" and i: "i < 16"
    and e: "length (fe_name e) = 32" "terminated (fe_name e)" "fe_sector e = 10 + of_nat i" "fe_flags e = 1"
    and others: "\<And>j. j < 16 \<Longrightarrow> j \<noteq> i \<Longrightarrow> \<not> holds_name (cstr (fe_name e)) (sfs_table s ! j)"
    and data: "length data = 512"
  shows "sfs_ok (sfs_set_entry i e data s)"
proof -
  have "drive_ok (disk_write (10 + of_nat i) data (sfs_disk s))"
    using disk_write_ok [OF sfs_okD(2) [OF ok]] data by simp
  moreover have "j = l"
    if "j < 16" "l < 16" "used ((sfs_table s)[i := e] ! j)" "used ((sfs_table s)[i := e] ! l)"
      "cstr (fe_name ((sfs_table s)[i := e] ! j)) = cstr (fe_name ((sfs_table s)[i := e] ! l))" for j l
    using that others [of j] others [of l] sfs_okD(7) [OF ok that(1,2)] i
    by (auto simp: nth_list_update holds_name_def sfs_okD(1) [OF ok] split: if_splits)
  ultimately show ?thesis
    using ok i e by (auto simp: sfs_ok_def sfs_set_entry_def nth_list_update)
qed

lemma sfs_put_abs:
  assumes ok: "sfs_ok s" and i: "i < 16"
    and e: "length (fe_name e) = 32" "terminated (fe_name e)" "fe_sector e = 10 + of_nat i" "fe_flags e = 1"
    and others: "\<And>j. j < 16 \<Longrightarrow> j \<noteq> i \<Longrightarrow> \<not> holds_name (cstr (fe_name e)) (sfs_table s ! j)"
    and old: "used (sfs_table s ! i) \<Longrightarrow> holds_name (cstr (fe_name e)) (sfs_table s ! i)"
    and data: "length data = 512"
  shows "sfs_abs (sfs_set_entry i e data s) = (sfs_abs s)(cstr (fe_name e) \<mapsto> sfs_content data)"
proof
  let ?s = "sfs_set_entry i e data s"
  let ?n = "cstr (fe_name e)"
  have ok': "sfs_ok ?s" by (rule sfs_put_ok [OF ok i e others data])
  have t: "sfs_table ?s ! j = (if j = i then e else sfs_table s ! j)" if "j < 16" for j
    using that i sfs_okD(1) [OF ok] by (simp add: sfs_set_entry_def nth_list_update)
  have d: "disk_read (10 + of_nat j) (sfs_disk ?s) = (if j = i then data else disk_read (10 + of_nat j) (sfs_disk s))"
    if "j < 16" for j
    using that i data table_sectors_distinct(1) [of j i] by (simp add: sfs_set_entry_def disk_read_write)
  fix k
  show "sfs_abs ?s k = ((sfs_abs s)(?n \<mapsto> sfs_content data)) k"
  proof (cases "k = ?n")
    case True
    have "holds_name k (sfs_table ?s ! i)" using True e(4) i by (simp add: t holds_name_def used_def)
    from sfs_abs_holder(2) [OF ok' i this] show ?thesis using True d [OF i] by simp
  next
    case False
    have h: "holds_name k (sfs_table ?s ! j) = holds_name k (sfs_table s ! j)" if "j < 16" for j
      using that False old by (auto simp: t holds_name_def)
    show ?thesis
    proof (cases "sfs_abs s k")
      case None
      then have "sfs_abs ?s k = None" using h by (simp add: sfs_abs_None [OF ok] sfs_abs_None [OF ok'])
      with None False show ?thesis by simp
    next
      case (Some c)
      then obtain j where j: "j < 16" "holds_name k (sfs_table s ! j)"
        "c = sfs_content (disk_read (10 + of_nat j) (sfs_disk s))" by (rule sfs_abs_SomeE [OF ok])
      have "j \<noteq> i" using j False old by (auto simp: holds_name_def)
      with sfs_abs_holder(2) [OF ok' j(1)] h [OF j(1)] j d [OF j(1)] Some False show ?thesis by simp
    qed
  qed
qed

lemma sfs_remove_ok:
  assumes ok: "sfs_ok s" and i: "i < 16"
  shows "sfs_ok (s\<lparr>sfs_table := (sfs_table s)[i := (sfs_table s ! i)\<lparr>fe_flags := 0\<rparr>]\<rparr>)" (is "sfs_ok ?s")
  using ok i unfolding sfs_ok_def by (auto simp: nth_list_update used_def)

lemma sfs_remove_abs:
  assumes ok: "sfs_ok s" and i: "i < 16" and h: "holds_name n (sfs_table s ! i)"
  shows "sfs_abs (s\<lparr>sfs_table := (sfs_table s)[i := (sfs_table s ! i)\<lparr>fe_flags := 0\<rparr>]\<rparr>) = (sfs_abs s)(n := None)"
    (is "sfs_abs ?s = _")
proof
  have ok': "sfs_ok ?s" by (rule sfs_remove_ok [OF ok i])
  have t: "holds_name k (sfs_table ?s ! j) = (j \<noteq> i \<and> holds_name k (sfs_table s ! j))" if "j < 16" for j k
    using that i sfs_okD(1) [OF ok] by (auto simp: nth_list_update holds_name_def used_def)
  fix k
  show "sfs_abs ?s k = ((sfs_abs s)(n := None)) k"
  proof (cases "sfs_abs ?s k")
    case None
    then have none: "\<And>j. j < 16 \<Longrightarrow> j \<noteq> i \<Longrightarrow> \<not> holds_name k (sfs_table s ! j)"
      using t by (auto simp: sfs_abs_None [OF ok'])
    show ?thesis
    proof (cases "k = n")
      case False
      then have "\<not> holds_name k (sfs_table s ! i)" using h by (auto simp: holds_name_def)
      with none have "sfs_abs s k = None" by (auto simp: sfs_abs_None [OF ok])
      with None False show ?thesis by simp
    qed (use None in simp)
  next
    case (Some c)
    then obtain j where j: "j < 16" "holds_name k (sfs_table ?s ! j)"
      "c = sfs_content (disk_read (10 + of_nat j) (sfs_disk ?s))" by (rule sfs_abs_SomeE [OF ok'])
    then have "j \<noteq> i" "holds_name k (sfs_table s ! j)" using t by auto
    moreover from this have "k \<noteq> n" using sfs_okD(7) [OF ok j(1) i _ h] by auto
    ultimately show ?thesis using sfs_abs_holder(2) [OF ok j(1)] Some j(3) by simp
  qed
qed

section \<open>The operations implement a finite map\<close>

text \<open>A slot exists for a name that is stored already or when an entry is free.\<close>

definition sfs_room :: "sfs \<Rightarrow> string \<Rightarrow> bool" where
  "sfs_room s k \<longleftrightarrow> sfs_abs s k \<noteq> None \<or> (\<exists>e \<in> set (sfs_table s). fe_flags e = 0)"

lemma sfs_slot_spec:
  assumes ok: "sfs_ok s" and "terminated name" and room: "sfs_room s (cstr name)"
  obtains i where "sfs_slot (sfs_table s) name = Some (Some i)" "i < 16"
    "\<And>j. j < 16 \<Longrightarrow> j \<noteq> i \<Longrightarrow> \<not> holds_name (cstr name) (sfs_table s ! j)"
    "used (sfs_table s ! i) \<Longrightarrow> holds_name (cstr name) (sfs_table s ! i)"
proof (cases "find_index (holds_name (cstr name)) (sfs_table s)")
  case None
  then have n: "sfs_abs s (cstr name) = None" by (simp add: sfs_abs_def)
  then obtain i where i: "find_index (\<lambda>e. fe_flags e = 0) (sfs_table s) = Some i"
    using room unfolding sfs_room_def by (cases "find_index (\<lambda>e. fe_flags e = 0) (sfs_table s)") auto
  from find_index_SomeD [OF i] have "i < 16" "\<not> used (sfs_table s ! i)"
    by (auto simp: sfs_okD(1) [OF ok] used_def)
  moreover have "sfs_slot (sfs_table s) name = Some (Some i)"
    using i by (simp add: sfs_slot_def sfs_find_ok [OF ok assms(2)] None del: find_index_None)
  ultimately show ?thesis using that n by (auto simp: sfs_abs_None [OF ok])
next
  case (Some i)
  from find_index_SomeD [OF Some] have i: "i < 16" "holds_name (cstr name) (sfs_table s ! i)"
    by (simp_all add: sfs_okD(1) [OF ok])
  moreover have "\<not> holds_name (cstr name) (sfs_table s ! j)" if "j < 16" "j \<noteq> i" for j
    using that sfs_okD(7) [OF ok that(1) i(1) _ i(2)] by auto
  moreover have "sfs_slot (sfs_table s) name = Some (Some i)"
    using Some by (simp add: sfs_slot_def sfs_find_ok [OF ok assms(2)])
  ultimately show ?thesis using that by blast
qed

lemma sfs_WriteFile_spec:
  assumes ok: "sfs_ok s" and name: "terminated name" "length (cstr name) < 32"
    and content: "terminated content" and room: "sfs_room s (cstr name)"
  shows "\<exists>s'. sfs_WriteFile name content s = Some s' \<and> sfs_ok s'
    \<and> sfs_abs s' = (sfs_abs s)(cstr name \<mapsto> padded (cstr content))"
proof -
  obtain i where i: "sfs_slot (sfs_table s) name = Some (Some i)" "i < 16"
    and others: "\<And>j. j < 16 \<Longrightarrow> j \<noteq> i \<Longrightarrow> \<not> holds_name (cstr name) (sfs_table s ! j)"
    and old: "used (sfs_table s ! i) \<Longrightarrow> holds_name (cstr name) (sfs_table s ! i)"
    using sfs_slot_spec [OF ok name(1) room] by blast
  let ?e = "sfs_table s ! i"
  define n where "n = cstr name @ NUL # drop (Suc (length (cstr name))) (fe_name ?e)"
  define e' where "e' = ?e\<lparr>fe_name := n, fe_flags := 1\<rparr>"
  let ?data = "map byte_of_char (padded (cstr content))"
  have cpy: "sfs_strcpy (fe_name ?e) name = Some n"
    using name sfs_okD(3) [OF ok i(2)] by (simp add: sfs_strcpy_eq utils_strcpy_spec n_def)
  have c: "cstr (fe_name e') = cstr name" by (simp add: e'_def n_def)
  have e': "length (fe_name e') = 32" "terminated (fe_name e')" "fe_sector e' = 10 + of_nat i" "fe_flags e' = 1"
    using name sfs_okD(3,5) [OF ok i(2)] by (simp_all add: e'_def n_def)
  have len: "length ?data = 512" by simp
  note put = sfs_put_ok [OF ok i(2) e' _ len] sfs_put_abs [OF ok i(2) e' _ _ len]
  have "sfs_ok (sfs_set_entry i e' ?data s)" using put(1) others c by simp
  moreover have "sfs_abs (sfs_set_entry i e' ?data s) = (sfs_abs s)(cstr name \<mapsto> padded (cstr content))"
    using put(2) others old c by (simp add: sfs_content_def)
  moreover have "sfs_WriteFile name content s =
      Some (sfs_print (''Saved.'' @ [NL]) (sfs_save (sfs_set_entry i e' ?data s)))"
    using i cpy content sfs_okD(5) [OF ok i(2)]
    by (simp add: sfs_WriteFile_def sfs_fill_padded sfs_set_entry_def e'_def Let_def)
  ultimately show ?thesis by (simp add: sfs_save_ok sfs_save_abs)
qed

lemma sfs_ReadFile_spec:
  assumes ok: "sfs_ok s" and name: "terminated name" and out: "512 \<le> length out"
  shows "sfs_ReadFile name out s = Some (case sfs_abs s (cstr name) of
      Some c \<Rightarrow> (c @ drop 512 out, s)
    | None \<Rightarrow> (NUL # drop 1 out, sfs_print (''File not found.'' @ [NL]) s))"
proof (cases "find_index (holds_name (cstr name)) (sfs_table s)")
  case None
  moreover obtain c cs where "out = c # cs" using out by (cases out) auto
  ultimately show ?thesis
    by (simp add: sfs_ReadFile_def sfs_find_ok [OF ok name] sfs_abs_def None del: find_index_None)
next
  case (Some i)
  moreover have "length (disk_read (fe_sector (sfs_table s ! i)) (sfs_disk s)) = 512"
    using sfs_okD(2) [OF ok] by simp
  ultimately show ?thesis using out
    by (simp add: sfs_ReadFile_def sfs_find_ok [OF ok name] sfs_abs_def sfs_content_def Let_def)
qed

lemma sfs_DeleteFile_spec:
  assumes ok: "sfs_ok s" and name: "terminated name"
  shows "\<exists>s'. sfs_DeleteFile name s = Some s' \<and> sfs_ok s' \<and> sfs_abs s' = (sfs_abs s)(cstr name := None)"
proof (cases "find_index (holds_name (cstr name)) (sfs_table s)")
  case None
  then have "sfs_abs s (cstr name) = None" by (simp add: sfs_abs_def)
  then have "sfs_abs s = (sfs_abs s)(cstr name := None)" by (simp add: fun_eq_iff)
  then show ?thesis
    using ok by (simp add: sfs_DeleteFile_def sfs_find_ok [OF ok name] None del: find_index_None)
next
  case (Some i)
  from find_index_SomeD [OF Some] have i: "i < 16" "holds_name (cstr name) (sfs_table s ! i)"
    by (simp_all add: sfs_okD(1) [OF ok])
  from sfs_remove_ok [OF ok i(1)] sfs_remove_abs [OF ok i] Some show ?thesis
    by (simp add: sfs_DeleteFile_def sfs_find_ok [OF ok name] sfs_save_ok sfs_save_abs)
qed

text \<open>A name of 32 characters or more does not fit its entry: the copy runs past it.\<close>

lemma sfs_WriteFile_long_name:
  assumes ok: "sfs_ok s" and name: "terminated name" "32 \<le> length (cstr name)" and room: "sfs_room s (cstr name)"
  shows "sfs_WriteFile name content s = None"
proof -
  obtain i where "sfs_slot (sfs_table s) name = Some (Some i)" "i < 16"
    using sfs_slot_spec [OF ok name(1) room] by blast
  then show ?thesis
    using name sfs_okD(3) [OF ok] by (simp add: sfs_WriteFile_def sfs_strcpy_eq utils_strcpy_spec Let_def)
qed

lemma sfs_WriteFile_full:
  assumes ok: "sfs_ok s" and name: "terminated name" and room: "\<not> sfs_room s (cstr name)"
  shows "sfs_WriteFile name content s = Some (sfs_print (''Disk Full!'' @ [NL]) s)"
proof -
  have n: "find_index (holds_name (cstr name)) (sfs_table s) = None"
    and f: "find_index (\<lambda>e. fe_flags e = 0) (sfs_table s) = None"
    using room by (auto simp: sfs_room_def sfs_abs_def)
  show ?thesis
    by (simp add: sfs_WriteFile_def sfs_slot_def sfs_find_ok [OF ok name] n f del: find_index_None)
qed

subsection \<open>Formatting\<close>

lemma format_entries_length [simp]: "length (format_entries n es) = length es"
  by (induction n es rule: format_entries.induct) auto

lemma format_entries_nth:
  "i < length es \<Longrightarrow> format_entries n es ! i =
     (es ! i)\<lparr>fe_flags := 0, fe_sector := 10 + of_nat (n + i), fe_name := replicate 32 NUL\<rparr>"
proof (induction n es arbitrary: i rule: format_entries.induct)
  case (2 n e es)
  then show ?case by (cases i) auto
qed simp

lemma terminated_replicate [simp]: "terminated (replicate n NUL) \<longleftrightarrow> 0 < n"
  by (auto simp: terminated_def)

lemma sfs_Format_ok:
  assumes "length (sfs_table s) = 16" and "drive_ok (sfs_disk s)"
  shows "sfs_ok (sfs_Format s)" and "sfs_abs (sfs_Format s) = Map.empty"
proof -
  let ?s = "s\<lparr>sfs_table := format_entries 0 (sfs_table s), sfs_log := sfs_log s @ [''[FS] Formatting Disk...'' @ [NL]]\<rparr>"
  have ok: "sfs_ok ?s"
    using assms unfolding sfs_ok_def by (simp add: format_entries_nth used_def)
  then have "sfs_abs ?s = Map.empty"
    using assms by (auto simp: sfs_abs_None holds_name_def used_def format_entries_nth fun_eq_iff)
  moreover have f: "sfs_Format s = sfs_print (''[FS] Disk Formatted.'' @ [NL]) (sfs_save ?s)"
    by (simp add: sfs_Format_def sfs_print_def sfs_save_def Let_def)
  ultimately show "sfs_ok (sfs_Format s)" and "sfs_abs (sfs_Format s) = Map.empty"
    using ok by (simp_all add: sfs_save_ok sfs_save_abs)
qed

text \<open>The state at boot: a zeroed table, any drive.\<close>

definition blank_sfs :: sfs where
  "blank_sfs = \<lparr>sfs_table = replicate 16 \<lparr>fe_name = replicate 32 NUL, fe_sector = 0, fe_size = 0, fe_flags = 0\<rparr>,
     sfs_disk = (\<lambda>s. replicate 512 0), sfs_log = []\<rparr>"

lemma blank_sfs_formatted: "sfs_ok (sfs_Format blank_sfs)" "sfs_abs (sfs_Format blank_sfs) = Map.empty"
  using sfs_Format_ok [of blank_sfs] by (simp_all add: blank_sfs_def drive_ok_def)

lemma blank_sfs_room: "sfs_room (sfs_Format blank_sfs) k"
proof -
  have "sfs_table (sfs_Format blank_sfs) ! 0 \<in> set (sfs_table (sfs_Format blank_sfs))"
    using sfs_okD(1) [OF blank_sfs_formatted(1)] by (intro nth_mem) simp
  moreover have "fe_flags (sfs_table (sfs_Format blank_sfs) ! 0) = 0"
    by (simp add: sfs_Format_def sfs_print_def sfs_save_def format_entries_nth blank_sfs_def)
  ultimately show ?thesis unfolding sfs_room_def by blast
qed

subsection \<open>The shared contract\<close>

definition sfs_put :: "string \<Rightarrow> string \<Rightarrow> sfs \<Rightarrow> sfs option" where
  "sfs_put k v = sfs_WriteFile (k @ [NUL]) (v @ [NUL])"

definition sfs_get :: "string \<Rightarrow> sfs \<Rightarrow> string option" where
  "sfs_get k s = map_option (cstr \<circ> fst) (sfs_ReadFile (k @ [NUL]) (replicate 513 NUL) s)"

lemma cstr_padded: "c_string v \<Longrightarrow> length v \<le> 512 \<Longrightarrow> cstr (padded v) = v"
  unfolding c_string_def padded_def cstr_def
  by (cases "512 - length v") (auto simp: takeWhile_append)

definition sfs_fits :: "sfs \<Rightarrow> string \<Rightarrow> string \<Rightarrow> bool" where
  "sfs_fits s k v \<longleftrightarrow> c_string k \<and> length k < 32 \<and> c_string v \<and> length v \<le> 512 \<and> sfs_room s k"

lemma sfs_get_spec:
  assumes "sfs_ok s" and "c_string k"
  shows "sfs_get k s = Some (case map_option cstr (sfs_abs s k) of None \<Rightarrow> [] | Some v \<Rightarrow> v)"
proof -
  have "drop 512 (replicate 513 NUL) = replicate 1 NUL" by (simp only: drop_replicate) simp
  then have "cstr (c @ drop 512 (replicate 513 NUL)) = cstr c" for c
    using cstr_append_NULs [of c 1] by (simp only: )
  moreover have "(512 :: nat) \<le> length (replicate 513 NUL)" by simp
  ultimately show ?thesis
    using sfs_ReadFile_spec [OF assms(1), of "k @ [NUL]" "replicate 513 NUL"] assms(2)
    by (simp only: sfs_get_def c_string_region) (simp split: option.split)
qed

interpretation sfs_store: keyed_table sfs_ok "\<lambda>s k. map_option cstr (sfs_abs s k)" sfs_fits c_string
  "\<lambda>r. Some (case r of None \<Rightarrow> [] | Some v \<Rightarrow> v)" sfs_put sfs_get
proof unfold_locales
  fix s k v
  assume "sfs_ok s" and "sfs_fits s k v"
  then show "\<exists>s'. sfs_put k v s = Some s' \<and> sfs_ok s'
      \<and> (\<lambda>k. map_option cstr (sfs_abs s' k)) = (\<lambda>k. map_option cstr (sfs_abs s k))(k \<mapsto> v)"
    using sfs_WriteFile_spec [of s "k @ [NUL]" "v @ [NUL]"]
    by (auto simp: sfs_put_def sfs_fits_def cstr_padded fun_eq_iff)
next
  fix s k
  assume "sfs_ok s" and "c_string k"
  then show "sfs_get k s = Some (case map_option cstr (sfs_abs s k) of None \<Rightarrow> [] | Some v \<Rightarrow> v)"
    by (rule sfs_get_spec)
qed

section \<open>Properties\<close>

text \<open>C5: writing a file implements the update of a finite map from names to 512-byte contents: on a
  well-formed table a name below 32 characters is stored with the first 512 characters of the
  content, zero-padded, every other file keeps its content and the table stays well formed; with
  neither the name nor a free entry nothing changes but the message; a name of 32 characters or
  more that gets an entry overruns it.\<close>

theorem sfs_WriteFile_refines:
  assumes "sfs_ok s" and "terminated name" and "terminated content"
  shows "if \<not> sfs_room s (cstr name)
         then sfs_WriteFile name content s = Some (sfs_print (''Disk Full!'' @ [NL]) s)
         else if length (cstr name) < 32
         then \<exists>s'. sfs_WriteFile name content s = Some s' \<and> sfs_ok s'
           \<and> sfs_abs s' = (sfs_abs s)(cstr name \<mapsto> padded (cstr content))
         else sfs_WriteFile name content s = None"
  using assms sfs_WriteFile_spec sfs_WriteFile_full sfs_WriteFile_long_name by auto

theorem sfs_WriteFile_refines_witness:
  "\<exists>s'. sfs_WriteFile (''a.txt'' @ [NUL]) (''hi'' @ [NUL]) (sfs_Format blank_sfs) = Some s'
    \<and> sfs_abs s' ''a.txt'' = Some (padded ''hi'')"
proof -
  have "terminated (''a.txt'' @ [NUL])" "terminated (''hi'' @ [NUL])" by simp_all
  from sfs_WriteFile_refines [OF blank_sfs_formatted(1) this] show ?thesis
    using blank_sfs_room by auto
qed

text \<open>Reading and deleting implement the lookup and the removal of the same map, for every name: a
  read of a stored file leaves the state alone and copies its 512 bytes into a large enough
  buffer, a read of any other name empties the buffer, and a deletion removes that file only.\<close>

theorem sfs_read_delete_refine:
  assumes "sfs_ok s" and "terminated name" and "512 \<le> length out"
  shows "sfs_ReadFile name out s = Some (case sfs_abs s (cstr name) of
      Some c \<Rightarrow> (c @ drop 512 out, s)
    | None \<Rightarrow> (NUL # drop 1 out, sfs_print (''File not found.'' @ [NL]) s))
    \<and> (\<exists>s'. sfs_DeleteFile name s = Some s' \<and> sfs_ok s' \<and> sfs_abs s' = (sfs_abs s)(cstr name := None))"
  using sfs_ReadFile_spec [OF assms] sfs_DeleteFile_spec [OF assms(1,2)] by auto

theorem sfs_read_delete_refine_witness:
  "\<exists>s'. sfs_DeleteFile (''a'' @ [NUL]) (sfs_Format blank_sfs) = Some s' \<and> sfs_abs s' = Map.empty"
proof -
  have "terminated (''a'' @ [NUL])" "512 \<le> length (replicate 512 NUL)" by simp_all
  from sfs_read_delete_refine [OF blank_sfs_formatted(1) this] show ?thesis
    using blank_sfs_formatted(2) by auto
qed

subsection \<open>Remounting\<close>

lemma entry_at_bytes: "length (fe_name e) = 32 \<Longrightarrow> entry_at (entry_bytes e @ r) = Some e"
proof -
  assume len: "length (fe_name e) = 32"
  let ?n = "map byte_of_char (fe_name e)"
  have "word_at 32 (entry_bytes e @ r) = Some (fe_sector e)"
    using word_at_word_bytes [of ?n 32 "fe_sector e"] len by (simp add: entry_bytes_def)
  moreover have "word_at 36 (entry_bytes e @ r) = Some (fe_size e)"
    using word_at_word_bytes [of "?n @ word_bytes (fe_sector e)" 36 "fe_size e"] len
    by (simp add: entry_bytes_def)
  moreover have "word_at 40 (entry_bytes e @ r) = Some (fe_flags e)"
    using word_at_word_bytes [of "?n @ word_bytes (fe_sector e) @ word_bytes (fe_size e)" 40 "fe_flags e" r] len
    by (simp add: entry_bytes_def)
  moreover have "map char_of_byte (take 32 (entry_bytes e @ r)) = fe_name e"
    using len by (simp add: entry_bytes_def)
  ultimately show ?thesis by (simp add: entry_at_def)
qed

lemma entries_at_table:
  "(\<forall>e \<in> set t. length (fe_name e) = 32) \<Longrightarrow>
   entries_at (length t + n) (table_bytes t @ r) = map_option ((@) t) (entries_at n r)"
proof (induction t)
  case Nil
  then show ?case by (cases "entries_at n r") (auto simp: table_bytes_def)
next
  case (Cons e t)
  then show ?case
    by (cases "entries_at n r") (auto simp: table_bytes_def entry_at_bytes entry_bytes_length)
qed

lemma entries_at_enough: "44 * n \<le> length m \<Longrightarrow> \<exists>es. entries_at n m = Some es"
proof (induction n arbitrary: m)
  case (Suc n)
  from Suc.prems have "44 * n \<le> length (drop 44 m)" by simp
  from Suc.IH [OF this] obtain es where "entries_at n (drop 44 m) = Some es" by blast
  with Suc.prems show ?case by (simp add: entry_at_def word_at_def)
qed simp

lemma entries_at_SucD:
  "entries_at (Suc n) m = Some es \<Longrightarrow> \<exists>e es'. es = e # es' \<and> entries_at n (drop 44 m) = Some es'"
  by (auto split: bind_splits)

lemma entries_at_short: "length m < 44 * n \<Longrightarrow> entries_at n m = None"
  by (induction n arbitrary: m) (auto simp: entry_at_def word_at_def Option.bind_eq_None_conv
      split: option.splits)

text \<open>C34: the table does not fit the one sector it is stored in. After a save, mounting restores the
  first eleven entries; entries 12 to 15 come from the memory that follows the buffer on the stack,
  whatever is on the disk, and in the language's terms the mount reads out of bounds.\<close>

theorem sfs_remount:
  assumes ok: "sfs_ok s" and saved: "disk_read 1 (sfs_disk s) = take 512 (table_bytes (sfs_table s))"
    and beyond: "length beyond = 192"
  shows "\<exists>s'. sfs_Init beyond s = Some s' \<and> take 11 (sfs_table s') = take 11 (sfs_table s)
      \<and> entries_at 4 (drop 16 beyond) = Some (drop 12 (sfs_table s'))
    \<and> sfs_Init [] s = None"
proof -
  let ?t = "sfs_table s" and ?m = "disk_read 1 (sfs_disk s)"
  define r where "r = take 28 (table_bytes (drop 11 ?t))"
  have names: "\<forall>e \<in> set ?t. length (fe_name e) = 32"
    by (simp add: all_set_conv_all_nth sfs_okD [OF ok])
  have names11: "\<forall>e \<in> set (take 11 ?t). length (fe_name e) = 32" "\<forall>e \<in> set (drop 11 ?t). length (fe_name e) = 32"
    using names by (auto dest: in_set_takeD in_set_dropD)
  have len11: "length (table_bytes (take 11 ?t)) = 484" "length (table_bytes (drop 11 ?t)) = 220"
    using table_bytes_length [OF names11(1)] table_bytes_length [OF names11(2)] sfs_okD(1) [OF ok] by simp_all
  have "table_bytes ?t = table_bytes (take 11 ?t) @ table_bytes (drop 11 ?t)"
    by (metis append_take_drop_id concat_append map_append table_bytes_def)
  then have m: "?m = table_bytes (take 11 ?t) @ r" using saved len11 by (simp add: r_def)
  have r: "length r = 28" using len11 by (simp add: r_def)
  have "?t \<noteq> []" using sfs_okD(1) [OF ok] by auto
  then obtain e es where t: "take 11 ?t = e # es" by (cases ?t) auto
  have e: "e = ?t ! 0" using t sfs_okD(1) [OF ok] by (metis nth_Cons_0 nth_take zero_less_numeral)
  have first: "entry_at (?m @ b) = Some e" for b
    using names11(1) t unfolding m by (simp add: table_bytes_def entry_at_bytes)
  have sane: "\<not> 1 < fe_flags e \<and> \<not> 100000 < fe_sector e"
    using sfs_okD(5,6) [OF ok, of 0] unfolding e by fastforce
  have all: "entries_at 16 (?m @ b) = map_option ((@) (take 11 ?t)) (entries_at 5 (r @ b))" for b
    using entries_at_table [OF names11(1), of 5 "r @ b"] sfs_okD(1) [OF ok] by (simp add: m)
  obtain es5 where es5: "entries_at 5 (r @ beyond) = Some es5"
    using entries_at_enough [of 5 "r @ beyond"] r beyond by auto
  have "entries_at (Suc 4) (r @ beyond) = Some es5" using es5 by simp
  from entries_at_SucD [OF this] obtain x xs where x: "es5 = x # xs" "entries_at 4 (drop 16 beyond) = Some xs"
    using r by auto
  have "sfs_Init beyond s = Some (sfs_print (''[FS] File System Mounted.'' @ [NL])
      (s\<lparr>sfs_table := take 11 ?t @ es5\<rparr>))"
    using first all [of beyond] es5 sane by (simp add: sfs_Init_def Let_def)
  moreover have "entries_at 5 (r @ []) = None" using r by (intro entries_at_short) simp
  then have "sfs_Init [] s = None"
    using first [of "[]"] all [of "[]"] sane by (simp add: sfs_Init_def Let_def)
  ultimately show ?thesis using x sfs_okD(1) [OF ok] by (auto simp: sfs_print_def)
qed

theorem sfs_remount_witness: "sfs_Init [] (sfs_Format blank_sfs) = None"
proof -
  have "disk_read 1 (sfs_disk (sfs_Format blank_sfs)) = take 512 (table_bytes (sfs_table (sfs_Format blank_sfs)))"
    by (simp add: sfs_Format_def sfs_print_def sfs_save_def Let_def disk_read_write)
  from sfs_remount [OF blank_sfs_formatted(1) this, of "replicate 192 0"] show ?thesis by auto
qed

end
