(* ===== verification/Memory.thy ===== *)
theory Memory
  imports Prelude
begin

text \<open>
  The byte-addressed memory of a user program, little-endian words in it, and the linked headers
  that both user-space allocators (programs/main.cpp and legacy_v1/sdk/stdlib.cpp) keep in front
  of their blocks: a word for the size, a byte for the flag, a word for the next header.
\<close>

type_synonym memory = "u32 \<Rightarrow> u8"

definition load32 :: "memory \<Rightarrow> u32 \<Rightarrow> u32" where
  "load32 m a = le32 (m a) (m (a + 1)) (m (a + 2)) (m (a + 3))"

definition store32 :: "u32 \<Rightarrow> u32 \<Rightarrow> memory \<Rightarrow> memory" where
  "store32 a v m = m(a := byte_at 0 v, a + 1 := byte_at 1 v, a + 2 := byte_at 2 v, a + 3 := byte_at 3 v)"

text \<open>Two memories agree on a range of addresses.\<close>

definition same_on :: "nat set \<Rightarrow> memory \<Rightarrow> memory \<Rightarrow> bool" where
  "same_on A m m' \<longleftrightarrow> (\<forall>x. unat x \<in> A \<longrightarrow> m' x = m x)"

lemma same_on_refl [simp]: "same_on A m m"
  by (simp add: same_on_def)

lemma same_on_trans: "same_on A m1 m2 \<Longrightarrow> same_on A m2 m3 \<Longrightarrow> same_on A m1 m3"
  by (simp add: same_on_def)

lemma same_on_mono: "same_on B m m' \<Longrightarrow> A \<subseteq> B \<Longrightarrow> same_on A m m'"
  by (auto simp: same_on_def)

lemma load32_store32 [simp]: "load32 (store32 a v m) a = v"
  by (simp add: load32_def store32_def le32_byte_at le32_byte_at_Suc)

lemma unat_offset: "unat (a :: u32) + k < 2 ^ 32 \<Longrightarrow> unat (a + of_nat k) = unat a + k"
  by (subst unat_plus_no_wrap) (simp_all add: unat_of_nat_u32)

lemma unat_offsets:
  fixes a :: u32
  shows "unat a + 1 < 2 ^ 32 \<Longrightarrow> unat (a + 1) = unat a + 1" "unat a + 2 < 2 ^ 32 \<Longrightarrow> unat (a + 2) = unat a + 2"
    "unat a + 3 < 2 ^ 32 \<Longrightarrow> unat (a + 3) = unat a + 3" "unat a + 4 < 2 ^ 32 \<Longrightarrow> unat (a + 4) = unat a + 4"
    "unat a + 8 < 2 ^ 32 \<Longrightarrow> unat (a + 8) = unat a + 8" "unat a + 12 < 2 ^ 32 \<Longrightarrow> unat (a + 12) = unat a + 12"
  using unat_offset [of a 1] unat_offset [of a 2] unat_offset [of a 3] unat_offset [of a 4] unat_offset [of a 8]
    unat_offset [of a 12] by simp_all

lemma load32_same:
  assumes "unat a + 4 \<le> 2 ^ 32" "same_on {unat a ..< unat a + 4} m m'"
  shows "load32 m' a = load32 m a"
proof -
  have "m' a = m a" "m' (a + 1) = m (a + 1)" "m' (a + 2) = m (a + 2)" "m' (a + 3) = m (a + 3)"
    using assms by (auto simp: same_on_def unat_offsets)
  then show ?thesis by (simp add: load32_def)
qed

lemma store32_same_on:
  assumes "unat a + 4 \<le> 2 ^ 32" "A \<inter> {unat a ..< unat a + 4} = {}"
  shows "same_on A m (store32 a v m)"
proof -
  have "x \<noteq> a \<and> x \<noteq> a + 1 \<and> x \<noteq> a + 2 \<and> x \<noteq> a + 3" if "unat x \<in> A" for x
  proof -
    have "unat x \<notin> {unat a ..< unat a + 4}" using assms(2) that by blast
    then have "unat x \<noteq> unat a" "unat x \<noteq> unat (a + 1)" "unat x \<noteq> unat (a + 2)" "unat x \<noteq> unat (a + 3)"
      using assms(1) by (auto simp: unat_offsets)
    then show ?thesis by auto
  qed
  then show ?thesis by (simp add: same_on_def store32_def)
qed

lemma byte_same_on: "unat a \<notin> A \<Longrightarrow> same_on A m (m(a := v))"
  by (auto simp: same_on_def)

section \<open>Headers\<close>

record blk =
  b_addr :: u32
  b_size :: u32
  b_free :: bool

text \<open>\<open>sizeof(BlockHeader)\<close> is 12: size at 0, flag at 4, next at 8.\<close>

definition header :: "blk \<Rightarrow> nat set" where
  "header b = {unat (b_addr b) ..< unat (b_addr b) + 12}"

definition data :: "blk \<Rightarrow> nat \<times> nat" where
  "data b = (unat (b_addr b) + 12, unat (b_size b))"

fun chain :: "memory \<Rightarrow> u32 \<Rightarrow> blk list \<Rightarrow> bool" where
  "chain m p [] \<longleftrightarrow> p = 0"
| "chain m p (b # bs) \<longleftrightarrow> p = b_addr b \<and> p \<noteq> 0 \<and> load32 m p = b_size b \<and> (m (p + 4) \<noteq> 0) = b_free b
     \<and> chain m (load32 m (p + 8)) bs"

text \<open>\<open>while (curr) { if (curr->is_free && curr->size >= size) ...; curr = curr->next; }\<close>: the address of the
  first fit, or zero; no value is a walk that never ends.\<close>

partial_function (option) find_free :: "memory \<Rightarrow> u32 \<Rightarrow> u32 \<Rightarrow> u32 option" where
  [code]: "find_free m n here =
     (if here = 0 then Some 0
      else if m (here + 4) \<noteq> 0 \<and> n \<le> load32 m here then Some here
      else find_free m n (load32 m (here + 8)))"

definition fits :: "u32 \<Rightarrow> blk \<Rightarrow> bool" where
  "fits n b \<longleftrightarrow> b_free b \<and> n \<le> b_size b"

lemma find_free_chain:
  "chain m p bs \<Longrightarrow> find_free m n p = Some (case List.find (fits n) bs of None \<Rightarrow> 0 | Some b \<Rightarrow> b_addr b)"
  unfolding fits_def [abs_def]
proof (induction bs arbitrary: p)
  case Nil
  then show ?case by (simp add: find_free.simps)
next
  case (Cons b bs)
  then show ?case by (subst find_free.simps) auto
qed

lemma find_free_cycle:
  assumes "find_free m n p = Some q"
  shows "load32 m (p + 8) = p \<longrightarrow> p \<noteq> 0 \<longrightarrow> m (p + 4) = 0 \<longrightarrow> False"
  using assms
proof (induction rule: find_free.raw_induct [rotated, consumes 1])
  case (1 find_free m n here y)
  then show ?case by (auto split: if_splits)
qed

text \<open>Where the blocks lie. The allocator of main.cpp has the newest block, the highest one, in front.\<close>

definition block_in :: "nat \<Rightarrow> nat \<Rightarrow> blk \<Rightarrow> bool" where
  "block_in lo hi b \<longleftrightarrow> lo \<le> unat (b_addr b) \<and> unat (b_addr b) + 12 + unat (b_size b) \<le> hi"

definition above :: "blk \<Rightarrow> blk \<Rightarrow> bool" where
  "above b c \<longleftrightarrow> unat (b_addr c) + 12 + unat (b_size c) \<le> unat (b_addr b)"

definition apart :: "blk \<Rightarrow> blk \<Rightarrow> bool" where
  "apart b c \<longleftrightarrow> above b c \<or> above c b"

lemma apart_sym: "apart b c \<Longrightarrow> apart c b"
  by (auto simp: apart_def)

lemma apartD:
  assumes "apart b c"
  shows "header b \<inter> header c = {}" "header b \<inter> block (data c) = {}" "disjoint_blocks (data b) (data c)"
  using assms by (auto simp: apart_def above_def header_def data_def block_def disjoint_blocks_def)

lemma header_same:
  assumes "unat p + 12 \<le> 2 ^ 32" "same_on {unat p ..< unat p + 12} m m'"
  shows "load32 m' p = load32 m p" "load32 m' (p + 8) = load32 m (p + 8)" "m' (p + 4) = m (p + 4)"
proof -
  have o: "unat (p + 4) = unat p + 4" "unat (p + 8) = unat p + 8" using assms(1) by (simp_all add: unat_offsets)
  show "load32 m' p = load32 m p"
    using assms by (intro load32_same same_on_mono [OF assms(2)]) auto
  show "load32 m' (p + 8) = load32 m (p + 8)"
    using assms by (intro load32_same same_on_mono [OF assms(2)]) (auto simp: o)
  show "m' (p + 4) = m (p + 4)" using assms(2) by (simp add: same_on_def o)
qed

lemma chain_same:
  "chain m p bs \<Longrightarrow> (\<forall>b \<in> set bs. block_in lo hi b \<and> same_on (header b) m m') \<Longrightarrow> hi \<le> 2 ^ 32 \<Longrightarrow> chain m' p bs"
proof (induction bs arbitrary: p)
  case (Cons b bs)
  have b: "unat p + 12 \<le> 2 ^ 32" "same_on {unat p ..< unat p + 12} m m'"
    using Cons.prems by (auto simp: block_in_def header_def)
  moreover have "chain m' (load32 m (p + 8)) bs" using Cons.prems by (intro Cons.IH) auto
  ultimately show ?case using Cons.prems(1) header_same [OF b] by auto
qed simp

text \<open>Changing a suffix of the chain, as seen from every address that leads to it.\<close>

lemma chain_prefix:
  assumes "chain m p (xs @ ys)" "\<forall>c \<in> set xs. block_in lo hi c \<and> same_on (header c) m m'" "hi \<le> 2 ^ 32"
    and "\<And>q. chain m q ys \<Longrightarrow> chain m' q ys'"
  shows "chain m' p (xs @ ys')"
  using assms(1,2)
proof (induction xs arbitrary: p)
  case Nil
  then show ?case using assms(4) by simp
next
  case (Cons c xs)
  have b: "unat p + 12 \<le> 2 ^ 32" "same_on {unat p ..< unat p + 12} m m'"
    using Cons.prems assms(3) by (auto simp: block_in_def header_def)
  moreover have "chain m' (load32 m (p + 8)) (xs @ ys')" using Cons.prems by (intro Cons.IH) auto
  ultimately show ?case using Cons.prems(1) header_same [OF b] by auto
qed

text \<open>Changing the flag of one block.\<close>

lemma chain_set_flag:
  assumes c: "chain m p (xs @ b # ys)" and ap: "\<forall>c \<in> set xs \<union> set ys. apart b c"
    and bl: "\<forall>c \<in> set (xs @ b # ys). block_in lo hi c" "hi \<le> 2 ^ 32"
  shows "chain (m(b_addr b + 4 := v)) p (xs @ b\<lparr>b_free := v \<noteq> 0\<rparr> # ys)"
proof -
  let ?m = "m(b_addr b + 4 := v)" and ?a = "b_addr b"
  have inb: "unat ?a + 12 \<le> 2 ^ 32" using bl by (auto simp: block_in_def)
  then have o: "unat (?a + 4) = unat ?a + 4" "unat (?a + 8) = unat ?a + 8" by (simp_all add: unat_offsets)
  have same: "same_on (header c) m ?m" if "c \<in> set xs \<union> set ys" for c
  proof -
    have "header b \<inter> header c = {}" using ap that by (intro apartD) simp
    moreover have "unat (?a + 4) \<in> header b" by (simp add: header_def o)
    ultimately show ?thesis by (intro byte_same_on) blast
  qed
  have w: "load32 ?m ?a = load32 m ?a" by (rule load32_same) (use inb in \<open>auto intro!: byte_same_on simp: o\<close>)
  have w': "load32 ?m (?a + 8) = load32 m (?a + 8)" by (rule load32_same) (use inb in \<open>auto intro!: byte_same_on simp: o\<close>)
  have "chain ?m q (b\<lparr>b_free := v \<noteq> 0\<rparr> # ys)" if q: "chain m q (b # ys)" for q
  proof -
    have "chain m (load32 m (?a + 8)) ys" using q by auto
    moreover have "\<forall>c \<in> set ys. block_in lo hi c \<and> same_on (header c) m ?m" using bl(1) same by simp
    ultimately have "chain ?m (load32 m (?a + 8)) ys" using bl(2) by (rule chain_same)
    then show ?thesis using q w w' by auto
  qed
  moreover have "\<forall>c \<in> set xs. block_in lo hi c \<and> same_on (header c) m ?m" using bl(1) same by simp
  ultimately show ?thesis using bl(2) by (intro chain_prefix [OF c])
qed

end
