(* ===== verification/Allocator.thy ===== *)
theory Allocator
  imports Memory
begin

text \<open>
  What the two user-space allocators (programs/main.cpp and legacy_v1/sdk/stdlib.cpp) have in common: the program's
  state, the blocks that a list of headers represents, and the interface \<open>block_allocator\<close> both provide. What a program
  gets from any provider, its memory to itself, is proved once from the interface.
\<close>

section \<open>State\<close>

text \<open>The memory as the program addresses it, the head of its list of blocks, and the kernel it calls.\<close>

record 'k user =
  umem :: memory
  heap_head :: u32
  kern :: 'k

section \<open>Lists of blocks\<close>

definition heap_repr :: "nat \<Rightarrow> nat \<Rightarrow> 'k user \<Rightarrow> blk list \<Rightarrow> bool" where
  "heap_repr lo hi u bs \<longleftrightarrow> chain (umem u) (heap_head u) bs \<and> sorted_wrt apart bs \<and> (\<forall>b \<in> set bs. block_in lo hi b)"

text \<open>The blocks the program holds, as address and size.\<close>

definition live :: "blk list \<Rightarrow> (nat \<times> nat) set" where
  "live bs = data ` {b \<in> set bs. \<not> b_free b}"

lemma blocks_apart:
  assumes "sorted_wrt apart bs" "b \<in> set bs" "c \<in> set bs" "b \<noteq> c"
  shows "apart b c"
proof -
  obtain i j where i: "i < length bs" "bs ! i = b" "j < length bs" "bs ! j = c"
    using assms(2,3) by (auto simp: in_set_conv_nth)
  then have "i < j \<or> j < i" using assms(4) by (cases i j rule: linorder_cases) auto
  then show ?thesis using assms(1) i by (auto simp: sorted_wrt_iff_nth_less intro: apart_sym)
qed

lemma blocks_split:
  assumes "sorted_wrt apart (xs @ b # ys)"
  shows "\<forall>c \<in> set xs \<union> set ys. apart b c" "b \<notin> set xs \<union> set ys"
  using assms by (auto simp: sorted_wrt_append apart_def above_def)

lemma data_inj:
  assumes "sorted_wrt apart bs" "b \<in> set bs" "c \<in> set bs" "fst (data b) = fst (data c)"
  shows "b = c"
  using blocks_apart [OF assms(1-3)] assms(4) by (fastforce simp: apart_def above_def data_def)

lemma data_flag [simp]: "data (b\<lparr>b_free := f\<rparr>) = data b"
  by (simp add: data_def)

lemma live_data:
  assumes "sorted_wrt apart bs" "b \<in> set bs"
  shows "data b \<in> live bs \<longleftrightarrow> \<not> b_free b"
proof
  assume "data b \<in> live bs"
  then obtain c where c: "c \<in> set bs" "\<not> b_free c" "data b = data c" by (auto simp: live_def)
  then have "b = c" using assms by (intro data_inj) auto
  with c show "\<not> b_free b" by simp
qed (use assms in \<open>auto simp: live_def\<close>)

lemma live_flag:
  assumes "sorted_wrt apart (xs @ b # ys)"
  shows "live (xs @ b\<lparr>b_free := f\<rparr> # ys) = (if f then live (xs @ b # ys) - {data b} else insert (data b) (live (xs @ b # ys)))"
proof -
  let ?others = "data ` {c \<in> set xs \<union> set ys. \<not> b_free c}"
  have "data c \<noteq> data b" if "c \<in> set xs \<union> set ys" for c
    using data_inj [OF assms, of c b] that blocks_split(2) [OF assms] by auto
  then have "data b \<notin> ?others" unfolding image_iff by (metis (no_types, lifting) mem_Collect_eq)
  moreover have "live (xs @ c # ys) = (if b_free c then {} else {data c}) \<union> ?others" for c
    by (auto simp: live_def)
  ultimately show ?thesis by (cases f; cases "b_free b"; simp)
qed

lemma heap_repr_flag:
  assumes "heap_repr lo hi u (xs @ b # ys)" "hi \<le> 2 ^ 32"
  shows "heap_repr lo hi (u\<lparr>umem := (umem u)(b_addr b + 4 := v)\<rparr>) (xs @ b\<lparr>b_free := v \<noteq> 0\<rparr> # ys)"
proof -
  have s: "sorted_wrt apart (xs @ b # ys)" using assms(1) by (simp add: heap_repr_def)
  have "chain ((umem u)(b_addr b + 4 := v)) (heap_head u) (xs @ b\<lparr>b_free := v \<noteq> 0\<rparr> # ys)"
    using assms blocks_split(1) [OF s] by (intro chain_set_flag [of _ _ _ _ _ lo hi]) (simp_all add: heap_repr_def)
  moreover have "sorted_wrt apart (xs @ b\<lparr>b_free := v \<noteq> 0\<rparr> # ys)"
    using s by (simp add: sorted_wrt_append apart_def above_def)
  ultimately show ?thesis using assms(1) by (simp add: heap_repr_def block_in_def)
qed

text \<open>The flag lies in no block's data.\<close>

lemma flag_keeps_data:
  assumes "heap_repr lo hi u (xs @ b # ys)" "hi \<le> 2 ^ 32" "c \<in> set (xs @ b # ys)"
  shows "same_on (block (data c)) (umem u) ((umem u)(b_addr b + 4 := v))"
proof -
  have "unat (b_addr b) + 12 \<le> 2 ^ 32" using assms(1,2) by (auto simp: heap_repr_def block_in_def)
  then have h: "unat (b_addr b + 4) = unat (b_addr b) + 4" by (simp add: unat_offsets)
  have "header b \<inter> block (data c) = {}"
  proof (cases "c = b")
    case True
    then show ?thesis by (auto simp: header_def block_def data_def)
  next
    case False
    then show ?thesis using assms(1,3) by (intro apartD blocks_apart) (auto simp: heap_repr_def)
  qed
  moreover have "unat (b_addr b + 4) \<in> header b" by (simp add: header_def h)
  ultimately show ?thesis by (intro byte_same_on) blast
qed

text \<open>Taking the first free block that is large enough.\<close>

lemma reuse_block:
  assumes "heap_repr lo hi u bs" "hi < 2 ^ 32" "List.find (fits n) bs = Some b"
  shows "\<exists>bs'. b_addr b \<noteq> 0 \<and> b_addr b + 12 \<noteq> 0 \<and> unat (b_addr b + 12) = unat (b_addr b) + 12
    \<and> heap_repr lo hi (u\<lparr>umem := (umem u)(b_addr b + 4 := 0)\<rparr>) bs'
    \<and> unat n \<le> unat (b_size b) \<and> data b \<notin> live bs \<and> live bs' = insert (data b) (live bs)
    \<and> (\<forall>c \<in> set bs. same_on (block (data c)) (umem u) ((umem u)(b_addr b + 4 := 0)))"
proof -
  obtain xs ys where bs: "bs = xs @ b # ys" and b: "fits n b"
    using assms(3) by (auto simp: find_Some_iff) (metis id_take_nth_drop)
  have s: "sorted_wrt apart (xs @ b # ys)" and c: "chain (umem u) (heap_head u) bs" and i: "block_in lo hi b"
    using assms(1) by (auto simp: heap_repr_def bs)
  have a: "b_addr b \<noteq> 0"
  proof -
    have "chain (umem u) q (xs @ b # ys) \<Longrightarrow> b_addr b \<noteq> 0" for q by (induction xs arbitrary: q) auto
    then show ?thesis using c by (simp add: bs)
  qed
  have "unat (b_addr b) + 12 < 2 ^ 32" using i assms(2) by (simp add: block_in_def)
  then have p: "unat (b_addr b + 12) = unat (b_addr b) + 12" by (rule unat_offsets)
  then have "b_addr b + 12 \<noteq> 0" by (metis add_eq_0_iff_both_eq_0 unsigned_0 zero_neq_numeral)
  moreover have "data b \<notin> live bs" using live_data [OF s, of b] b by (simp add: bs fits_def)
  moreover have "heap_repr lo hi (u\<lparr>umem := (umem u)(b_addr b + 4 := 0)\<rparr>) (xs @ b\<lparr>b_free := False\<rparr> # ys)"
    using heap_repr_flag [of lo hi u xs b ys 0] assms(1,2) by (simp add: bs)
  moreover have "live (xs @ b\<lparr>b_free := False\<rparr> # ys) = insert (data b) (live bs)"
    using live_flag [OF s, of False] by (simp add: bs)
  moreover have "\<forall>c \<in> set bs. same_on (block (data c)) (umem u) ((umem u)(b_addr b + 4 := 0))"
    using flag_keeps_data [of lo hi u xs b ys _ 0] assms(1,2) by (simp add: bs del: fun_upd_apply)
  moreover have "unat n \<le> unat (b_size b)" using b by (simp add: fits_def word_le_nat_alt)
  ultimately show ?thesis using a p by (intro exI [of _ "xs @ b\<lparr>b_free := False\<rparr> # ys"]) (simp del: fun_upd_apply)
qed

lemma live_disjoint:
  assumes "sorted_wrt apart bs" "b \<in> live bs" "c \<in> live bs" "b \<noteq> c"
  shows "disjoint_blocks b c"
proof -
  obtain x y where "x \<in> set bs" "b = data x" "y \<in> set bs" "c = data y" using assms(2,3) by (auto simp: live_def)
  then show ?thesis using assms(1,4) by (auto intro!: apartD(3) blocks_apart)
qed

text \<open>The size of a live block stands in front of it.\<close>

lemma live_header:
  assumes "heap_repr lo hi u bs" "hi < 2 ^ 32" "(unat p, s) \<in> live bs"
  shows "unat (load32 (umem u) (p - 12)) = s" "unat p + s \<le> hi" "p \<noteq> 0" "\<exists>b \<in> set bs. data b = (unat p, s)"
proof -
  obtain b where b: "b \<in> set bs" "unat p = unat (b_addr b) + 12" "s = unat (b_size b)"
    using assms(3) by (auto simp: live_def data_def)
  have i: "block_in lo hi b" using assms(1) b(1) by (simp add: heap_repr_def)
  have "chain m q bs \<Longrightarrow> b \<in> set bs \<Longrightarrow> load32 m (b_addr b) = b_size b" for m q by (induction bs arbitrary: q) auto
  then have "load32 (umem u) (b_addr b) = b_size b" using assms(1) b(1) by (auto simp: heap_repr_def)
  moreover have "p = b_addr b + 12" using b(2) i assms(2) by (simp add: word_unat_eq_iff block_in_def unat_offsets)
  ultimately show "unat (load32 (umem u) (p - 12)) = s" using b(3) by simp
  show "unat p + s \<le> hi" using i b by (simp add: block_in_def)
  show "p \<noteq> 0" using b(2) by auto
  show "\<exists>b \<in> set bs. data b = (unat p, s)" using b by (auto simp: data_def)
qed

text \<open>Writing into the data of a block touches no header.\<close>

lemma heap_repr_data:
  assumes "heap_repr lo hi u bs" "hi < 2 ^ 32" "b \<in> set bs" "same_on (- block (data b)) (umem u) m"
  shows "heap_repr lo hi (u\<lparr>umem := m\<rparr>) bs"
proof -
  have "\<forall>c \<in> set bs. block_in lo hi c \<and> same_on (header c) (umem u) m"
  proof
    fix c assume c: "c \<in> set bs"
    have "header c \<inter> block (data b) = {}"
    proof (cases "c = b")
      case True
      then show ?thesis by (auto simp: header_def block_def data_def)
    next
      case False
      then show ?thesis using assms(1) c by (intro apartD(2) blocks_apart [OF _ c assms(3)]) (simp_all add: heap_repr_def)
    qed
    then have "same_on (header c) (umem u) m" by (intro same_on_mono [OF assms(4)]) blast
    then show "block_in lo hi c \<and> same_on (header c) (umem u) m" using assms(1) c by (simp add: heap_repr_def)
  qed
  from chain_same [OF _ this] assms(1,2) show ?thesis by (simp add: heap_repr_def)
qed

lemma live_same: "\<forall>c \<in> set bs. same_on (block (data c)) m m' \<Longrightarrow> b \<in> live bs \<Longrightarrow> same_on (block b) m m'"
  by (auto simp: live_def)

lemma block_sub: "n \<le> s \<Longrightarrow> block (p, n) \<subseteq> block (p, s)"
  by (auto simp: block_def)

lemma same_on_content:
  "same_on A m c \<Longrightarrow> same_on A m m' \<Longrightarrow> same_on A m' c"
  by (simp add: same_on_def)

lemma live_inj:
  assumes "sorted_wrt apart bs" "(p, s) \<in> live bs" "(p, t) \<in> live bs"
  shows "s = t"
proof -
  obtain b c where b: "b \<in> set bs" "data b = (p, s)" "c \<in> set bs" "data c = (p, t)" using assms(2,3) by (fastforce simp: live_def)
  then have "b = c" by (intro data_inj [OF assms(1)]) auto
  then show ?thesis using b by simp
qed

lemma heap_repr_store:
  assumes "heap_repr lo hi u bs" "hi < 2 ^ 32" "b \<in> live bs" "unat a \<in> block b"
  shows "heap_repr lo hi (u\<lparr>umem := (umem u)(a := v)\<rparr>) bs"
proof -
  obtain c where c: "c \<in> set bs" "data c = b" using assms(3) by (auto simp: live_def)
  have "same_on (- block (data c)) (umem u) ((umem u)(a := v))" using assms(4) c(2) by (intro byte_same_on) simp
  then show ?thesis using heap_repr_data [OF assms(1,2) c(1)] by blast
qed

lemma heap_repr_bounds: "heap_repr lo hi u bs \<Longrightarrow> b \<in> live bs \<Longrightarrow> lo \<le> fst b \<and> fst b + snd b \<le> hi"
  by (fastforce simp: live_def data_def heap_repr_def block_in_def)

text \<open>What changes outside the blocks changes nothing in the list.\<close>

lemma heap_repr_other:
  assumes "heap_repr lo hi u bs" "hi \<le> cap" "hi \<le> 2 ^ 32" "same_on {lo ..< cap} (umem u) m"
  shows "heap_repr lo hi (u\<lparr>umem := m, kern := k\<rparr>) bs"
proof -
  have r: "chain (umem u) (heap_head u) bs" "sorted_wrt apart bs" "\<forall>b \<in> set bs. block_in lo hi b"
    using assms(1) by (simp_all add: heap_repr_def)
  have "\<forall>b \<in> set bs. block_in lo hi b \<and> same_on (header b) (umem u) m"
    using r(3) assms(2) by (auto intro!: same_on_mono [OF assms(4)] simp: header_def block_in_def)
  from chain_same [OF r(1) this assms(3)] r show ?thesis by (simp add: heap_repr_def)
qed

section \<open>A program and its heap\<close>

text \<open>Everything a program can do with the memory it was given: allocate, release what it holds, write a byte into
  what it holds. In between the kernel may change anything but the bytes from \<open>lo\<close> to \<open>hi\<close> and what \<open>still\<close> compares.
  \<open>may\<close> restricts the requests, by their size and the state they lead to. The state carries what the program
  holds, as asked for, and what it wrote there.\<close>

inductive program_reach ::
  "(u32 \<Rightarrow> 'k user \<Rightarrow> (u32 \<times> 'k user) option) \<Rightarrow> (u32 \<Rightarrow> 'k user \<Rightarrow> 'k user) \<Rightarrow> (u32 \<Rightarrow> 'k user \<Rightarrow> bool)
    \<Rightarrow> ('k \<Rightarrow> 'k \<Rightarrow> bool) \<Rightarrow> nat \<Rightarrow> nat \<Rightarrow> 'k user \<Rightarrow> 'k user \<Rightarrow> (nat \<times> nat) set \<Rightarrow> memory \<Rightarrow> bool"
  for request release may still lo hi u0 where
  start: "program_reach request release may still lo hi u0 u0 {} (umem u0)"
| alloc: "program_reach request release may still lo hi u0 u own cont \<Longrightarrow> request n u = Some (p, u') \<Longrightarrow> may n u' \<Longrightarrow>
    program_reach request release may still lo hi u0 u' (if p = 0 then own else insert (unat p, unat n) own)
      (\<lambda>a. if p \<noteq> 0 \<and> unat a \<in> block (unat p, unat n) then umem u' a else cont a)"
| release: "program_reach request release may still lo hi u0 u own cont \<Longrightarrow> (unat p, n) \<in> own \<Longrightarrow>
    program_reach request release may still lo hi u0 (release p u) (own - {(unat p, n)}) cont"
| store: "program_reach request release may still lo hi u0 u own cont \<Longrightarrow> b \<in> own \<Longrightarrow> unat a \<in> block b \<Longrightarrow>
    program_reach request release may still lo hi u0 (u\<lparr>umem := (umem u)(a := v)\<rparr>) own (cont(a := v))"
| other: "program_reach request release may still lo hi u0 u own cont \<Longrightarrow> same_on {lo ..< hi} (umem u) m \<Longrightarrow> still (kern u) k \<Longrightarrow>
    program_reach request release may still lo hi u0 (u\<lparr>umem := m, kern := k\<rparr>) own cont"

definition owns :: "('k user \<Rightarrow> blk list \<Rightarrow> bool) \<Rightarrow> 'k user \<Rightarrow> (nat \<times> nat) set \<Rightarrow> memory \<Rightarrow> blk list \<Rightarrow> bool" where
  "owns heap u own cont bs \<longleftrightarrow> heap u bs
     \<and> (\<forall>p n. (p, n) \<in> own \<longrightarrow> (\<exists>s \<ge> n. (p, s) \<in> live bs) \<and> same_on (block (p, n)) (umem u) cont)
     \<and> (\<forall>p n k. (p, n) \<in> own \<longrightarrow> (p, k) \<in> own \<longrightarrow> n = k)"

lemma ownsD:
  assumes "owns heap u own cont bs"
  shows "heap u bs" "(q, k) \<in> own \<Longrightarrow> \<exists>s \<ge> k. (q, s) \<in> live bs" "(q, k) \<in> own \<Longrightarrow> same_on (block (q, k)) (umem u) cont"
    "(q, k) \<in> own \<Longrightarrow> (q, l) \<in> own \<Longrightarrow> k = l"
  using assms unfolding owns_def by blast+

section \<open>The interface\<close>

locale block_allocator =
  fixes request :: "u32 \<Rightarrow> 'k user \<Rightarrow> (u32 \<times> 'k user) option"
    and release :: "u32 \<Rightarrow> 'k user \<Rightarrow> 'k user"
    and heap :: "'k user \<Rightarrow> blk list \<Rightarrow> bool"
    and may :: "u32 \<Rightarrow> 'k user \<Rightarrow> bool"
    and still :: "'k \<Rightarrow> 'k \<Rightarrow> bool"
    and lo hi :: nat
  assumes heap_apart: "heap u bs \<Longrightarrow> sorted_wrt apart bs"
    and request_ok: "heap u bs \<Longrightarrow> request n u = Some (p, u') \<Longrightarrow> may n u' \<Longrightarrow> \<exists>bs'. heap u' bs'
      \<and> (\<forall>b \<in> live bs. same_on (block b) (umem u) (umem u'))
      \<and> (if p = 0 then live bs' = live bs else \<exists>s. unat n \<le> s \<and> (unat p, s) \<notin> live bs \<and> live bs' = insert (unat p, s) (live bs))"
    and release_ok: "heap u bs \<Longrightarrow> (unat p, s) \<in> live bs \<Longrightarrow> \<exists>bs'. heap (release p u) bs' \<and> live bs' = live bs - {(unat p, s)}
      \<and> (\<forall>b \<in> live bs. same_on (block b) (umem u) (umem (release p u)))"
    and store_ok: "heap u bs \<Longrightarrow> b \<in> live bs \<Longrightarrow> unat a \<in> block b \<Longrightarrow> heap (u\<lparr>umem := (umem u)(a := v)\<rparr>) bs"
    and other_ok: "heap u bs \<Longrightarrow> same_on {lo ..< hi} (umem u) m \<Longrightarrow> still (kern u) k \<Longrightarrow> heap (u\<lparr>umem := m, kern := k\<rparr>) bs"
    and bounds: "heap u bs \<Longrightarrow> b \<in> live bs \<Longrightarrow> lo \<le> fst b \<and> fst b + snd b \<le> hi"
begin

text \<open>What the program holds keeps its contents while other blocks come and go.\<close>

lemma keep:
  assumes "owns heap u own cont bs" "(q, k) \<in> own" "\<forall>b \<in> live bs. same_on (block b) (umem u) (umem u')"
  shows "same_on (block (q, k)) (umem u') cont"
proof -
  obtain s where s: "k \<le> s" "(q, s) \<in> live bs" using ownsD(2) [OF assms(1,2)] by blast
  have "same_on (block (q, s)) (umem u) (umem u')" using assms(3) s(2) by blast
  then have "same_on (block (q, k)) (umem u) (umem u')" using block_sub [OF s(1)] by (rule same_on_mono)
  then show ?thesis by (rule same_on_content [OF ownsD(3) [OF assms(1,2)]])
qed

lemma owns_alloc:
  assumes h: "owns heap u own cont bs" and call: "request n u = Some (p, u')" and n: "may n u'"
  shows "\<exists>bs'. owns heap u' (if p = 0 then own else insert (unat p, unat n) own)
      (\<lambda>a. if p \<noteq> 0 \<and> unat a \<in> block (unat p, unat n) then umem u' a else cont a) bs'"
proof -
  from request_ok [OF ownsD(1) [OF h] call n] obtain bs' where r: "heap u' bs'" "\<forall>b \<in> live bs. same_on (block b) (umem u) (umem u')"
    "if p = 0 then live bs' = live bs else \<exists>s. unat n \<le> s \<and> (unat p, s) \<notin> live bs \<and> live bs' = insert (unat p, s) (live bs)" by auto
  note kp = keep [OF h _ r(2)]
  show ?thesis
  proof (cases "p = 0")
    case True
    then show ?thesis using r kp ownsD(2,4) [OF h] by (intro exI [of _ bs']) (auto simp: owns_def)
  next
    case False
    then obtain s where s: "unat n \<le> s" "(unat p, s) \<notin> live bs" "live bs' = insert (unat p, s) (live bs)" using r(3) by auto
    let ?c = "\<lambda>a. if p \<noteq> 0 \<and> unat a \<in> block (unat p, unat n) then umem u' a else cont a"
    have srt: "sorted_wrt apart bs'" by (rule heap_apart [OF r(1)])
    have other: "q \<noteq> unat p \<and> block (q, k) \<inter> block (unat p, unat n) = {}" if qk: "(q, k) \<in> own" for q k
    proof -
      obtain t where t: "k \<le> t" "(q, t) \<in> live bs" using ownsD(2) [OF h qk] by blast
      then have "q \<noteq> unat p" using live_inj [OF srt, of q s t] s(2,3) by auto
      moreover have "block (unat p, s) \<inter> block (q, t) = {}"
        using s(2,3) t(2) by (intro disjoint_blocks_block live_disjoint [OF srt]) auto
      ultimately show ?thesis using block_sub [OF t(1)] block_sub [OF s(1)] by blast
    qed
    have "same_on (block (q, k)) (umem u') ?c" if "(q, k) \<in> own" for q k
      using kp [OF that] other [OF that] by (auto simp: same_on_def)
    moreover have "same_on (block (unat p, unat n)) (umem u') ?c" using False by (simp add: same_on_def)
    moreover have "\<exists>s \<ge> k. (q, s) \<in> live bs'" if "(q, k) \<in> own" for q k using ownsD(2) [OF h that] s(3) by auto
    moreover have "\<exists>s \<ge> unat n. (unat p, s) \<in> live bs'" using s(1,3) by auto
    ultimately have "\<forall>q k. (q, k) \<in> insert (unat p, unat n) own \<longrightarrow> (\<exists>s \<ge> k. (q, s) \<in> live bs') \<and> same_on (block (q, k)) (umem u') ?c"
      by blast
    moreover have "\<forall>q k l. (q, k) \<in> insert (unat p, unat n) own \<longrightarrow> (q, l) \<in> insert (unat p, unat n) own \<longrightarrow> k = l"
      using ownsD(4) [OF h] other by blast
    ultimately have "owns heap u' (insert (unat p, unat n) own) ?c bs'" using r(1) unfolding owns_def by blast
    then show ?thesis by (subst if_not_P [OF False]) blast
  qed
qed

lemma owns_release:
  assumes h: "owns heap u own cont bs" and pn: "(unat p, n) \<in> own"
  shows "\<exists>bs'. owns heap (release p u) (own - {(unat p, n)}) cont bs'"
proof -
  obtain s where s: "n \<le> s" "(unat p, s) \<in> live bs" using ownsD(2) [OF h pn] by blast
  from release_ok [OF ownsD(1) [OF h] s(2)] obtain bs' where r: "heap (release p u) bs'" "live bs' = live bs - {(unat p, s)}"
    "\<forall>b \<in> live bs. same_on (block b) (umem u) (umem (release p u))" by blast
  have "(\<exists>t \<ge> k. (q, t) \<in> live bs') \<and> same_on (block (q, k)) (umem (release p u)) cont" if qk: "(q, k) \<in> own - {(unat p, n)}" for q k
  proof -
    have o: "(q, k) \<in> own" and "q \<noteq> unat p" using qk ownsD(4) [OF h] pn by blast+
    then show ?thesis using keep [OF h o r(3)] ownsD(2) [OF h o] r(2) by auto
  qed
  then show ?thesis using r(1) ownsD(4) [OF h] unfolding owns_def by (intro exI [of _ bs']) blast
qed

lemma owns_store:
  assumes h: "owns heap u own cont bs" and b: "b \<in> own" "unat a \<in> block b"
  shows "owns heap (u\<lparr>umem := (umem u)(a := v)\<rparr>) own (cont(a := v)) bs"
proof -
  obtain p n where pn: "b = (p, n)" by (cases b)
  obtain s where s: "n \<le> s" "(p, s) \<in> live bs" using ownsD(2) [OF h] b(1) pn by blast
  have "unat a \<in> block (p, s)" using b(2) block_sub [OF s(1)] pn by auto
  from store_ok [OF ownsD(1) [OF h] s(2) this] have "heap (u\<lparr>umem := (umem u)(a := v)\<rparr>) bs" .
  moreover have "same_on (block (q, k)) ((umem u)(a := v)) (cont(a := v))" if "(q, k) \<in> own" for q k
    using ownsD(3) [OF h that] by (simp add: same_on_def)
  ultimately show ?thesis using h by (simp add: owns_def)
qed

lemma owns_other:
  assumes h: "owns heap u own cont bs" and m: "same_on {lo ..< hi} (umem u) m" and k: "still (kern u) k"
  shows "owns heap (u\<lparr>umem := m, kern := k\<rparr>) own cont bs"
proof -
  have "same_on (block b) (umem u) m" if "b \<in> live bs" for b
    using bounds [OF ownsD(1) [OF h] that] by (intro same_on_mono [OF m]) (cases b; auto simp: block_def)
  then have "\<forall>b \<in> live bs. same_on (block b) (umem u) (umem (u\<lparr>umem := m, kern := k\<rparr>))" by simp
  note kp = keep [OF h _ this]
  have "heap (u\<lparr>umem := m, kern := k\<rparr>) bs" by (rule other_ok [OF ownsD(1) [OF h] m k])
  then show ?thesis using kp ownsD(2,4) [OF h] unfolding owns_def by blast
qed

lemma reach_holds:
  assumes "program_reach request release may still lo hi u0 u own cont" "heap u0 bs0" "live bs0 = {}"
  shows "\<exists>bs. owns heap u own cont bs"
  using assms
proof (induction rule: program_reach.induct)
  case start
  then have "owns heap u0 {} (umem u0) bs0" by (simp add: owns_def)
  then show ?case by blast
next
  case (alloc u own cont n p u')
  then show ?case using owns_alloc by blast
next
  case (release u own cont p n)
  then show ?case using owns_release by blast
next
  case (store u own cont b a v)
  then show ?case using owns_store by blast
next
  case (other u own cont m k)
  then show ?case using owns_other by blast
qed

lemma reach_separation:
  assumes "program_reach request release may still lo hi u0 u own cont" "heap u0 bs0" "live bs0 = {}"
  shows "(\<forall>b \<in> own. \<forall>c \<in> own. b \<noteq> c \<longrightarrow> disjoint_blocks b c)
    \<and> (\<forall>b \<in> own. lo \<le> fst b \<and> fst b + snd b \<le> hi)
    \<and> (\<forall>b \<in> own. \<forall>a. unat a \<in> block b \<longrightarrow> umem u a = cont a)"
proof -
  obtain bs where h: "owns heap u own cont bs" using reach_holds [OF assms] by blast
  have srt: "sorted_wrt apart bs" by (rule heap_apart [OF ownsD(1) [OF h]])
  have d: "disjoint_blocks (p, n) (q, k)" if o: "(p, n) \<in> own" "(q, k) \<in> own" "(p, n) \<noteq> (q, k)" for p n q k
  proof -
    obtain s t where st: "n \<le> s" "(p, s) \<in> live bs" "k \<le> t" "(q, t) \<in> live bs"
      using ownsD(2) [OF h o(1)] ownsD(2) [OF h o(2)] by blast
    have "p \<noteq> q" using o ownsD(4) [OF h] by blast
    then have "disjoint_blocks (p, s) (q, t)" using live_disjoint [OF srt st(2,4)] by simp
    then show ?thesis using st(1,3) by (auto simp: disjoint_blocks_def)
  qed
  have r: "lo \<le> p \<and> p + n \<le> hi" if o: "(p, n) \<in> own" for p n
    using ownsD(2) [OF h o] bounds [OF ownsD(1) [OF h]] by fastforce
  show ?thesis
  proof (intro conjI ballI allI impI)
    fix b c assume "b \<in> own" "c \<in> own" "b \<noteq> c"
    then show "disjoint_blocks b c" using d [of "fst b" "snd b" "fst c" "snd c"] by simp
  next
    fix b assume "b \<in> own"
    then show "lo \<le> fst b" "fst b + snd b \<le> hi" using r [of "fst b" "snd b"] by simp_all
  next
    fix b and a :: u32 assume "b \<in> own" "unat a \<in> block b"
    then show "umem u a = cont a" using ownsD(3) [OF h, of "fst b" "snd b"] by (simp add: same_on_def)
  qed
qed

end

end
