(* ===== verification/Font.thy ===== *)
theory Font
  imports Prelude
begin

text \<open>
  The glyphs of src/core/graphics/font.h (one byte per row, from the space on; the header gives 95
  of the 96 rows, the last one is zero) and the pointer image of src/core/graphics/cursor.h.
\<close>

definition font8x8_basic :: "u8 list list" where
  "font8x8_basic =
    [[0x00, 0x00, 0x00, 0x00, 0x00, 0x00, 0x00, 0x00],
     [0x18, 0x3C, 0x3C, 0x18, 0x18, 0x00, 0x18, 0x00],
     [0x66, 0x66, 0x22, 0x00, 0x00, 0x00, 0x00, 0x00],
     [0x6C, 0x6C, 0xFE, 0x6C, 0xFE, 0x6C, 0x6C, 0x00],
     [0x18, 0x3E, 0x60, 0x3C, 0x06, 0x7C, 0x18, 0x00],
     [0x00, 0xC6, 0xCC, 0x18, 0x30, 0x66, 0xC6, 0x00],
     [0x38, 0x6C, 0x38, 0x76, 0xDC, 0xCC, 0x76, 0x00],
     [0x18, 0x18, 0x30, 0x00, 0x00, 0x00, 0x00, 0x00],
     [0x0C, 0x18, 0x30, 0x30, 0x30, 0x18, 0x0C, 0x00],
     [0x30, 0x18, 0x0C, 0x0C, 0x0C, 0x18, 0x30, 0x00],
     [0x00, 0x66, 0x3C, 0xFF, 0x3C, 0x66, 0x00, 0x00],
     [0x00, 0x18, 0x18, 0x7E, 0x18, 0x18, 0x00, 0x00],
     [0x00, 0x00, 0x00, 0x00, 0x00, 0x18, 0x18, 0x30],
     [0x00, 0x00, 0x00, 0x7E, 0x00, 0x00, 0x00, 0x00],
     [0x00, 0x00, 0x00, 0x00, 0x00, 0x18, 0x18, 0x00],
     [0x00, 0x06, 0x0C, 0x18, 0x30, 0x60, 0xC0, 0x00],
     [0x3C, 0x66, 0x66, 0x6E, 0x76, 0x66, 0x3C, 0x00],
     [0x18, 0x38, 0x18, 0x18, 0x18, 0x18, 0x7E, 0x00],
     [0x3C, 0x66, 0x06, 0x0C, 0x30, 0x60, 0x7E, 0x00],
     [0x3C, 0x66, 0x06, 0x1C, 0x06, 0x66, 0x3C, 0x00],
     [0x06, 0x0E, 0x1E, 0x36, 0x66, 0x7F, 0x06, 0x00],
     [0x7E, 0x60, 0x7C, 0x06, 0x06, 0x66, 0x3C, 0x00],
     [0x3C, 0x66, 0x60, 0x7C, 0x66, 0x66, 0x3C, 0x00],
     [0x7E, 0x06, 0x0C, 0x18, 0x30, 0x30, 0x30, 0x00],
     [0x3C, 0x66, 0x66, 0x3C, 0x66, 0x66, 0x3C, 0x00],
     [0x3C, 0x66, 0x66, 0x3E, 0x06, 0x66, 0x3C, 0x00],
     [0x00, 0x18, 0x18, 0x00, 0x00, 0x18, 0x18, 0x00],
     [0x00, 0x18, 0x18, 0x00, 0x00, 0x18, 0x18, 0x30],
     [0x06, 0x18, 0x60, 0xC0, 0x60, 0x18, 0x06, 0x00],
     [0x00, 0x00, 0x7E, 0x00, 0x7E, 0x00, 0x00, 0x00],
     [0x60, 0x18, 0x06, 0x03, 0x06, 0x18, 0x60, 0x00],
     [0x3C, 0x66, 0x0C, 0x18, 0x18, 0x00, 0x18, 0x00],
     [0x3C, 0x66, 0x6E, 0x6E, 0x60, 0x62, 0x3C, 0x00],
     [0x18, 0x3C, 0x66, 0x66, 0x7E, 0x66, 0x66, 0x00],
     [0x7C, 0x66, 0x66, 0x7C, 0x66, 0x66, 0x7C, 0x00],
     [0x3C, 0x66, 0x60, 0x60, 0x60, 0x66, 0x3C, 0x00],
     [0xF8, 0x6C, 0x66, 0x66, 0x66, 0x6C, 0xF8, 0x00],
     [0x7E, 0x60, 0x60, 0x78, 0x60, 0x60, 0x7E, 0x00],
     [0x7E, 0x60, 0x60, 0x78, 0x60, 0x60, 0x60, 0x00],
     [0x3C, 0x66, 0x60, 0x6E, 0x66, 0x66, 0x3C, 0x00],
     [0x66, 0x66, 0x66, 0x7E, 0x66, 0x66, 0x66, 0x00],
     [0x3C, 0x18, 0x18, 0x18, 0x18, 0x18, 0x3C, 0x00],
     [0x1E, 0x0C, 0x0C, 0x0C, 0xCC, 0xCC, 0x78, 0x00],
     [0xE6, 0x66, 0x6C, 0x78, 0x6C, 0x66, 0xE6, 0x00],
     [0xF0, 0x60, 0x60, 0x60, 0x60, 0x60, 0xF0, 0x00],
     [0xC6, 0xEE, 0xFE, 0xD6, 0xC6, 0xC6, 0xC6, 0x00],
     [0xC6, 0xE6, 0xF6, 0xDE, 0xCE, 0xC6, 0xC6, 0x00],
     [0x3C, 0x66, 0x66, 0x66, 0x66, 0x66, 0x3C, 0x00],
     [0xFC, 0x66, 0x66, 0x7C, 0x60, 0x60, 0xF0, 0x00],
     [0x7C, 0x66, 0x66, 0x7C, 0x6C, 0x66, 0x63, 0x00],
     [0xFC, 0x66, 0x66, 0x7C, 0x6C, 0x66, 0xE3, 0x00],
     [0x3C, 0x66, 0x60, 0x3C, 0x06, 0x66, 0x3C, 0x00],
     [0x7E, 0x18, 0x18, 0x18, 0x18, 0x18, 0x18, 0x00],
     [0x66, 0x66, 0x66, 0x66, 0x66, 0x66, 0x3C, 0x00],
     [0x66, 0x66, 0x66, 0x66, 0x66, 0x3C, 0x18, 0x00],
     [0xC6, 0xC6, 0xC6, 0xD6, 0xFE, 0xEE, 0xC6, 0x00],
     [0xC3, 0x66, 0x3C, 0x18, 0x3C, 0x66, 0xC3, 0x00],
     [0xC3, 0x66, 0x3C, 0x18, 0x18, 0x18, 0x18, 0x00],
     [0xFE, 0x06, 0x0C, 0x18, 0x30, 0x60, 0xFE, 0x00],
     [0x3C, 0x30, 0x30, 0x30, 0x30, 0x30, 0x3C, 0x00],
     [0x00, 0xC0, 0x60, 0x30, 0x18, 0x0C, 0x06, 0x00],
     [0x3C, 0x0C, 0x0C, 0x0C, 0x0C, 0x0C, 0x3C, 0x00],
     [0x10, 0x28, 0x44, 0x00, 0x00, 0x00, 0x00, 0x00],
     [0x00, 0x00, 0x00, 0x00, 0x00, 0x00, 0xFF, 0x00],
     [0x18, 0x0C, 0x00, 0x00, 0x00, 0x00, 0x00, 0x00],
     [0x00, 0x00, 0x3C, 0x06, 0x3E, 0x66, 0x3E, 0x00],
     [0x00, 0x60, 0x60, 0x7C, 0x66, 0x66, 0x7C, 0x00],
     [0x00, 0x00, 0x3C, 0x60, 0x60, 0x60, 0x3C, 0x00],
     [0x00, 0x06, 0x06, 0x3E, 0x66, 0x66, 0x3E, 0x00],
     [0x00, 0x00, 0x3C, 0x66, 0x7E, 0x60, 0x3C, 0x00],
     [0x00, 0x0E, 0x18, 0x3E, 0x18, 0x18, 0x18, 0x00],
     [0x00, 0x00, 0x3E, 0x66, 0x66, 0x3E, 0x06, 0x7C],
     [0x00, 0x60, 0x60, 0x7C, 0x66, 0x66, 0x66, 0x00],
     [0x00, 0x18, 0x00, 0x18, 0x18, 0x18, 0x18, 0x00],
     [0x00, 0x06, 0x00, 0x06, 0x06, 0x06, 0x06, 0x3C],
     [0x00, 0x60, 0x60, 0x66, 0x7C, 0x66, 0x66, 0x00],
     [0x00, 0x38, 0x18, 0x18, 0x18, 0x18, 0x3C, 0x00],
     [0x00, 0x00, 0x66, 0xFE, 0xD6, 0xC6, 0xC6, 0x00],
     [0x00, 0x00, 0x7C, 0x66, 0x66, 0x66, 0x66, 0x00],
     [0x00, 0x00, 0x3C, 0x66, 0x66, 0x66, 0x3C, 0x00],
     [0x00, 0x00, 0x7C, 0x66, 0x66, 0x7C, 0x60, 0x60],
     [0x00, 0x00, 0x3E, 0x66, 0x66, 0x3E, 0x06, 0x06],
     [0x00, 0x00, 0x5C, 0x62, 0x60, 0x60, 0x60, 0x00],
     [0x00, 0x00, 0x3C, 0x60, 0x3C, 0x06, 0x3C, 0x00],
     [0x00, 0x18, 0x7E, 0x18, 0x18, 0x18, 0x0E, 0x00],
     [0x00, 0x00, 0x66, 0x66, 0x66, 0x66, 0x3E, 0x00],
     [0x00, 0x00, 0x66, 0x66, 0x66, 0x3C, 0x18, 0x00],
     [0x00, 0x00, 0xC6, 0xD6, 0xFE, 0xEE, 0xC6, 0x00],
     [0x00, 0x00, 0x66, 0x3C, 0x18, 0x3C, 0x66, 0x00],
     [0x00, 0x00, 0x66, 0x66, 0x66, 0x3E, 0x0C, 0x78],
     [0x00, 0x00, 0x7E, 0x0C, 0x18, 0x30, 0x7E, 0x00],
     [0x18, 0x18, 0x18, 0x7E, 0x18, 0x18, 0x18, 0x00],
     [0x18, 0x18, 0x18, 0x18, 0x18, 0x18, 0x18, 0x00],
     [0x18, 0x18, 0x18, 0x7E, 0x18, 0x18, 0x18, 0x00],
     [0x76, 0xDC, 0x00, 0x00, 0x00, 0x00, 0x00, 0x00],
     [0x00, 0x00, 0x00, 0x00, 0x00, 0x00, 0x00, 0x00]]"

definition mouse_pointer :: "u8 list" where
  "mouse_pointer =
    [1, 1, 0, 0, 0, 0, 0, 0, 0, 0, 0, 0,
     1, 2, 1, 0, 0, 0, 0, 0, 0, 0, 0, 0,
     1, 2, 2, 1, 0, 0, 0, 0, 0, 0, 0, 0,
     1, 2, 2, 2, 1, 0, 0, 0, 0, 0, 0, 0,
     1, 2, 2, 2, 2, 1, 0, 0, 0, 0, 0, 0,
     1, 2, 2, 2, 2, 2, 1, 0, 0, 0, 0, 0,
     1, 2, 2, 2, 2, 2, 2, 1, 0, 0, 0, 0,
     1, 2, 2, 2, 2, 2, 2, 2, 1, 0, 0, 0,
     1, 2, 2, 2, 2, 2, 2, 2, 2, 1, 0, 0,
     1, 2, 2, 2, 2, 2, 1, 1, 1, 1, 0, 0,
     1, 2, 2, 1, 2, 2, 1, 0, 0, 0, 0, 0,
     1, 1, 1, 0, 1, 2, 2, 1, 0, 0, 0, 0,
     0, 0, 0, 0, 1, 2, 2, 1, 0, 0, 0, 0,
     0, 0, 0, 0, 0, 1, 2, 2, 1, 0, 0, 0,
     0, 0, 0, 0, 0, 1, 2, 2, 1, 0, 0, 0,
     0, 0, 0, 0, 0, 0, 1, 1, 0, 0, 0, 0,
     0, 0, 0, 0, 0, 0, 0, 0, 0, 0, 0, 0,
     0, 0, 0, 0, 0, 0, 0, 0, 0, 0, 0, 0]"

lemma length_font: "length font8x8_basic = 96"
  by (simp add: font8x8_basic_def)

lemma length_glyph: "i < 96 \<Longrightarrow> length (font8x8_basic ! i) = 8"
proof -
  have "list_all (\<lambda>r. length r = 8) font8x8_basic" by (simp add: font8x8_basic_def)
  then show "i < 96 \<Longrightarrow> length (font8x8_basic ! i) = 8" by (simp add: list_all_length length_font)
qed

lemma length_mouse_pointer: "length mouse_pointer = 216"
  by (simp add: mouse_pointer_def)

end
