(* ===== verification/Loops.thy ===== *)
theory Loops
  imports Prelude
begin

text \<open>
  Counting loops with a body that may fault, used by the drawing code and the games:
  \<open>for (i = 0; i < n; i++) body\<close> is \<open>for_loop n body\<close>, and an invariant indexed by the counter
  is enough to show that the loop returns and what holds then.
\<close>

fun for_loop :: "nat \<Rightarrow> (nat \<Rightarrow> 'a \<Rightarrow> 'a option) \<Rightarrow> 'a \<Rightarrow> 'a option" where
  "for_loop 0 body s = Some s"
| "for_loop (Suc n) body s = for_loop n body s \<bind> body n"

lemma for_loop_inv:
  assumes "P 0 s" and "\<And>i s. i < n \<Longrightarrow> P i s \<Longrightarrow> \<exists>s'. body i s = Some s' \<and> P (Suc i) s'"
  shows "\<exists>s'. for_loop n body s = Some s' \<and> P n s'"
  using assms(2)
proof (induction n)
  case 0
  then show ?case using assms(1) by simp
next
  case (Suc n)
  then obtain s1 where "for_loop n body s = Some s1" "P n s1" by force
  moreover obtain s2 where "body n s1 = Some s2" "P (Suc n) s2"
    using Suc.prems [of n s1] \<open>P n s1\<close> by auto
  ultimately show ?case by simp
qed

lemma for_loop_cong:
  "(\<And>i s. i < n \<Longrightarrow> f i s = g i s) \<Longrightarrow> for_loop n f s = for_loop n g s"
proof (induction n)
  case (Suc n)
  then have "for_loop n f s = for_loop n g s" by simp
  with Suc.prems [of n] show ?case by (cases "for_loop n g s") simp_all
qed simp

text \<open>Filling an array: \<open>for (i = 0; i < n; i++) a[i] = f(i)\<close>.\<close>

lemma for_loop_fill:
  "n \<le> length a \<Longrightarrow>
   for_loop n (\<lambda>i b. arr_set b (int i) (f i)) a = Some (map f [0..<n] @ drop n a)"
proof (induction n)
  case (Suc n)
  then have "for_loop n (\<lambda>i b. arr_set b (int i) (f i)) a = Some (map f [0..<n] @ drop n a)" by simp
  moreover have "(map f [0..<n] @ drop n a)[n := f n] = map f [0..<Suc n] @ drop (Suc n) a"
    using Suc.prems by (simp add: list_update_append Cons_nth_drop_Suc [symmetric])
  ultimately show ?case using Suc.prems by (simp add: arr_set_def)
qed simp

text \<open>Two nested loops over a row-major grid are one loop over its cells.\<close>

lemma for_loop_add:
  "for_loop (a + b) body s = for_loop a body s \<bind> for_loop b (\<lambda>i. body (a + i))"
  by (induction b) simp_all

lemma for_loop_grid:
  "for_loop n (\<lambda>i. for_loop m (\<lambda>j. body i j)) s = for_loop (n * m) (\<lambda>k. body (k div m) (k mod m)) s"
proof (cases "m = 0")
  case True
  then show ?thesis by (induction n) simp_all
next
  case False
  show ?thesis
  proof (induction n)
    case (Suc n)
    have "for_loop m (body n) = for_loop m (\<lambda>k. body ((n * m + k) div m) ((n * m + k) mod m))"
      using False by (intro ext for_loop_cong) simp
    moreover have "Suc n * m = n * m + m" by simp
    ultimately show ?case using Suc by (simp only: for_loop.simps for_loop_add)
  qed simp
qed

end
