(* ===== verification/Console.thy ===== *)
theory Console
  imports Font Loops KHeap
begin

text \<open>
  The graphics console, src/core/graphics/console.cpp: the frame buffer, the hidden back buffer,
  pixels, glyphs, the text cursor of \<open>Print\<close> and the mouse pointer with the pixels saved under it.
  The screen is specified as a function from coordinates to colours; every drawing operation is a
  sequence of pixels, so that it is safe at any coordinates because \<open>PutPixel\<close> is.
\<close>

section \<open>State\<close>

text \<open>\<open>back_buffer\<close> is the frame buffer itself until \<open>InitDoubleBuffer\<close>, then a block of its own,
  or the null pointer when the heap had no room for one.\<close>

datatype back_buffer = Front | Hidden "u32 list" | NullBuffer

record console =
  framebuffer :: "u32 list"
  back_buf :: back_buffer
  screen_width :: u32
  screen_height :: u32
  cursor_x :: u32
  cursor_y :: u32
  mouse_backbuffer :: "u32 list"
  prev_mouse_x :: int
  prev_mouse_y :: int

definition draw_buffer :: "console \<Rightarrow> u32 list option" where
  "draw_buffer c = (case back_buf c of Front \<Rightarrow> Some (framebuffer c) | Hidden b \<Rightarrow> Some b | NullBuffer \<Rightarrow> None)"

definition set_draw_buffer :: "u32 list \<Rightarrow> console \<Rightarrow> console" where
  "set_draw_buffer b c = (case back_buf c of Front \<Rightarrow> c\<lparr>framebuffer := b\<rparr> | _ \<Rightarrow> c\<lparr>back_buf := Hidden b\<rparr>)"

definition store_pixel :: "int \<Rightarrow> u32 \<Rightarrow> console \<Rightarrow> console option" where
  "store_pixel i color c = do {
     b \<leftarrow> draw_buffer c; b' \<leftarrow> arr_set b i color; Some (set_draw_buffer b' c)
   }"

section \<open>Pixels\<close>

text \<open>The test that begins \<open>GetPixel\<close> and \<open>PutPixel\<close>, and the index \<open>y * screen_width + x\<close>, which is
  computed in 32 bits without sign.\<close>

definition off_screen :: "console \<Rightarrow> int \<Rightarrow> int \<Rightarrow> bool" where
  "off_screen c x y \<longleftrightarrow> x < 0 \<or> sint (screen_width c) \<le> x \<or> y < 0 \<or> sint (screen_height c) \<le> y"

definition pixel_index :: "console \<Rightarrow> int \<Rightarrow> int \<Rightarrow> u32" where
  "pixel_index c x y = word_of_int y * screen_width c + word_of_int x"

definition GetPixel :: "int \<Rightarrow> int \<Rightarrow> console \<Rightarrow> u32 option" where
  "GetPixel x y c =
     (if off_screen c x y then Some 0
      else do { b \<leftarrow> draw_buffer c; arr_get b (uint (pixel_index c x y)) })"

definition PutPixel :: "int \<Rightarrow> int \<Rightarrow> u32 \<Rightarrow> console \<Rightarrow> console option" where
  "PutPixel x y color c =
     (if off_screen c x y then Some c else store_pixel (uint (pixel_index c x y)) color c)"

section \<open>Buffers\<close>

definition screen_size :: "console \<Rightarrow> u32" where
  "screen_size c = screen_width c * screen_height c"

definition Console_Clear :: "u32 \<Rightarrow> console \<Rightarrow> console option" where
  "Console_Clear color c = do {
     c1 \<leftarrow> for_loop (unat (screen_size c)) (\<lambda>i. store_pixel (int i) color) c;
     Some (c1\<lparr>cursor_x := 0, cursor_y := 0\<rparr>)
   }"

definition Console_Init :: "u32 list \<Rightarrow> u32 \<Rightarrow> u32 \<Rightarrow> console \<Rightarrow> console option" where
  "Console_Init fb width height c =
     Console_Clear 0x000080 (c\<lparr>framebuffer := fb, screen_width := width, screen_height := height, back_buf := Front\<rparr>)"

text \<open>\<open>raw\<close> is what the memory of the new block held.\<close>

definition InitDoubleBuffer :: "u32 list \<Rightarrow> kheap \<Rightarrow> console \<Rightarrow> console \<times> kheap" where
  "InitDoubleBuffer raw h c =
     (let bytes = screen_width c * screen_height c * 4; (p, h') = kmalloc bytes h
      in (c\<lparr>back_buf := if p = 0 then NullBuffer else Hidden (take (unat bytes div 4) raw)\<rparr>, h'))"

definition Swap :: "console \<Rightarrow> console option" where
  "Swap c = (case back_buf c of
     Front \<Rightarrow> Some c
   | NullBuffer \<Rightarrow> None
   | Hidden b \<Rightarrow> map_option (\<lambda>fb. c\<lparr>framebuffer := fb\<rparr>)
       (for_loop (unat (screen_size c)) (\<lambda>i fb. arr_get b (int i) \<bind> arr_set fb (int i)) (framebuffer c)))"

section \<open>Text\<close>

text \<open>\<open>int index = c - 32\<close> with a signed \<open>char\<close>.\<close>

definition glyph_index :: "char \<Rightarrow> int" where
  "glyph_index c = sint (of_nat (of_char c) :: u8) - 32"

definition Console_PutChar :: "char \<Rightarrow> u32 \<Rightarrow> u32 \<Rightarrow> u32 \<Rightarrow> console \<Rightarrow> console option" where
  "Console_PutChar ch color x y c =
     (let index = glyph_index ch in
      if index < 0 \<or> 96 \<le> index then Some c
      else do {
        row \<leftarrow> arr_get font8x8_basic index;
        for_loop 8 (\<lambda>fy c. do {
          bits \<leftarrow> arr_get row (int fy);
          for_loop 8 (\<lambda>fx c.
            if bits AND drop_bit fx 0x80 \<noteq> 0
            then PutPixel (sint (x + of_nat fx)) (sint (y + of_nat fy)) color c else Some c) c
        }) c
      })"

fun PutStringAt :: "string \<Rightarrow> int \<Rightarrow> int \<Rightarrow> u32 \<Rightarrow> console \<Rightarrow> console option" where
  "PutStringAt [] cx cy color c = Some c"
| "PutStringAt (ch # s) cx cy color c =
     Console_PutChar ch color (word_of_int cx) (word_of_int cy) c \<bind> PutStringAt s (cx + 8) cy color"

definition print_newline :: "console \<Rightarrow> console" where
  "print_newline c = c\<lparr>cursor_x := 0, cursor_y := cursor_y c + 10\<rparr>"

definition print_char :: "char \<Rightarrow> console \<Rightarrow> console option" where
  "print_char ch c =
     (if ch = NL then Some (print_newline c)
      else if ch = CHR 0x08 then
        (let c1 = (if 8 \<le> cursor_x c then c\<lparr>cursor_x := cursor_x c - 8\<rparr> else c)
         in for_loop 8 (\<lambda>fy. for_loop 8 (\<lambda>fx.
              PutPixel (sint (cursor_x c1 + of_nat fx)) (sint (cursor_y c1 + of_nat fy)) 0x000080)) c1)
      else do {
        c1 \<leftarrow> Console_PutChar ch 0xFFFFFF (cursor_x c) (cursor_y c) c;
        let c2 = c1\<lparr>cursor_x := cursor_x c1 + 8\<rparr>;
        Some (if screen_width c2 \<le> cursor_x c2 then print_newline c2 else c2)
      })"

fun Console_Print :: "string \<Rightarrow> console \<Rightarrow> console option" where
  "Console_Print [] c = Some c"
| "Console_Print (ch # s) c = print_char ch c \<bind> Console_Print s"

section \<open>The mouse pointer\<close>

definition restore_background :: "console \<Rightarrow> console option" where
  "restore_background c =
     (if prev_mouse_x c \<noteq> -1
      then for_loop 18 (\<lambda>fy. for_loop 12 (\<lambda>fx c. do {
             p \<leftarrow> arr_get (mouse_backbuffer c) (int fy * 12 + int fx);
             PutPixel (prev_mouse_x c + int fx) (prev_mouse_y c + int fy) p c
           })) c
      else Some c)"

definition save_background :: "int \<Rightarrow> int \<Rightarrow> console \<Rightarrow> console option" where
  "save_background x y =
     for_loop 18 (\<lambda>fy. for_loop 12 (\<lambda>fx c. do {
       p \<leftarrow> GetPixel (x + int fx) (y + int fy) c;
       m \<leftarrow> arr_set (mouse_backbuffer c) (int fy * 12 + int fx) p;
       Some (c\<lparr>mouse_backbuffer := m\<rparr>)
     }))"

definition draw_pointer :: "int \<Rightarrow> int \<Rightarrow> console \<Rightarrow> console option" where
  "draw_pointer x y =
     for_loop 18 (\<lambda>fy. for_loop 12 (\<lambda>fx c. do {
       type \<leftarrow> arr_get mouse_pointer (int fy * 12 + int fx);
       if type = 1 then PutPixel (x + int fx) (y + int fy) 0x000000 c
       else if type = 2 then PutPixel (x + int fx) (y + int fy) 0xFFFFFF c
       else Some c
     }))"

definition DrawCursor :: "int \<Rightarrow> int \<Rightarrow> console \<Rightarrow> console option" where
  "DrawCursor x y c = do {
     c1 \<leftarrow> restore_background c;
     c2 \<leftarrow> save_background x y c1;
     c3 \<leftarrow> draw_pointer x y c2;
     Some (c3\<lparr>prev_mouse_x := x, prev_mouse_y := y\<rparr>)
   }"

section \<open>The screen as a function\<close>

definition on_screen :: "console \<Rightarrow> int \<times> int \<Rightarrow> bool" where
  "on_screen c = (\<lambda>(x, y). 0 \<le> x \<and> x < uint (screen_width c) \<and> 0 \<le> y \<and> y < uint (screen_height c))"

definition screen :: "console \<Rightarrow> int \<times> int \<Rightarrow> u32" where
  "screen c = (\<lambda>(x, y). case GetPixel x y c of Some v \<Rightarrow> v | None \<Rightarrow> 0)"

definition con_ok :: "console \<Rightarrow> bool" where
  "con_ok c \<longleftrightarrow> uint (screen_width c) < 2 ^ 30 \<and> uint (screen_height c) < 2 ^ 30
     \<and> uint (screen_width c) * uint (screen_height c) < 2 ^ 30
     \<and> (\<exists>b. draw_buffer c = Some b \<and> uint (screen_width c) * uint (screen_height c) \<le> int (length b))
     \<and> length (mouse_backbuffer c) = 216"

text \<open>What drawing leaves alone: everything but the buffer it draws into.\<close>

definition drawn :: "console \<Rightarrow> console \<Rightarrow> bool" where
  "drawn c d \<longleftrightarrow> con_ok d \<and> screen_width d = screen_width c \<and> screen_height d = screen_height c
     \<and> cursor_x d = cursor_x c \<and> cursor_y d = cursor_y c \<and> mouse_backbuffer d = mouse_backbuffer c
     \<and> prev_mouse_x d = prev_mouse_x c \<and> prev_mouse_y d = prev_mouse_y c
     \<and> (back_buf d = Front \<longleftrightarrow> back_buf c = Front) \<and> (back_buf c \<noteq> Front \<longrightarrow> framebuffer d = framebuffer c)"

lemma drawn_refl: "con_ok c \<Longrightarrow> drawn c c"
  by (simp add: drawn_def)

lemma drawn_trans: "drawn c d \<Longrightarrow> drawn d e \<Longrightarrow> drawn c e"
  by (auto simp: drawn_def)

lemma drawn_ok: "drawn c d \<Longrightarrow> con_ok d"
  by (simp add: drawn_def)

lemma sint_small: "uint (w :: u32) < 2 ^ 31 \<Longrightarrow> sint w = uint w"
  unfolding sint_uint by (rule signed_take_bit_int_eq_self) (simp_all add: order.trans [OF _ uint_ge_0])

lemma off_screen_iff: "con_ok c \<Longrightarrow> off_screen c x y \<longleftrightarrow> \<not> on_screen c (x, y)"
  by (auto simp: off_screen_def on_screen_def con_ok_def sint_small)

lemma drawn_on_screen: "drawn c d \<Longrightarrow> on_screen d p = on_screen c p"
  by (cases p) (simp add: drawn_def on_screen_def)

text \<open>Row-major indices: in range, and different for different points.\<close>

lemma grid_index_range:
  fixes w h x y :: int
  assumes "0 \<le> x" "x < w" "0 \<le> y" "y < h"
  shows "0 \<le> y * w + x" "y * w + x < w * h"
proof -
  have "y * w + x < y * w + w" using assms by simp
  also have "\<dots> = (y + 1) * w" by (simp add: algebra_simps)
  also have "\<dots> \<le> h * w" using assms by (intro mult_right_mono) auto
  finally show "y * w + x < w * h" by (simp add: mult.commute)
  show "0 \<le> y * w + x" using assms by simp
qed

lemma grid_index_inj:
  fixes w x y x' y' :: int
  assumes "0 \<le> x" "x < w" "0 \<le> x'" "x' < w" "y * w + x = y' * w + x'"
  shows "x = x' \<and> y = y'"
proof -
  have "(y * w + x) div w = y" "(y' * w + x') div w = y'" using assms(1-4) by simp_all
  then have "y = y'" using assms(5) by simp
  then show ?thesis using assms(5) by simp
qed

lemma pixel_index_uint:
  assumes "con_ok c" "on_screen c (x, y)"
  shows "uint (pixel_index c x y) = y * uint (screen_width c) + x"
proof -
  have r: "0 \<le> y * uint (screen_width c) + x" "y * uint (screen_width c) + x < 2 ^ 30"
    using grid_index_range [of x "uint (screen_width c)" y "uint (screen_height c)"] assms
    by (auto simp: con_ok_def on_screen_def)
  have "pixel_index c x y = word_of_int (y * uint (screen_width c) + x)"
    by (simp add: pixel_index_def)
  then show ?thesis using r by (simp only: uint_word_of_int) simp
qed

lemma con_okE:
  assumes "con_ok c"
  obtains b where "draw_buffer c = Some b"
    "uint (screen_width c) * uint (screen_height c) \<le> int (length b)"
  using assms by (auto simp: con_ok_def)

lemma draw_buffer_set [simp]:
  "draw_buffer c = Some b \<Longrightarrow> draw_buffer (set_draw_buffer b' c) = Some b'"
  by (auto simp: draw_buffer_def set_draw_buffer_def split: back_buffer.splits)

lemma set_draw_buffer_fields [simp]:
  "screen_width (set_draw_buffer b c) = screen_width c" "screen_height (set_draw_buffer b c) = screen_height c"
  "cursor_x (set_draw_buffer b c) = cursor_x c" "cursor_y (set_draw_buffer b c) = cursor_y c"
  "mouse_backbuffer (set_draw_buffer b c) = mouse_backbuffer c"
  "prev_mouse_x (set_draw_buffer b c) = prev_mouse_x c" "prev_mouse_y (set_draw_buffer b c) = prev_mouse_y c"
  by (simp_all add: set_draw_buffer_def split: back_buffer.split)

lemma draw_buffer_fields [simp]:
  "draw_buffer (c\<lparr>cursor_x := a\<rparr>) = draw_buffer c" "draw_buffer (c\<lparr>cursor_y := a\<rparr>) = draw_buffer c"
  "draw_buffer (c\<lparr>mouse_backbuffer := m\<rparr>) = draw_buffer c"
  "draw_buffer (c\<lparr>prev_mouse_x := i\<rparr>) = draw_buffer c" "draw_buffer (c\<lparr>prev_mouse_y := i\<rparr>) = draw_buffer c"
  by (simp_all add: draw_buffer_def split: back_buffer.split)

lemma set_draw_buffer_drawn:
  assumes "con_ok c" "draw_buffer c = Some b" "length b' = length b"
  shows "drawn c (set_draw_buffer b' c)"
proof -
  have "con_ok (set_draw_buffer b' c)" using assms by (auto simp: con_ok_def)
  moreover have "(back_buf (set_draw_buffer b' c) = Front \<longleftrightarrow> back_buf c = Front)
      \<and> (back_buf c \<noteq> Front \<longrightarrow> framebuffer (set_draw_buffer b' c) = framebuffer c)"
    by (simp add: set_draw_buffer_def split: back_buffer.split)
  ultimately show ?thesis by (simp add: drawn_def)
qed

lemma GetPixel_spec:
  assumes "con_ok c"
  shows "GetPixel x y c = Some (screen c (x, y))" "\<not> on_screen c (x, y) \<Longrightarrow> screen c (x, y) = 0"
proof -
  obtain b where b: "draw_buffer c = Some b"
    "uint (screen_width c) * uint (screen_height c) \<le> int (length b)" using assms by (rule con_okE)
  have "\<exists>v. GetPixel x y c = Some v"
  proof (cases "on_screen c (x, y)")
    case True
    then have "0 \<le> y * uint (screen_width c) + x" "y * uint (screen_width c) + x < int (length b)"
      using grid_index_range [of x "uint (screen_width c)" y "uint (screen_height c)"] b(2)
      by (auto simp: on_screen_def)
    then show ?thesis using b(1) True pixel_index_uint [OF assms True]
      by (simp add: GetPixel_def off_screen_iff [OF assms] arr_get_in)
  qed (simp add: GetPixel_def off_screen_iff [OF assms])
  then show "GetPixel x y c = Some (screen c (x, y))" by (auto simp: screen_def)
  show "\<not> on_screen c (x, y) \<Longrightarrow> screen c (x, y) = 0"
    by (simp add: screen_def GetPixel_def off_screen_iff [OF assms])
qed

lemma PutPixel_spec:
  assumes ok: "con_ok c"
  shows "\<exists>d. PutPixel x y color c = Some d \<and> drawn c d
    \<and> (\<forall>p. on_screen c p \<longrightarrow> screen d p = (if p = (x, y) then color else screen c p))"
proof (cases "on_screen c (x, y)")
  case False
  then show ?thesis using ok by (auto simp: PutPixel_def off_screen_iff drawn_refl)
next
  case True
  obtain b where b: "draw_buffer c = Some b"
    "uint (screen_width c) * uint (screen_height c) \<le> int (length b)" using ok by (rule con_okE)
  let ?w = "uint (screen_width c)"
  have r: "0 \<le> y * ?w + x" "y * ?w + x < int (length b)"
    using grid_index_range [of x ?w y "uint (screen_height c)"] True b(2) by (auto simp: on_screen_def)
  define d where "d = set_draw_buffer (b[nat (y * ?w + x) := color]) c"
  have put: "PutPixel x y color c = Some d"
    using r b(1) True by (simp add: PutPixel_def off_screen_iff [OF ok] store_pixel_def
      pixel_index_uint [OF ok True] arr_set_in d_def)
  have dr: "drawn c d" unfolding d_def by (rule set_draw_buffer_drawn [OF ok b(1)]) simp
  have "screen d p = (if p = (x, y) then color else screen c p)" if p: "on_screen c p" for p
  proof -
    obtain u v where uv: "p = (u, v)" by (cases p)
    have q: "0 \<le> v * ?w + u" "v * ?w + u < int (length b)"
      using grid_index_range [of u ?w v "uint (screen_height c)"] p b(2) uv by (auto simp: on_screen_def)
    have "y * ?w + x = v * ?w + u \<longleftrightarrow> p = (x, y)"
      using grid_index_inj [of x ?w u y v] True p uv by (auto simp: on_screen_def)
    then have "nat (y * ?w + x) = nat (v * ?w + u) \<longleftrightarrow> p = (x, y)" using r q by auto
    moreover have "on_screen d p" using p drawn_on_screen [OF dr] by simp
    moreover have "pixel_index d u v = pixel_index c u v" by (simp add: pixel_index_def d_def)
    moreover have "draw_buffer d = Some (b[nat (y * ?w + x) := color])" using b(1) by (simp add: d_def)
    ultimately show ?thesis
      using p uv q r b(1) pixel_index_uint [OF ok, of u v] off_screen_iff [OF drawn_ok [OF dr], of u v]
        off_screen_iff [OF ok, of u v]
      by (auto simp: screen_def GetPixel_def arr_get_in nth_list_update)
  qed
  with put dr show ?thesis by blast
qed

section \<open>Pictures\<close>

text \<open>A drawing operation draws a picture, a partial map from points to colours: whatever the screen,
  the operation returns, the points of the picture that are on the screen get its colours and
  nothing else changes. Pictures are composed by overriding.\<close>

type_synonym picture = "int \<times> int \<Rightarrow> u32 option"

definition paints :: "console \<Rightarrow> (console \<Rightarrow> console option) \<Rightarrow> picture \<Rightarrow> bool" where
  "paints c0 draw g \<longleftrightarrow> (\<forall>c. con_ok c \<and> drawn c0 c \<longrightarrow> (\<exists>d. draw c = Some d \<and> drawn c d
     \<and> (\<forall>p. on_screen c p \<longrightarrow> screen d p = (case g p of Some v \<Rightarrow> v | None \<Rightarrow> screen c p))))"

lemma paintsI:
  "(\<And>c. con_ok c \<Longrightarrow> drawn c0 c \<Longrightarrow> \<exists>d. draw c = Some d \<and> drawn c d
     \<and> (\<forall>p. on_screen c p \<longrightarrow> screen d p = (case g p of Some v \<Rightarrow> v | None \<Rightarrow> screen c p)))
   \<Longrightarrow> paints c0 draw g"
  by (simp add: paints_def)

lemma paintsE:
  assumes "paints c0 draw g" "drawn c0 c"
  obtains d where "draw c = Some d" "drawn c d" "drawn c0 d"
    "\<And>p. on_screen c p \<Longrightarrow> screen d p = (case g p of Some v \<Rightarrow> v | None \<Rightarrow> screen c p)"
  using assms drawn_ok [OF assms(2)] drawn_trans [OF assms(2)] unfolding paints_def by metis

lemma paints_PutPixel: "paints c0 (PutPixel x y color) [(x, y) \<mapsto> color]"
proof (rule paintsI)
  fix c assume "con_ok c"
  from PutPixel_spec [OF this, of x y color]
  show "\<exists>d. PutPixel x y color c = Some d \<and> drawn c d \<and> (\<forall>p. on_screen c p \<longrightarrow>
      screen d p = (case [(x, y) \<mapsto> color] p of Some v \<Rightarrow> v | None \<Rightarrow> screen c p))"
    by (auto simp: fun_upd_def)
qed

lemma paints_none: "paints c0 Some Map.empty"
  by (rule paintsI) (simp add: drawn_refl)

lemma paints_bind:
  assumes f: "paints c0 f g" and h: "paints c0 h k"
  shows "paints c0 (\<lambda>c. f c \<bind> h) (g ++ k)"
proof (rule paintsI)
  fix c assume "con_ok c" "drawn c0 c"
  obtain d where d: "f c = Some d" "drawn c d" "drawn c0 d"
    "\<And>p. on_screen c p \<Longrightarrow> screen d p = (case g p of Some v \<Rightarrow> v | None \<Rightarrow> screen c p)"
    by (rule paintsE [OF f \<open>drawn c0 c\<close>]) blast
  obtain e where e: "h d = Some e" "drawn d e"
    "\<And>p. on_screen d p \<Longrightarrow> screen e p = (case k p of Some v \<Rightarrow> v | None \<Rightarrow> screen d p)"
    by (rule paintsE [OF h d(3)]) blast
  have "screen e p = (case (g ++ k) p of Some v \<Rightarrow> v | None \<Rightarrow> screen c p)" if "on_screen c p" for p
    using e(3) [of p] d(4) [OF that] that drawn_on_screen [OF d(2)]
    by (simp add: map_add_def split: option.split)
  then show "\<exists>e. f c \<bind> h = Some e \<and> drawn c e \<and> (\<forall>p. on_screen c p \<longrightarrow>
      screen e p = (case (g ++ k) p of Some v \<Rightarrow> v | None \<Rightarrow> screen c p))"
    using d(1) e(1) drawn_trans [OF d(2) e(2)] by auto
qed

fun layers :: "nat \<Rightarrow> (nat \<Rightarrow> picture) \<Rightarrow> picture" where
  "layers 0 g = Map.empty"
| "layers (Suc n) g = layers n g ++ g n"

lemma paints_for_loop:
  "(\<And>i. i < n \<Longrightarrow> paints c0 (body i) (g i)) \<Longrightarrow> paints c0 (for_loop n body) (layers n g)"
proof (induction n)
  case 0
  have "for_loop 0 body = Some" by (rule ext) simp
  then show ?case by (simp add: paints_none)
next
  case (Suc n)
  have "for_loop (Suc n) body = (\<lambda>c. for_loop n body c \<bind> body n)" by (rule ext) simp
  then show ?case using paints_bind [of c0 "for_loop n body" "layers n g" "body n" "g n"] Suc by simp
qed

lemma layers_None: "layers n g p = None \<longleftrightarrow> (\<forall>i < n. g i p = None)"
  by (induction n) (auto simp: map_add_def less_Suc_eq split: option.split)

lemma layers_unique:
  "i < n \<Longrightarrow> (\<And>j. j < n \<Longrightarrow> j \<noteq> i \<Longrightarrow> g j p = None) \<Longrightarrow> layers n g p = g i p"
proof (induction n)
  case (Suc n)
  show ?case
  proof (cases "i = n")
    case True
    with Suc.prems(2) have "layers n g p = None" by (subst layers_None) auto
    with True show ?thesis by (simp add: map_add_def split: option.split)
  next
    case False
    then have "layers n g p = g i p" using Suc.prems by (intro Suc.IH) auto
    moreover have "g n p = None" using Suc.prems(2) [of n] False by simp
    ultimately show ?thesis by (simp add: map_add_def)
  qed
qed simp

text \<open>The picture of a double loop over a \<open>w\<close> by \<open>h\<close> box with its corner at \<open>(x, y)\<close>, cell by cell.\<close>

definition boxed :: "int \<Rightarrow> int \<Rightarrow> int \<Rightarrow> int \<Rightarrow> (nat \<Rightarrow> nat \<Rightarrow> u32 option) \<Rightarrow> picture" where
  "boxed x y w h f = (\<lambda>(u, v). if x \<le> u \<and> u < x + w \<and> y \<le> v \<and> v < y + h
     then f (nat (v - y)) (nat (u - x)) else None)"

lemma paints_box:
  assumes "\<And>j i. j < h \<Longrightarrow> i < w \<Longrightarrow> paints c0 (body j i) (case f j i of Some v \<Rightarrow> [(x + int i, y + int j) \<mapsto> v] | None \<Rightarrow> Map.empty)"
  shows "paints c0 (for_loop h (\<lambda>j. for_loop w (body j))) (boxed x y (int w) (int h) f)"
proof -
  define cell where "cell j i = (case f j i of Some v \<Rightarrow> [(x + int i, y + int j) \<mapsto> v] | None \<Rightarrow> Map.empty)" for j i
  have "paints c0 (for_loop h (\<lambda>j. for_loop w (body j))) (layers h (\<lambda>j. layers w (cell j)))"
    by (intro paints_for_loop) (simp add: assms cell_def)
  moreover have "layers h (\<lambda>j. layers w (cell j)) = boxed x y (int w) (int h) f"
  proof
    fix p :: "int \<times> int"
    obtain u v where p: "p = (u, v)" by (cases p)
    have cell: "cell j i p = (if u = x + int i \<and> v = y + int j then f j i else None)" for j i
      by (auto simp: cell_def p split: option.split)
    show "layers h (\<lambda>j. layers w (cell j)) p = boxed x y (int w) (int h) f p"
    proof (cases "x \<le> u \<and> u < x + int w \<and> y \<le> v \<and> v < y + int h")
      case True
      then have n: "nat (v - y) < h" "nat (u - x) < w" by auto
      have "layers w (cell (nat (v - y))) p = cell (nat (v - y)) (nat (u - x)) p"
        by (rule layers_unique [OF n(2)]) (auto simp: cell)
      moreover have "layers h (\<lambda>j. layers w (cell j)) p = layers w (cell (nat (v - y))) p"
        by (rule layers_unique [OF n(1)]) (auto simp: layers_None cell)
      ultimately show ?thesis using True by (simp add: cell [unfolded p] boxed_def p)
    next
      case False
      then have "cell j i p = None" if "j < h" "i < w" for j i using that by (auto simp: cell)
      then have "layers h (\<lambda>j. layers w (cell j)) p = None" by (simp add: layers_None)
      then show ?thesis using False by (auto simp: boxed_def p)
    qed
  qed
  ultimately show ?thesis by simp
qed

section \<open>What the operations draw\<close>

lemma sint_coordinate:
  assumes "- (2 ^ 30) \<le> x" "x < 2 ^ 30" "n < 2 ^ 30"
  shows "sint (word_of_int x + of_nat n :: u32) = x + int n"
proof -
  have "word_of_int x + of_nat n = (word_of_int (x + int n) :: u32)" by simp
  then have "sint (word_of_int x + of_nat n :: u32) = signed_take_bit 31 (x + int n)"
    by (simp only: sint_sbintrunc') simp
  also have "\<dots> = x + int n" using assms by (intro signed_take_bit_int_eq_self) auto
  finally show ?thesis .
qed

lemma sint_word_coordinate:
  "uint (w :: u32) < 2 ^ 30 \<Longrightarrow> n < 2 ^ 30 \<Longrightarrow> sint (w + of_nat n) = uint w + int n"
  using sint_coordinate [of "uint w" n] order.trans [OF _ uint_ge_0, of "- (2 ^ 30)" w] by simp

definition glyph_bit :: "char \<Rightarrow> nat \<Rightarrow> nat \<Rightarrow> bool" where
  "glyph_bit ch fy fx \<longleftrightarrow> 0 \<le> glyph_index ch \<and> font8x8_basic ! nat (glyph_index ch) ! fy AND drop_bit fx 0x80 \<noteq> 0"

definition glyph_picture :: "char \<Rightarrow> u32 \<Rightarrow> int \<Rightarrow> int \<Rightarrow> picture" where
  "glyph_picture ch color x y = boxed x y 8 8 (\<lambda>fy fx. if glyph_bit ch fy fx then Some color else None)"

lemma glyph_index_less: "glyph_index ch < 96"
  using sint_lt [of "of_nat (of_char ch) :: u8"] by (simp add: glyph_index_def)

lemma paints_PutChar:
  assumes "- (2 ^ 30) \<le> x" "x < 2 ^ 30" "- (2 ^ 30) \<le> y" "y < 2 ^ 30"
  shows "paints c0 (Console_PutChar ch color (word_of_int x) (word_of_int y)) (glyph_picture ch color x y)"
proof (cases "glyph_index ch < 0")
  case True
  have "Console_PutChar ch color (word_of_int x) (word_of_int y) = Some"
    by (rule ext) (simp add: Console_PutChar_def True)
  moreover have "glyph_picture ch color x y = Map.empty"
    using True by (auto simp: glyph_picture_def boxed_def glyph_bit_def)
  ultimately show ?thesis by (simp add: paints_none)
next
  case False
  define row where "row = font8x8_basic ! nat (glyph_index ch)"
  have row: "length row = 8" using False glyph_index_less [of ch] by (simp add: row_def length_glyph)
  define body where "body fy fx = (\<lambda>c. if row ! fy AND drop_bit fx 0x80 \<noteq> 0
     then PutPixel (sint (word_of_int x + of_nat fx :: u32)) (sint (word_of_int y + of_nat fy :: u32)) color c
     else Some c)" for fy fx
  have glyph: "arr_get font8x8_basic (glyph_index ch) = Some row"
    using False glyph_index_less [of ch] by (simp add: arr_get_def row_def length_font)
  have run: "Console_PutChar ch color (word_of_int x) (word_of_int y) c = for_loop 8 (\<lambda>fy. for_loop 8 (body fy)) c" for c
  proof -
    have "Console_PutChar ch color (word_of_int x) (word_of_int y) c
        = for_loop 8 (\<lambda>fy c. arr_get row (int fy) \<bind> (\<lambda>bits. for_loop 8 (\<lambda>fx c.
            if bits AND drop_bit fx 0x80 \<noteq> 0
            then PutPixel (sint (word_of_int x + of_nat fx :: u32)) (sint (word_of_int y + of_nat fy :: u32)) color c
            else Some c) c)) c"
      using False glyph_index_less [of ch] by (simp add: Console_PutChar_def glyph)
    also have "\<dots> = for_loop 8 (\<lambda>fy. for_loop 8 (body fy)) c"
    proof (rule for_loop_cong)
      fix i :: nat and s :: console assume "i < 8"
      with row have r: "arr_get row (int i) = Some (row ! i)" by (simp add: arr_get_def)
      show "arr_get row (int i) \<bind> (\<lambda>bits. for_loop 8 (\<lambda>fx c.
            if bits AND drop_bit fx 0x80 \<noteq> 0
            then PutPixel (sint (word_of_int x + of_nat fx :: u32)) (sint (word_of_int y + of_nat i :: u32)) color c
            else Some c) s) = for_loop 8 (body i) s"
        unfolding r Option.bind.bind_lunit by (rule for_loop_cong) (simp add: body_def)
    qed
    finally show ?thesis .
  qed
  have "paints c0 (for_loop 8 (\<lambda>fy. for_loop 8 (body fy)))
      (boxed x y (int 8) (int 8) (\<lambda>fy fx. if glyph_bit ch fy fx then Some color else None))"
  proof (rule paints_box)
    fix j i :: nat assume "j < 8" "i < 8"
    then have c: "sint (word_of_int x + of_nat i :: u32) = x + int i" "sint (word_of_int y + of_nat j :: u32) = y + int j"
      using assms by (auto intro!: sint_coordinate)
    have g: "glyph_bit ch j i \<longleftrightarrow> row ! j AND drop_bit i 0x80 \<noteq> 0"
      using False by (simp add: glyph_bit_def row_def)
    show "paints c0 (body j i) (case if glyph_bit ch j i then Some color else None of
        Some v \<Rightarrow> [(x + int i, y + int j) \<mapsto> v] | None \<Rightarrow> Map.empty)"
    proof (cases "glyph_bit ch j i")
      case True
      then have "body j i = PutPixel (x + int i) (y + int j) color" using c g by (intro ext) (simp add: body_def)
      then show ?thesis using True by (simp add: paints_PutPixel)
    next
      case F: False
      then have "body j i = Some" using g by (intro ext) (simp add: body_def)
      then show ?thesis using F by (simp add: paints_none)
    qed
  qed
  moreover have "Console_PutChar ch color (word_of_int x) (word_of_int y) = for_loop 8 (\<lambda>fy. for_loop 8 (body fy))"
    by (rule ext) (rule run)
  ultimately show ?thesis by (simp only: glyph_picture_def of_nat_numeral)
qed

fun string_picture :: "string \<Rightarrow> u32 \<Rightarrow> int \<Rightarrow> int \<Rightarrow> picture" where
  "string_picture [] color x y = Map.empty"
| "string_picture (ch # s) color x y = glyph_picture ch color x y ++ string_picture s color (x + 8) y"

lemma paints_PutStringAt:
  assumes "- (2 ^ 30) \<le> x" "x + 8 * int (length s) < 2 ^ 30" "- (2 ^ 30) \<le> y" "y < 2 ^ 30"
  shows "paints c0 (PutStringAt s x y color) (string_picture s color x y)"
  using assms(1,2)
proof (induction s arbitrary: x)
  case Nil
  have "PutStringAt [] x y color = Some" by (rule ext) simp
  then show ?case by (simp add: paints_none)
next
  case (Cons ch s)
  have eq: "PutStringAt (ch # s) x y color
      = (\<lambda>c. Console_PutChar ch color (word_of_int x) (word_of_int y) c \<bind> PutStringAt s (x + 8) y color)"
    by (rule ext) simp
  have "paints c0 (Console_PutChar ch color (word_of_int x) (word_of_int y)) (glyph_picture ch color x y)"
    using Cons.prems assms(3,4) by (intro paints_PutChar) auto
  moreover have "paints c0 (PutStringAt s (x + 8) y color) (string_picture s color (x + 8) y)"
    using Cons.prems by (intro Cons.IH) auto
  ultimately show ?case unfolding eq string_picture.simps by (rule paints_bind)
qed

subsection \<open>Clearing and presenting\<close>

lemma unat_le_int: "unat (w :: u32) \<le> n \<longleftrightarrow> uint w \<le> int n"
  by (simp only: unat_eq_nat_uint nat_le_iff)

lemma nat_less_unat: "0 \<le> k \<Longrightarrow> nat k < unat (w :: u32) \<longleftrightarrow> k < uint w"
  by (simp only: unat_eq_nat_uint nat_less_eq_zless)

lemma screen_size_uint:
  assumes "con_ok c"
  shows "uint (screen_width c) * uint (screen_height c) = uint (screen_size c)"
  using assms by (simp add: screen_size_def con_ok_def uint_word_arith_bintrs take_bit_int_eq_self)

lemma screen_buffer:
  assumes "con_ok c" "draw_buffer c = Some b" "on_screen c (x, y)"
  shows "screen c (x, y) = b ! nat (y * uint (screen_width c) + x)"
    "nat (y * uint (screen_width c) + x) < unat (screen_size c)"
proof -
  have r: "0 \<le> y * uint (screen_width c) + x" "y * uint (screen_width c) + x < uint (screen_size c)"
    using grid_index_range [of x "uint (screen_width c)" y "uint (screen_height c)"] assms(3)
    by (auto simp: on_screen_def screen_size_uint [OF assms(1), symmetric])
  then show "nat (y * uint (screen_width c) + x) < unat (screen_size c)" by (simp add: nat_less_unat)
  have "uint (screen_size c) \<le> int (length b)"
    using assms(1,2) screen_size_uint [OF assms(1)] by (simp add: con_ok_def)
  then show "screen c (x, y) = b ! nat (y * uint (screen_width c) + x)"
    using r assms pixel_index_uint [OF assms(1,3)] off_screen_iff [OF assms(1), of x y]
    by (simp add: screen_def GetPixel_def arr_get_in)
qed

lemma store_pixels:
  assumes "draw_buffer c = Some b" "n \<le> length b"
  shows "for_loop n (\<lambda>i. store_pixel (int i) color) c
    = Some (if n = 0 then c else set_draw_buffer (replicate n color @ drop n b) c)"
  using assms(2)
proof (induction n)
  case (Suc n)
  let ?c = "if n = 0 then c else set_draw_buffer (replicate n color @ drop n b) c"
  have db: "draw_buffer ?c = Some (replicate n color @ drop n b)" using assms(1) by simp
  have "(replicate n color @ drop n b)[n := color] = replicate (Suc n) color @ drop (Suc n) b"
    using Suc.prems by (simp add: list_update_append Cons_nth_drop_Suc [symmetric] replicate_append_same)
  moreover have "set_draw_buffer x (set_draw_buffer y c) = set_draw_buffer x c" for x y
    by (simp add: set_draw_buffer_def split: back_buffer.split)
  ultimately have "store_pixel (int n) color ?c = Some (set_draw_buffer (replicate (Suc n) color @ drop (Suc n) b) c)"
    using db Suc.prems by (simp add: store_pixel_def arr_set_def)
  then show ?case using Suc by simp
qed simp

lemma Clear_spec:
  assumes ok: "con_ok c"
  shows "\<exists>d. Console_Clear color c = Some d \<and> cursor_x d = 0 \<and> cursor_y d = 0
    \<and> drawn (c\<lparr>cursor_x := 0, cursor_y := 0\<rparr>) d \<and> (\<forall>p. on_screen c p \<longrightarrow> screen d p = color)"
proof -
  obtain b where b: "draw_buffer c = Some b"
    "uint (screen_width c) * uint (screen_height c) \<le> int (length b)" using ok by (rule con_okE)
  let ?n = "unat (screen_size c)"
  have n: "?n \<le> length b" using b(2) by (simp add: screen_size_uint [OF ok] unat_le_int)
  define e where "e = (if ?n = 0 then c else set_draw_buffer (replicate ?n color @ drop ?n b) c)"
  define d where "d = e\<lparr>cursor_x := 0, cursor_y := 0\<rparr>"
  have call: "Console_Clear color c = Some d"
    using store_pixels [OF b(1) n, of color] by (simp add: Console_Clear_def d_def e_def)
  have de: "drawn c e" using set_draw_buffer_drawn [OF ok b(1), of "replicate ?n color @ drop ?n b"] n
    by (simp add: e_def drawn_refl [OF ok])
  have okd: "con_ok d" using drawn_ok [OF de] by (simp add: d_def con_ok_def)
  have bd: "draw_buffer d = Some (replicate ?n color @ drop ?n b)"
  proof -
    have "draw_buffer e = Some (replicate ?n color @ drop ?n b)" using b(1) by (simp add: e_def)
    then show ?thesis by (simp add: d_def)
  qed
  have dd: "drawn (c\<lparr>cursor_x := 0, cursor_y := 0\<rparr>) d" using de okd by (simp add: d_def drawn_def)
  have "screen d p = color" if "on_screen c p" for p
  proof -
    obtain x y where p: "p = (x, y)" by (cases p)
    have "on_screen d (x, y)" using that drawn_on_screen [OF dd] by (simp add: p on_screen_def)
    moreover have "screen_width d = screen_width c" "screen_size d = screen_size c"
      using de by (simp_all add: d_def drawn_def screen_size_def)
    ultimately show ?thesis using screen_buffer [OF okd bd, of x y] by (simp add: p nth_append)
  qed
  then show ?thesis using call dd by (auto simp: d_def)
qed

text \<open>What the monitor shows: the frame buffer, row by row.\<close>

definition monitor :: "console \<Rightarrow> int \<times> int \<Rightarrow> u32" where
  "monitor c = (\<lambda>(x, y). framebuffer c ! nat (y * uint (screen_width c) + x))"

lemma Swap_spec:
  assumes ok: "con_ok c" and fb: "unat (screen_size c) \<le> length (framebuffer c)"
  shows "\<exists>d. Swap c = Some d \<and> con_ok d \<and> (\<forall>p. on_screen c p \<longrightarrow> monitor d p = screen c p \<and> screen d p = screen c p)
    \<and> (\<exists>f. d = c\<lparr>framebuffer := f\<rparr> \<and> length f = length (framebuffer c))"
proof (cases "back_buf c")
  case Front
  then have "Swap c = Some c" by (simp add: Swap_def)
  moreover have "monitor c p = screen c p" if "on_screen c p" for p
    using screen_buffer [OF ok, of "framebuffer c"] that Front
    by (cases p) (simp add: monitor_def draw_buffer_def)
  moreover have "c = c\<lparr>framebuffer := framebuffer c\<rparr>" by simp
  ultimately show ?thesis using ok by blast
next
  case NullBuffer
  then show ?thesis using ok by (simp add: con_ok_def draw_buffer_def)
next
  case (Hidden b)
  then have b: "draw_buffer c = Some b" by (simp add: draw_buffer_def)
  let ?n = "unat (screen_size c)"
  have n: "?n \<le> length b" using ok b screen_size_uint [OF ok] by (simp add: con_ok_def unat_le_int)
  have "for_loop ?n (\<lambda>i f. arr_get b (int i) \<bind> arr_set f (int i)) (framebuffer c)
      = for_loop ?n (\<lambda>i f. arr_set f (int i) (b ! i)) (framebuffer c)"
    using n by (intro for_loop_cong) (simp add: arr_get_def)
  also have "\<dots> = Some (map ((!) b) [0..<?n] @ drop ?n (framebuffer c))" by (rule for_loop_fill [OF fb])
  finally have call: "Swap c = Some (c\<lparr>framebuffer := map ((!) b) [0..<?n] @ drop ?n (framebuffer c)\<rparr>)"
    by (simp add: Swap_def Hidden)
  define d where "d = c\<lparr>framebuffer := map ((!) b) [0..<?n] @ drop ?n (framebuffer c)\<rparr>"
  have "con_ok d" using ok Hidden by (simp add: d_def con_ok_def draw_buffer_def)
  moreover have "monitor d p = screen c p \<and> screen d p = screen c p" if "on_screen c p" for p
  proof -
    obtain x y where p: "p = (x, y)" by (cases p)
    note sb = screen_buffer [OF ok b that [unfolded p]]
    have "monitor d p = b ! nat (y * uint (screen_width c) + x)"
      using sb(2) by (simp add: monitor_def d_def p nth_append)
    moreover have "screen d p = screen c p"
      using Hidden by (simp add: screen_def GetPixel_def d_def draw_buffer_def off_screen_def pixel_index_def p)
    ultimately show ?thesis using sb(1) by (simp add: p)
  qed
  moreover have "length (map ((!) b) [0..<?n] @ drop ?n (framebuffer c)) = length (framebuffer c)"
    using fb by simp
  ultimately show ?thesis using call by (auto simp: d_def)
qed

subsection \<open>The pointer\<close>

definition pointer_picture :: "int \<Rightarrow> int \<Rightarrow> picture" where
  "pointer_picture x y = boxed x y 12 18 (\<lambda>fy fx.
     if mouse_pointer ! (fy * 12 + fx) = 1 then Some 0x000000
     else if mouse_pointer ! (fy * 12 + fx) = 2 then Some 0xFFFFFF else None)"

text \<open>What the saved pixels would restore, and the screen without the pointer.\<close>

definition saved_picture :: "console \<Rightarrow> picture" where
  "saved_picture c = (if prev_mouse_x c \<noteq> -1
     then boxed (prev_mouse_x c) (prev_mouse_y c) 12 18 (\<lambda>fy fx. Some (mouse_backbuffer c ! (fy * 12 + fx)))
     else Map.empty)"

definition background :: "console \<Rightarrow> int \<times> int \<Rightarrow> u32" where
  "background c p = (case saved_picture c p of Some v \<Rightarrow> v | None \<Rightarrow> screen c p)"

lemma cell_index: "j < 18 \<Longrightarrow> i < 12 \<Longrightarrow> j * 12 + i < (216 :: nat)"
  by simp

lemma cell_arr_get: "length m = 216 \<Longrightarrow> j < 18 \<Longrightarrow> i < 12 \<Longrightarrow>
    arr_get m (int j * 12 + int i) = Some (m ! (j * 12 + i))"
  by (simp add: arr_get_def nat_add_distrib nat_mult_distrib)

lemma paints_draw_pointer: "paints c0 (draw_pointer x y) (pointer_picture x y)"
proof -
  define body where "body fy fx = (\<lambda>c. arr_get mouse_pointer (int fy * 12 + int fx) \<bind> (\<lambda>type.
     if type = 1 then PutPixel (x + int fx) (y + int fy) 0x000000 c
     else if type = 2 then PutPixel (x + int fx) (y + int fy) 0xFFFFFF c else Some c))" for fy fx
  have "paints c0 (for_loop 18 (\<lambda>j. for_loop 12 (body j))) (boxed x y (int 12) (int 18) (\<lambda>fy fx.
     if mouse_pointer ! (fy * 12 + fx) = 1 then Some 0x000000
     else if mouse_pointer ! (fy * 12 + fx) = 2 then Some 0xFFFFFF else None))"
  proof (rule paints_box)
    fix j i :: nat assume "j < 18" "i < 12"
    then have b: "body j i = (\<lambda>c. if mouse_pointer ! (j * 12 + i) = 1 then PutPixel (x + int i) (y + int j) 0x000000 c
       else if mouse_pointer ! (j * 12 + i) = 2 then PutPixel (x + int i) (y + int j) 0xFFFFFF c else Some c)"
      unfolding body_def by (simp add: cell_arr_get length_mouse_pointer)
    show "paints c0 (body j i) (case if mouse_pointer ! (j * 12 + i) = 1 then Some 0x000000
        else if mouse_pointer ! (j * 12 + i) = 2 then Some 0xFFFFFF else None of
        Some v \<Rightarrow> [(x + int i, y + int j) \<mapsto> v] | None \<Rightarrow> Map.empty)"
      unfolding b using paints_PutPixel [of c0 "x + int i" "y + int j"] paints_none [of c0] by auto
  qed
  moreover have "draw_pointer x y = for_loop 18 (\<lambda>j. for_loop 12 (body j))"
    unfolding draw_pointer_def body_def ..
  ultimately show ?thesis by (simp only: pointer_picture_def of_nat_numeral)
qed

lemma paints_cong:
  assumes "paints c0 f g" "\<And>c. drawn c0 c \<Longrightarrow> h c = f c"
  shows "paints c0 h g"
  using assms by (simp add: paints_def)

lemma paints_restore:
  assumes "con_ok c0"
  shows "paints c0 restore_background (saved_picture c0)"
proof (cases "prev_mouse_x c0 = -1")
  case True
  have "paints c0 Some (saved_picture c0)" using True by (simp add: saved_picture_def paints_none)
  then show ?thesis by (rule paints_cong) (simp add: restore_background_def drawn_def True)
next
  case False
  have len: "length (mouse_backbuffer c0) = 216" using assms by (simp add: con_ok_def)
  let ?px = "prev_mouse_x c0" and ?py = "prev_mouse_y c0"
  define body where "body fy fx = (\<lambda>c. arr_get (mouse_backbuffer c) (int fy * 12 + int fx) \<bind>
     (\<lambda>p. PutPixel (prev_mouse_x c + int fx) (prev_mouse_y c + int fy) p c))" for fy fx
  have "paints c0 (for_loop 18 (\<lambda>j. for_loop 12 (body j)))
      (boxed ?px ?py (int 12) (int 18) (\<lambda>fy fx. Some (mouse_backbuffer c0 ! (fy * 12 + fx))))"
  proof (rule paints_box)
    fix j i :: nat assume ji: "j < 18" "i < 12"
    have "paints c0 (body j i) [(?px + int i, ?py + int j) \<mapsto> mouse_backbuffer c0 ! (j * 12 + i)]"
      by (rule paints_cong [OF paints_PutPixel]) (use ji len in \<open>simp add: body_def drawn_def cell_arr_get\<close>)
    then show "paints c0 (body j i) (case Some (mouse_backbuffer c0 ! (j * 12 + i)) of
        Some v \<Rightarrow> [(?px + int i, ?py + int j) \<mapsto> v] | None \<Rightarrow> Map.empty)" by simp
  qed
  then have p: "paints c0 (for_loop 18 (\<lambda>j. for_loop 12 (body j))) (saved_picture c0)"
    using False by (simp only: saved_picture_def of_nat_numeral) simp
  have "restore_background c = for_loop 18 (\<lambda>j. for_loop 12 (body j)) c" if "drawn c0 c" for c
    unfolding restore_background_def body_def using that False by (simp only: drawn_def) simp
  then show ?thesis using p by (intro paints_cong [OF p])
qed

lemma save_background_spec:
  assumes ok: "con_ok c"
  shows "\<exists>m. save_background x y c = Some (c\<lparr>mouse_backbuffer := m\<rparr>) \<and> length m = 216
    \<and> (\<forall>j < 18. \<forall>i < 12. m ! (j * 12 + i) = screen c (x + int i, y + int j))"
proof -
  define body where "body fy fx = (\<lambda>c. GetPixel (x + int fx) (y + int fy) c \<bind> (\<lambda>p.
     arr_set (mouse_backbuffer c) (int fy * 12 + int fx) p \<bind> (\<lambda>m. Some (c\<lparr>mouse_backbuffer := m\<rparr>))))" for fy fx
  define P where "P k d \<longleftrightarrow> (\<exists>m. d = c\<lparr>mouse_backbuffer := m\<rparr> \<and> length m = 216
     \<and> (\<forall>l < k. m ! l = screen c (x + int (l mod 12), y + int (l div 12))))" for k d
  have "\<exists>d. for_loop (18 * 12) (\<lambda>k. body (k div 12) (k mod 12)) c = Some d \<and> P (18 * 12) d"
  proof (rule for_loop_inv)
    have "length (mouse_backbuffer c) = 216" using ok by (simp add: con_ok_def)
    then show "P 0 c" unfolding P_def by (intro exI [of _ "mouse_backbuffer c"]) simp
  next
    fix k d assume k: "k < 18 * (12 :: nat)" and "P k d"
    then obtain m where m: "d = c\<lparr>mouse_backbuffer := m\<rparr>" "length m = 216"
      "\<forall>l < k. m ! l = screen c (x + int (l mod 12), y + int (l div 12))" by (auto simp: P_def)
    have okd: "con_ok d" using ok m(1,2) by (simp add: con_ok_def)
    let ?v = "screen c (x + int (k mod 12), y + int (k div 12))"
    have "screen d p = screen c p" for p
      by (simp add: screen_def GetPixel_def m(1) off_screen_def pixel_index_def split: prod.split)
    then have "GetPixel (x + int (k mod 12)) (y + int (k div 12)) d = Some ?v"
      using GetPixel_spec(1) [OF okd] by simp
    moreover have "int (k div 12) * 12 + int (k mod 12) = int k" by (metis div_mult_mod_eq of_nat_add of_nat_mult of_nat_numeral)
    ultimately have step: "body (k div 12) (k mod 12) d = Some (c\<lparr>mouse_backbuffer := m[k := ?v]\<rparr>)"
      using k m(1,2) by (simp add: body_def arr_set_def)
    have "P (Suc k) (c\<lparr>mouse_backbuffer := m[k := ?v]\<rparr>)" unfolding P_def
      using m(2,3) k by (intro exI [of _ "m[k := ?v]"]) (auto simp: less_Suc_eq)
    with step show "\<exists>d'. body (k div 12) (k mod 12) d = Some d' \<and> P (Suc k) d'" by blast
  qed
  then obtain d where d: "for_loop 18 (\<lambda>j. for_loop 12 (body j)) c = Some d" "P (18 * 12) d"
    using for_loop_grid [of 18 12 body c] by auto
  then obtain m where m: "d = c\<lparr>mouse_backbuffer := m\<rparr>" "length m = 216"
    "\<forall>l < 216. m ! l = screen c (x + int (l mod 12), y + int (l div 12))" by (auto simp: P_def)
  have "save_background x y = for_loop 18 (\<lambda>j. for_loop 12 (body j))"
    unfolding save_background_def body_def ..
  moreover have "m ! (j * 12 + i) = screen c (x + int i, y + int j)" if "j < 18" "i < 12" for j i
    using m(3) cell_index [OF that] that by simp
  ultimately show ?thesis using d(1) m(1,2) by auto
qed

definition same_frame :: "console \<Rightarrow> console \<Rightarrow> bool" where
  "same_frame c d \<longleftrightarrow> screen_width d = screen_width c \<and> screen_height d = screen_height c
     \<and> cursor_x d = cursor_x c \<and> cursor_y d = cursor_y c
     \<and> (back_buf d = Front \<longleftrightarrow> back_buf c = Front) \<and> (back_buf c \<noteq> Front \<longrightarrow> framebuffer d = framebuffer c)"

lemma same_frame_trans: "same_frame c d \<Longrightarrow> same_frame d e \<Longrightarrow> same_frame c e"
  by (auto simp: same_frame_def)

lemma same_frame_on_screen: "same_frame c d \<Longrightarrow> on_screen d p = on_screen c p"
  by (cases p) (simp add: same_frame_def on_screen_def)

lemma DrawCursor_spec:
  assumes ok: "con_ok c"
  shows "\<exists>d. DrawCursor x y c = Some d \<and> con_ok d \<and> same_frame c d
    \<and> prev_mouse_x d = x \<and> prev_mouse_y d = y
    \<and> (\<forall>p. on_screen c p \<longrightarrow> screen d p = (case pointer_picture x y p of Some v \<Rightarrow> v | None \<Rightarrow> background c p))
    \<and> (x \<noteq> -1 \<longrightarrow> (\<forall>p. on_screen c p \<longrightarrow> background d p = background c p))"
proof -
  obtain c1 where c1: "restore_background c = Some c1" "drawn c c1"
    "\<And>p. on_screen c p \<Longrightarrow> screen c1 p = background c p"
    by (rule paintsE [OF paints_restore [OF ok] drawn_refl [OF ok]]) (auto simp: background_def)
  obtain m where m: "save_background x y c1 = Some (c1\<lparr>mouse_backbuffer := m\<rparr>)" "length m = 216"
    "\<forall>j < 18. \<forall>i < 12. m ! (j * 12 + i) = screen c1 (x + int i, y + int j)"
    using save_background_spec [OF drawn_ok [OF c1(2)]] by blast
  define c2 where "c2 = c1\<lparr>mouse_backbuffer := m\<rparr>"
  have ok2: "con_ok c2" using drawn_ok [OF c1(2)] m(2) by (simp add: c2_def con_ok_def)
  have s2: "screen c2 p = screen c1 p" for p
    by (simp add: screen_def GetPixel_def c2_def off_screen_def pixel_index_def split: prod.split)
  have on2: "on_screen c2 p = on_screen c p" for p
    using drawn_on_screen [OF c1(2), of p] by (cases p) (simp add: on_screen_def c2_def)
  obtain c3 where c3: "draw_pointer x y c2 = Some c3" "drawn c2 c3"
    "\<And>p. on_screen c2 p \<Longrightarrow> screen c3 p = (case pointer_picture x y p of Some v \<Rightarrow> v | None \<Rightarrow> screen c2 p)"
    by (rule paintsE [OF paints_draw_pointer drawn_refl [OF ok2]]) blast
  define d where "d = c3\<lparr>prev_mouse_x := x, prev_mouse_y := y\<rparr>"
  have call: "DrawCursor x y c = Some d" using c1(1) m(1) c3(1) by (simp add: DrawCursor_def c2_def d_def)
  have okd: "con_ok d" using drawn_ok [OF c3(2)] by (simp add: d_def con_ok_def)
  have frame: "same_frame c d" using c1(2) c3(2) by (simp add: same_frame_def drawn_def d_def c2_def)
  have sd: "screen d p = screen c3 p" for p
    by (simp add: screen_def GetPixel_def d_def off_screen_def pixel_index_def split: prod.split)
  have over: "screen d p = (case pointer_picture x y p of Some v \<Rightarrow> v | None \<Rightarrow> background c p)" if "on_screen c p" for p
    using c3(3) [of p] that c1(3) [OF that] by (simp add: sd s2 on2 split: option.split)
  have "background d p = background c p" if "x \<noteq> -1" "on_screen c p" for p
  proof -
    obtain u v where p: "p = (u, v)" by (cases p)
    have md: "mouse_backbuffer d = m" "prev_mouse_x d = x" "prev_mouse_y d = y"
      using c3(2) by (simp_all add: d_def drawn_def c2_def)
    show ?thesis
    proof (cases "x \<le> u \<and> u < x + 12 \<and> y \<le> v \<and> v < y + 18")
      case True
      then have "m ! (nat (v - y) * 12 + nat (u - x)) = screen c1 (x + int (nat (u - x)), y + int (nat (v - y)))"
        by (intro m(3) [rule_format]) auto
      also have "\<dots> = background c p" using True c1(3) [OF that(2)] by (simp add: p)
      finally show ?thesis using True that(1) md by (simp add: background_def saved_picture_def boxed_def p)
    next
      case False
      then have "pointer_picture x y p = None" "saved_picture d p = None"
        by (auto simp: pointer_picture_def saved_picture_def boxed_def p md)
      then show ?thesis using over [OF that(2)] by (simp add: background_def)
    qed
  qed
  then show ?thesis using call okd frame over by (auto simp: d_def)
qed

text \<open>Any number of pointer movements.\<close>

fun move_pointer :: "(int \<times> int) list \<Rightarrow> console \<Rightarrow> console option" where
  "move_pointer [] c = Some c"
| "move_pointer ((x, y) # ps) c = DrawCursor x y c \<bind> move_pointer ps"

lemma move_pointer_spec:
  "con_ok c \<Longrightarrow> (\<forall>q \<in> set ps. fst q \<noteq> -1) \<Longrightarrow>
   \<exists>d. move_pointer ps c = Some d \<and> con_ok d \<and> same_frame c d
     \<and> (\<forall>p. on_screen c p \<longrightarrow> background d p = background c p)
     \<and> (ps \<noteq> [] \<longrightarrow> (\<forall>p. on_screen c p \<longrightarrow> screen d p
          = (case pointer_picture (fst (last ps)) (snd (last ps)) p of Some v \<Rightarrow> v | None \<Rightarrow> background c p)))"
proof (induction ps arbitrary: c)
  case Nil
  then show ?case by (simp add: same_frame_def)
next
  case (Cons q ps)
  obtain x y where q: "q = (x, y)" by (cases q)
  with Cons.prems(2) have "x \<noteq> -1" by simp
  obtain d where d: "DrawCursor x y c = Some d" "con_ok d" "same_frame c d"
    "\<forall>p. on_screen c p \<longrightarrow> screen d p = (case pointer_picture x y p of Some v \<Rightarrow> v | None \<Rightarrow> background c p)"
    "\<forall>p. on_screen c p \<longrightarrow> background d p = background c p"
    using DrawCursor_spec [OF Cons.prems(1), of x y] \<open>x \<noteq> -1\<close> by blast
  have on: "on_screen d p = on_screen c p" for p by (rule same_frame_on_screen [OF d(3)])
  have "\<forall>q \<in> set ps. fst q \<noteq> -1" using Cons.prems(2) by simp
  from Cons.IH [OF d(2) this] obtain e where e: "move_pointer ps d = Some e" "con_ok e" "same_frame d e"
    "\<forall>p. on_screen d p \<longrightarrow> background e p = background d p"
    "ps \<noteq> [] \<longrightarrow> (\<forall>p. on_screen d p \<longrightarrow> screen e p
      = (case pointer_picture (fst (last ps)) (snd (last ps)) p of Some v \<Rightarrow> v | None \<Rightarrow> background d p))"
    by blast
  have bg: "background e p = background c p" if "on_screen c p" for p
    using e(4) [rule_format, of p] d(5) [rule_format, of p] that on [of p] by simp
  have sc: "screen e p = (case pointer_picture (fst (last ps)) (snd (last ps)) p of Some v \<Rightarrow> v | None \<Rightarrow> background c p)"
    if "ps \<noteq> []" "on_screen c p" for p
    using e(5) [rule_format, of p] d(5) [rule_format, of p] that on [of p] by (simp split: option.split)
  show ?case
  proof (cases "ps = []")
    case True
    with e(1) have "e = d" by simp
    then show ?thesis using d True by (simp add: q)
  next
    case False
    then show ?thesis using d(1) e(1,2) bg sc same_frame_trans [OF d(3) e(3)] by (simp add: q)
  qed
qed

section \<open>Printing\<close>

text \<open>What a printed character leaves alone: the rows above the text cursor.\<close>

lemma print_char_spec:
  assumes ok: "con_ok c" and x: "uint (cursor_x c) < uint (screen_width c)" and y: "uint (cursor_y c) < 2 ^ 29"
  shows "\<exists>d. print_char ch c = Some d \<and> con_ok d \<and> uint (cursor_x d) < uint (screen_width c)
    \<and> screen_width d = screen_width c \<and> screen_height d = screen_height c
    \<and> uint (cursor_y c) \<le> uint (cursor_y d) \<and> uint (cursor_y d) \<le> uint (cursor_y c) + 10
    \<and> (\<forall>p. on_screen c p \<and> snd p < uint (cursor_y c) \<longrightarrow> screen d p = screen c p)"
proof -
  have w: "uint (screen_width c) < 2 ^ 30" using ok by (simp add: con_ok_def)
  have nl: "uint (cursor_y (print_newline e)) = uint (cursor_y e) + 10" "uint (cursor_x (print_newline e)) = 0"
    "con_ok (print_newline e) = con_ok e" "screen (print_newline e) = screen e"
    "screen_width (print_newline e) = screen_width e" "screen_height (print_newline e) = screen_height e"
    if "uint (cursor_y e) < 2 ^ 29" for e
    using that by (simp_all add: print_newline_def uint_word_ariths con_ok_def screen_def GetPixel_def
      off_screen_def pixel_index_def fun_eq_iff)
  consider "ch = NL" | "ch = CHR 0x08" | "ch \<noteq> NL" "ch \<noteq> CHR 0x08" by blast
  then show ?thesis
  proof cases
    case 1
    then have "print_char ch c = Some (print_newline c)" by (simp add: print_char_def)
    moreover have "0 < uint (screen_width c)" using x uint_ge_0 [of "cursor_x c"] by linarith
    ultimately show ?thesis using nl [OF y] ok by simp
  next
    case 2
    define c1 where "c1 = (if 8 \<le> cursor_x c then c\<lparr>cursor_x := cursor_x c - 8\<rparr> else c)"
    have "uint (cursor_x c1) \<le> uint (cursor_x c)"
      by (auto simp: c1_def word_le_def uint_sub_if')
    moreover have s1: "screen c1 = screen c" "con_ok c1 = con_ok c" "cursor_y c1 = cursor_y c"
      "screen_width c1 = screen_width c" "screen_height c1 = screen_height c"
      by (simp_all add: c1_def screen_def GetPixel_def off_screen_def pixel_index_def con_ok_def fun_eq_iff)
    moreover have p: "paints c1 (for_loop 8 (\<lambda>fy. for_loop 8 (\<lambda>fx. PutPixel (sint (cursor_x c1 + of_nat fx)) (sint (cursor_y c1 + of_nat fy)) 0x000080)))
        (boxed (uint (cursor_x c1)) (uint (cursor_y c1)) (int 8) (int 8) (\<lambda>fy fx. Some 0x000080))"
    proof (rule paints_box)
      fix j i :: nat assume "j < 8" "i < 8"
      then have "sint (cursor_x c1 + of_nat i) = uint (cursor_x c1) + int i" "sint (cursor_y c1 + of_nat j) = uint (cursor_y c1) + int j"
        using calculation x y w by (auto intro!: sint_word_coordinate)
      then show "paints c1 (PutPixel (sint (cursor_x c1 + of_nat i)) (sint (cursor_y c1 + of_nat j)) 0x000080)
          (case Some 0x000080 of Some v \<Rightarrow> [(uint (cursor_x c1) + int i, uint (cursor_y c1) + int j) \<mapsto> v] | None \<Rightarrow> Map.empty)"
        by (simp add: paints_PutPixel)
    qed
    obtain d where d: "for_loop 8 (\<lambda>fy. for_loop 8 (\<lambda>fx. PutPixel (sint (cursor_x c1 + of_nat fx)) (sint (cursor_y c1 + of_nat fy)) 0x000080)) c1 = Some d"
      "drawn c1 d" "\<And>p. on_screen c1 p \<Longrightarrow> screen d p
        = (case boxed (uint (cursor_x c1)) (uint (cursor_y c1)) (int 8) (int 8) (\<lambda>fy fx. Some 0x000080) p of Some v \<Rightarrow> v | None \<Rightarrow> screen c1 p)"
      using paintsE [OF p drawn_refl] s1(2) ok by blast
    have "print_char ch c = Some d" unfolding print_char_def c1_def [symmetric] Let_def using 2 d(1) by simp
    moreover have "screen d p = screen c p" if "on_screen c p" "snd p < uint (cursor_y c)" for p
      using d(3) [of p] that s1 by (cases p) (auto simp: boxed_def on_screen_def)
    ultimately show ?thesis using d(2) s1 x by (auto simp: drawn_def)
  next
    case 3
    have p: "paints c (Console_PutChar ch 0xFFFFFF (cursor_x c) (cursor_y c)) (glyph_picture ch 0xFFFFFF (uint (cursor_x c)) (uint (cursor_y c)))"
      using paints_PutChar [of "uint (cursor_x c)" "uint (cursor_y c)" c ch "0xFFFFFF"] x y w
      by (simp add: order.trans [OF _ uint_ge_0])
    obtain c1 where c1: "Console_PutChar ch 0xFFFFFF (cursor_x c) (cursor_y c) c = Some c1" "drawn c c1"
      "\<And>q. on_screen c q \<Longrightarrow> screen c1 q = (case glyph_picture ch 0xFFFFFF (uint (cursor_x c)) (uint (cursor_y c)) q of Some v \<Rightarrow> v | None \<Rightarrow> screen c q)"
      by (rule paintsE [OF p drawn_refl [OF ok]]) blast
    define c2 where "c2 = c1\<lparr>cursor_x := cursor_x c1 + 8\<rparr>"
    have call: "print_char ch c = Some (if screen_width c2 \<le> cursor_x c2 then print_newline c2 else c2)"
      using 3 c1(1) by (simp add: print_char_def c2_def Let_def)
    have f: "screen_width c2 = screen_width c" "screen_height c2 = screen_height c" "cursor_y c2 = cursor_y c"
      using c1(2) by (simp_all add: drawn_def c2_def)
    have g: "screen c2 = screen c1" "con_ok c2 = con_ok c1" "con_ok c1"
      using drawn_ok [OF c1(2)]
      by (simp_all add: c2_def screen_def GetPixel_def off_screen_def pixel_index_def con_ok_def fun_eq_iff)
    have "screen c2 p = screen c p" if "on_screen c p" "snd p < uint (cursor_y c)" for p
      using c1(3) [OF that(1)] that(2) g(1) by (cases p) (simp add: glyph_picture_def boxed_def)
    moreover have "0 < uint (screen_width c)" using x uint_ge_0 [of "cursor_x c"] by linarith
    moreover have "uint (cursor_x c2) < uint (screen_width c)" if "\<not> screen_width c2 \<le> cursor_x c2"
      using that f(1) by (simp add: word_le_def)
    ultimately show ?thesis using call f g nl [of c2] y by (cases "screen_width c2 \<le> cursor_x c2") auto
  qed
qed

lemma Print_spec:
  "con_ok c \<Longrightarrow> uint (cursor_x c) < uint (screen_width c) \<Longrightarrow> uint (cursor_y c) + 10 * int (length s) < 2 ^ 29 \<Longrightarrow>
   \<exists>d. Console_Print s c = Some d \<and> con_ok d \<and> uint (cursor_x d) < uint (screen_width c)
    \<and> screen_width d = screen_width c \<and> screen_height d = screen_height c
    \<and> uint (cursor_y c) \<le> uint (cursor_y d) \<and> uint (cursor_y d) \<le> uint (cursor_y c) + 10 * int (length s)
    \<and> (\<forall>p. on_screen c p \<and> snd p < uint (cursor_y c) \<longrightarrow> screen d p = screen c p)"
proof (induction s arbitrary: c)
  case (Cons ch s)
  obtain d where d: "print_char ch c = Some d" "con_ok d" "uint (cursor_x d) < uint (screen_width c)"
    "screen_width d = screen_width c" "screen_height d = screen_height c"
    "uint (cursor_y c) \<le> uint (cursor_y d)" "uint (cursor_y d) \<le> uint (cursor_y c) + 10"
    "\<And>p. on_screen c p \<Longrightarrow> snd p < uint (cursor_y c) \<Longrightarrow> screen d p = screen c p"
    using print_char_spec [OF Cons.prems(1,2), of ch] Cons.prems(3) by auto
  have "uint (cursor_y d) + 10 * int (length s) < 2 ^ 29" using d(7) Cons.prems(3) by simp
  with Cons.IH [of d] d(2-4) obtain e where e: "Console_Print s d = Some e" "con_ok e"
    "uint (cursor_x e) < uint (screen_width d)" "screen_width e = screen_width d" "screen_height e = screen_height d"
    "uint (cursor_y d) \<le> uint (cursor_y e)" "uint (cursor_y e) \<le> uint (cursor_y d) + 10 * int (length s)"
    "\<And>p. on_screen d p \<Longrightarrow> snd p < uint (cursor_y d) \<Longrightarrow> screen e p = screen d p" by auto
  have on: "on_screen d p = on_screen c p" for p using d(4,5) by (cases p) (simp add: on_screen_def)
  have "screen e p = screen c p" if "on_screen c p" "snd p < uint (cursor_y c)" for p
    using e(8) [of p] d(8) [OF that] d(6) that on by simp
  then show ?case using d e by simp
qed simp

section \<open>What the console promises\<close>

text \<open>C39: the pointer leaves no trace. Over a screen that the console drew, any number of movements
  of the pointer leaves exactly the background with the pointer image over it at the last position,
  also where the image hangs over an edge of the screen, and the background itself is still the one
  the movements started with; the text cursor, the sizes and, with double buffering, the visible
  frame are not touched. (A position with \<open>x = -1\<close> is excluded: it is the code's mark for no pointer.)\<close>

theorem DrawCursor_leaves_no_trace:
  assumes "con_ok c" and "\<forall>q \<in> set (ps @ [(x, y)]). fst q \<noteq> -1"
  shows "\<exists>d. move_pointer (ps @ [(x, y)]) c = Some d \<and> con_ok d \<and> same_frame c d
    \<and> (\<forall>p. on_screen c p \<longrightarrow> background d p = background c p
        \<and> screen d p = (case pointer_picture x y p of Some v \<Rightarrow> v | None \<Rightarrow> background c p))"
  using move_pointer_spec [OF assms] by auto

definition small_screen :: console where
  "small_screen = \<lparr>framebuffer = replicate 1200 7, back_buf = Hidden (replicate 1200 5), screen_width = 40, screen_height = 30,
     cursor_x = 0, cursor_y = 0, mouse_backbuffer = replicate 216 0, prev_mouse_x = -1, prev_mouse_y = -1\<rparr>"

lemma small_screen_ok: "con_ok small_screen"
proof -
  have "length (replicate 1200 (5 :: u32)) = 1200" "length (replicate 216 (0 :: u32)) = 216"
    by (simp_all only: length_replicate)
  then show ?thesis by (simp add: con_ok_def small_screen_def draw_buffer_def del: replicate.simps)
qed

theorem DrawCursor_leaves_no_trace_witness:
  "\<exists>d. move_pointer ([(3, 4), (35, 20)] @ [(8, 9)]) small_screen = Some d \<and> con_ok d \<and> same_frame small_screen d
    \<and> (\<forall>p. on_screen small_screen p \<longrightarrow> background d p = background small_screen p
        \<and> screen d p = (case pointer_picture 8 9 p of Some v \<Rightarrow> v | None \<Rightarrow> background small_screen p))"
  by (rule DrawCursor_leaves_no_trace [OF small_screen_ok]) simp

text \<open>Redrawing under the pointer leaves a stale patch. After \<open>Clear\<close> (with which every frame of
  the desktop begins), \<open>DrawCursor\<close> still restores what it saved from the previous frame: wherever the
  old pointer box is on the screen and the new pointer is not, the pixel saved before the clearing
  comes back, whatever the new frame has drawn there.\<close>

theorem DrawCursor_stale_patch:
  assumes "con_ok c" and "prev_mouse_x c \<noteq> -1"
    and "i < 12" and "j < 18" and "p = (prev_mouse_x c + int i, prev_mouse_y c + int j)"
    and "on_screen c p" and "pointer_picture x y p = None"
  shows "\<exists>d e. Console_Clear color c = Some d \<and> DrawCursor x y d = Some e \<and> screen d p = color
    \<and> screen e p = mouse_backbuffer c ! (j * 12 + i)"
proof -
  obtain d where d: "Console_Clear color c = Some d" "drawn (c\<lparr>cursor_x := 0, cursor_y := 0\<rparr>) d"
    "\<forall>p. on_screen c p \<longrightarrow> screen d p = color"
    using Clear_spec [OF assms(1), of color] by blast
  have same: "prev_mouse_x d = prev_mouse_x c" "prev_mouse_y d = prev_mouse_y c"
    "mouse_backbuffer d = mouse_backbuffer c" using d(2) by (simp_all add: drawn_def)
  have "on_screen d p" using assms(6) drawn_on_screen [OF d(2), of p] by (cases p) (simp add: on_screen_def)
  moreover from DrawCursor_spec [OF drawn_ok [OF d(2)], of x y] obtain e where e: "DrawCursor x y d = Some e"
    "\<forall>p. on_screen d p \<longrightarrow> screen e p = (case pointer_picture x y p of Some v \<Rightarrow> v | None \<Rightarrow> background d p)"
    by blast
  ultimately have "DrawCursor x y d = Some e" "screen e p = background d p"
    using assms(7) e(2) [rule_format, of p] by simp_all
  moreover have "background d p = mouse_backbuffer c ! (j * 12 + i)"
    using assms(2-5) by (simp add: background_def saved_picture_def same boxed_def)
  moreover have "screen d p = color" by (rule d(3) [rule_format, OF assms(6)])
  ultimately show ?thesis using d(1) by (intro exI [of _ d] exI [of _ e]) simp
qed

definition pointed_screen :: console where
  "pointed_screen = small_screen\<lparr>prev_mouse_x := 2, prev_mouse_y := 3\<rparr>"

theorem DrawCursor_stale_patch_witness:
  "\<exists>d e. Console_Clear 9 pointed_screen = Some d \<and> DrawCursor 20 3 d = Some e \<and> screen d (2, 3) = 9 \<and> screen e (2, 3) = 0"
proof -
  have "con_ok pointed_screen" using small_screen_ok by (simp add: pointed_screen_def con_ok_def)
  then have "\<exists>d e. Console_Clear 9 pointed_screen = Some d \<and> DrawCursor 20 3 d = Some e \<and> screen d (2, 3) = 9
      \<and> screen e (2, 3) = mouse_backbuffer pointed_screen ! (0 * 12 + 0)"
    by (rule DrawCursor_stale_patch)
      (simp_all add: pointed_screen_def small_screen_def on_screen_def pointer_picture_def boxed_def)
  then show ?thesis by (simp add: pointed_screen_def small_screen_def)
qed

text \<open>Printing on the console never leaves the buffer and never scrolls. From a cursor inside the
  screen's width, the rows above the cursor stay as they are, the cursor never moves up and at most
  ten pixels down per character, and a text printed when the cursor is below the last row changes
  nothing on the screen at all.\<close>

theorem Console_Print_never_scrolls:
  assumes "con_ok c" and "uint (cursor_x c) < uint (screen_width c)"
    and "uint (cursor_y c) + 10 * int (length s) < 2 ^ 29"
  shows "\<exists>d. Console_Print s c = Some d \<and> con_ok d \<and> uint (cursor_x d) < uint (screen_width c)
    \<and> uint (cursor_y c) \<le> uint (cursor_y d) \<and> uint (cursor_y d) \<le> uint (cursor_y c) + 10 * int (length s)
    \<and> (\<forall>p. on_screen c p \<and> snd p < uint (cursor_y c) \<longrightarrow> screen d p = screen c p)
    \<and> (uint (screen_height c) \<le> uint (cursor_y c) \<longrightarrow> (\<forall>p. on_screen c p \<longrightarrow> screen d p = screen c p))"
proof -
  obtain d where d: "Console_Print s c = Some d" "con_ok d" "uint (cursor_x d) < uint (screen_width c)"
    "uint (cursor_y c) \<le> uint (cursor_y d)" "uint (cursor_y d) \<le> uint (cursor_y c) + 10 * int (length s)"
    "\<forall>p. on_screen c p \<and> snd p < uint (cursor_y c) \<longrightarrow> screen d p = screen c p"
    using Print_spec [OF assms] by blast
  have "screen d p = screen c p" if "uint (screen_height c) \<le> uint (cursor_y c)" "on_screen c p" for p
    using d(6) that by (cases p) (auto simp: on_screen_def)
  with d show ?thesis by blast
qed

theorem Console_Print_never_scrolls_witness:
  "\<exists>d. Console_Print ''lost'' (small_screen\<lparr>cursor_y := 30\<rparr>) = Some d
    \<and> (\<forall>p. on_screen (small_screen\<lparr>cursor_y := 30\<rparr>) p \<longrightarrow> screen d p = screen (small_screen\<lparr>cursor_y := 30\<rparr>) p)"
proof -
  have "con_ok (small_screen\<lparr>cursor_y := 30\<rparr>)" using small_screen_ok by (simp add: con_ok_def)
  from Console_Print_never_scrolls [OF this, of "''lost''"] show ?thesis
    by (auto simp: small_screen_def)
qed

section \<open>Printing is safe wherever the cursor is\<close>

text \<open>Outside the screen nothing is drawn, so that no bound on the cursor is needed for a call to return.\<close>

lemma for_loop_drawn:
  assumes "con_ok c" and "\<And>i d. i < n \<Longrightarrow> con_ok d \<Longrightarrow> \<exists>e. body i d = Some e \<and> drawn d e"
  shows "\<exists>d. for_loop n body c = Some d \<and> drawn c d"
proof (rule for_loop_inv [where P = "\<lambda>_ d. drawn c d"])
  show "drawn c c" using assms(1) by (rule drawn_refl)
next
  fix i d assume "i < n" "drawn c d"
  then show "\<exists>e. body i d = Some e \<and> drawn c e" using assms(2) [of i d] drawn_ok drawn_trans by blast
qed

lemma PutPixel_drawn: "con_ok c \<Longrightarrow> \<exists>d. PutPixel x y color c = Some d \<and> drawn c d"
  using PutPixel_spec [of c x y color] by blast

lemma Console_PutChar_drawn:
  assumes "con_ok c"
  shows "\<exists>d. Console_PutChar ch color x y c = Some d \<and> drawn c d"
proof (cases "glyph_index ch < 0")
  case True
  then show ?thesis using assms by (simp add: Console_PutChar_def Let_def drawn_refl)
next
  case False
  define row where "row = font8x8_basic ! nat (glyph_index ch)"
  have row: "length row = 8" using False glyph_index_less [of ch] by (simp add: row_def length_glyph)
  have glyph: "arr_get font8x8_basic (glyph_index ch) = Some row"
    using False glyph_index_less [of ch] by (simp add: arr_get_def row_def length_font)
  have "\<exists>d. for_loop 8 (\<lambda>fy c. do {
          bits \<leftarrow> arr_get row (int fy);
          for_loop 8 (\<lambda>fx c.
            if bits AND drop_bit fx 0x80 \<noteq> 0
            then PutPixel (sint (x + of_nat fx)) (sint (y + of_nat fy)) color c else Some c) c
        }) c = Some d \<and> drawn c d"
  proof (rule for_loop_drawn [OF assms])
    fix fy :: nat and d assume fy: "fy < 8" and d: "con_ok d"
    have "\<exists>e. for_loop 8 (\<lambda>fx c. if row ! fy AND drop_bit fx 0x80 \<noteq> 0
        then PutPixel (sint (x + of_nat fx)) (sint (y + of_nat fy)) color c else Some c) d = Some e \<and> drawn d e"
      by (rule for_loop_drawn [OF d]) (auto intro: PutPixel_drawn drawn_refl)
    then show "\<exists>e. (do {
          bits \<leftarrow> arr_get row (int fy);
          for_loop 8 (\<lambda>fx c.
            if bits AND drop_bit fx 0x80 \<noteq> 0
            then PutPixel (sint (x + of_nat fx)) (sint (y + of_nat fy)) color c else Some c) d
        }) = Some e \<and> drawn d e" using fy row by (simp add: arr_get_def)
  qed
  then show ?thesis using False glyph_index_less [of ch] by (simp add: Console_PutChar_def Let_def glyph)
qed

lemma con_ok_cursor [simp]: "con_ok (c\<lparr>cursor_x := a\<rparr>) = con_ok c" "con_ok (c\<lparr>cursor_y := b\<rparr>) = con_ok c"
  by (simp_all add: con_ok_def)

lemma print_char_total:
  assumes "con_ok c"
  shows "\<exists>d. print_char ch c = Some d \<and> con_ok d"
proof -
  have nl: "con_ok (print_newline d) = con_ok d" for d by (simp add: print_newline_def)
  define c1 where "c1 = (if 8 \<le> cursor_x c then c\<lparr>cursor_x := cursor_x c - 8\<rparr> else c)"
  have c1: "con_ok c1" using assms by (simp add: c1_def)
  have "\<exists>d. for_loop 8 (\<lambda>fy. for_loop 8 (\<lambda>fx. PutPixel (sint (cursor_x c1 + of_nat fx)) (sint (cursor_y c1 + of_nat fy)) 0x000080)) c1
      = Some d \<and> drawn c1 d"
    by (intro for_loop_drawn c1 PutPixel_drawn)
  moreover obtain e where "Console_PutChar ch 0xFFFFFF (cursor_x c) (cursor_y c) c = Some e" "con_ok e"
    using Console_PutChar_drawn [OF assms] drawn_ok by blast
  ultimately show ?thesis using assms
    by (auto simp: print_char_def nl c1_def [symmetric] Let_def dest: drawn_ok)
qed

lemma Print_total: "con_ok c \<Longrightarrow> \<exists>d. Console_Print s c = Some d \<and> con_ok d"
proof (induction s arbitrary: c)
  case (Cons ch s)
  obtain d where "print_char ch c = Some d" "con_ok d" using print_char_total [OF Cons.prems] by blast
  then show ?case using Cons.IH by simp
qed simp

end
