(* ===== verification/ShellTables.thy ===== *)
theory ShellTables
  imports Disk
begin

text \<open>
  The tables of the shell: the command registry of src/core/shell/command_registry.cpp with the
  registrations of \<open>Shell::Init\<close>, and the environment of src/core/shell/shell.cpp. Both are searched
  with the string comparisons of \<open>CString\<close> and implement finite maps (\<open>keyed_table\<close>).
\<close>

section \<open>The command registry\<close>

datatype command =
  CmdLs | CmdCd | CmdCat | CmdMkdir | CmdRm | CmdTouch | CmdPwd | CmdDate | CmdFree | CmdUname | CmdUptime
  | CmdClear | CmdHistory | CmdEcho | CmdHelp | CmdCp | CmdMv | CmdEdit | CmdNano | CmdExport

type_synonym registry = "(string \<times> command) list"

text \<open>The scan: the index of the first entry whose name compares equal.\<close>

definition reg_scan :: "string \<Rightarrow> registry \<Rightarrow> nat option option" where
  "reg_scan name cmds = scan_names registry_streq (map (\<lambda>e. fst e @ [NUL]) cmds) (name @ [NUL])"

definition Register :: "string \<Rightarrow> command \<Rightarrow> registry \<Rightarrow> registry option" where
  "Register name handler cmds =
     (if 32 \<le> length cmds then Some cmds
      else do {
        r \<leftarrow> reg_scan name cmds;
        Some (case r of Some i \<Rightarrow> cmds[i := (fst (cmds ! i), handler)] | None \<Rightarrow> cmds @ [(name, handler)])
      })"

definition Registry_Get :: "string \<Rightarrow> registry \<Rightarrow> command option option" where
  "Registry_Get name cmds = do {
     r \<leftarrow> reg_scan name cmds;
     Some (map_option (\<lambda>i. snd (cmds ! i)) r)
   }"

definition Registry_GetCount :: "registry \<Rightarrow> nat" where
  "Registry_GetCount cmds = length cmds"

text \<open>The twenty registrations of \<open>Shell::Init\<close>, in order.\<close>

definition init_commands :: "(string \<times> command) list" where
  "init_commands =
     [(''ls'', CmdLs), (''cd'', CmdCd), (''cat'', CmdCat), (''mkdir'', CmdMkdir), (''rm'', CmdRm),
      (''touch'', CmdTouch), (''pwd'', CmdPwd), (''date'', CmdDate), (''free'', CmdFree), (''uname'', CmdUname),
      (''uptime'', CmdUptime), (''clear'', CmdClear), (''history'', CmdHistory), (''echo'', CmdEcho),
      (''help'', CmdHelp), (''cp'', CmdCp), (''mv'', CmdMv), (''edit'', CmdEdit), (''nano'', CmdNano),
      (''export'', CmdExport)]"

fun register_all :: "(string \<times> command) list \<Rightarrow> registry \<Rightarrow> registry option" where
  "register_all [] cmds = Some cmds"
| "register_all ((n, h) # es) cmds = Register n h cmds \<bind> register_all es"

section \<open>The environment\<close>

type_synonym environment = "(string \<times> string) list"

definition env_scan :: "string \<Rightarrow> environment \<Rightarrow> nat option option" where
  "env_scan k envs = scan_names utils_streq (map (\<lambda>e. fst e @ [NUL]) envs) (k @ [NUL])"

text \<open>Keys live in 32 bytes, values in 64; \<open>strcpy\<close> past either is a fault.\<close>

definition SetEnv :: "string \<Rightarrow> string \<Rightarrow> environment \<Rightarrow> environment option" where
  "SetEnv k v envs = do {
     r \<leftarrow> env_scan k envs;
     case r of
       Some i \<Rightarrow> if length v < 64 then Some (envs[i := (fst (envs ! i), v)]) else None
     | None \<Rightarrow>
         if length envs < 16 then (if length k < 32 \<and> length v < 64 then Some (envs @ [(k, v)]) else None)
         else Some envs
   }"

definition GetEnv :: "string \<Rightarrow> environment \<Rightarrow> string option option" where
  "GetEnv k envs = do { r \<leftarrow> env_scan k envs; Some (map_option (\<lambda>i. snd (envs ! i)) r) }"

section \<open>Both tables are finite maps\<close>

lemma find_index_map: "find_index p (map f xs) = find_index (p \<circ> f) xs"
  by (induction xs) auto

text \<open>On names without an embedded terminator the scans are searches by equality.\<close>

lemma scan_terminated:
  assumes "\<forall>n \<in> set ns. c_string n" and "c_string k"
  shows "(\<forall>n \<in> set (map (\<lambda>n. n @ [NUL]) ns). terminated n)"
    and "find_index (\<lambda>n. cstr n = cstr (k @ [NUL])) (map (\<lambda>n. n @ [NUL]) ns) = find_index (\<lambda>n. n = k) ns"
proof -
  show "\<forall>n \<in> set (map (\<lambda>n. n @ [NUL]) ns). terminated n" by auto
  show "find_index (\<lambda>n. cstr n = cstr (k @ [NUL])) (map (\<lambda>n. n @ [NUL]) ns) = find_index (\<lambda>n. n = k) ns"
    using assms by (induction ns) auto
qed

lemma reg_scan_spec:
  assumes "\<forall>e \<in> set cmds. c_string (fst e)" and "c_string name"
  shows "reg_scan name cmds = Some (find_index (\<lambda>e. fst e = name) cmds)"
proof -
  have ns: "\<forall>n \<in> set (map fst cmds). c_string n" using assms(1) by simp
  have m: "map (\<lambda>e. fst e @ [NUL]) cmds = map (\<lambda>n. n @ [NUL]) (map fst cmds)" by simp
  have "terminated (name @ [NUL])" by simp
  from rseq.scan_finds_first [OF scan_terminated(1) [OF ns assms(2)] this] show ?thesis
    unfolding reg_scan_def m scan_terminated(2) [OF ns assms(2)] by (simp add: find_index_map o_def)
qed

lemma env_scan_spec:
  assumes "\<forall>e \<in> set envs. c_string (fst e)" and "c_string k"
  shows "env_scan k envs = Some (find_index (\<lambda>e. fst e = k) envs)"
proof -
  have ns: "\<forall>n \<in> set (map fst envs). c_string n" using assms(1) by simp
  have m: "map (\<lambda>e. fst e @ [NUL]) envs = map (\<lambda>n. n @ [NUL]) (map fst envs)" by simp
  have "terminated (k @ [NUL])" by simp
  from useq.scan_finds_first [OF scan_terminated(1) [OF ns assms(2)] this] show ?thesis
    unfolding env_scan_def m scan_terminated(2) [OF ns assms(2)] by (simp add: find_index_map o_def)
qed

lemma find_index_map_of: "map_option (\<lambda>i. snd (xs ! i)) (find_index (\<lambda>e. fst e = k) xs) = map_of xs k"
  by (induction xs) (auto simp: option.map_comp o_def)

lemma map_of_update:
  assumes "find_index (\<lambda>e. fst e = k) xs = Some i"
  shows "map_of (xs[i := (fst (xs ! i), v)]) = (map_of xs)(k \<mapsto> v)"
  using assms
proof (induction xs arbitrary: i)
  case (Cons x xs)
  show ?case
  proof (cases "fst x = k")
    case False
    with Cons.prems obtain j where j: "i = Suc j" "find_index (\<lambda>e. fst e = k) xs = Some j" by auto
    with Cons.IH [OF j(2)] False show ?thesis by (cases x) (auto simp: fun_eq_iff)
  qed (use Cons.prems in \<open>auto simp: fun_eq_iff\<close>)
qed simp

lemma map_of_append_new: "k \<notin> fst ` set xs \<Longrightarrow> map_of (xs @ [(k, v)]) = (map_of xs)(k \<mapsto> v)"
  by (induction xs) (auto simp: fun_eq_iff)

definition registry_ok :: "registry \<Rightarrow> bool" where
  "registry_ok cmds \<longleftrightarrow> length cmds \<le> 32 \<and> distinct (map fst cmds) \<and> (\<forall>e \<in> set cmds. c_string (fst e))"

definition registry_fits :: "registry \<Rightarrow> string \<Rightarrow> command \<Rightarrow> bool" where
  "registry_fits cmds name h \<longleftrightarrow> c_string name \<and> length cmds < 32"

lemma all_set_update: "\<forall>e \<in> set xs. P e \<Longrightarrow> P x \<Longrightarrow> \<forall>e \<in> set (xs[i := x]). P e"
  using set_update_subset_insert [of xs i x] by blast

text \<open>Changing the value at a found index keeps the keys.\<close>

lemma update_keys:
  assumes "find_index (\<lambda>e. fst e = k) xs = Some i"
  shows "map fst (xs[i := (fst (xs ! i), v)]) = map fst xs"
    and "set (map fst (xs[i := (fst (xs ! i), v)])) = set (map fst xs)"
proof -
  show "map fst (xs[i := (fst (xs ! i), v)]) = map fst xs"
    using find_index_SomeD [OF assms] by (simp add: map_update list_update_same_conv)
  then show "set (map fst (xs[i := (fst (xs ! i), v)])) = set (map fst xs)" by (rule arg_cong)
qed

interpretation commands: keyed_table registry_ok map_of registry_fits c_string Some Register Registry_Get
proof unfold_locales
  fix cmds name h
  assume ok: "registry_ok cmds" and fits: "registry_fits cmds name h"
  then have scan: "reg_scan name cmds = Some (find_index (\<lambda>e. fst e = name) cmds)"
    by (intro reg_scan_spec) (auto simp: registry_ok_def registry_fits_def)
  show "\<exists>cmds'. Register name h cmds = Some cmds' \<and> registry_ok cmds' \<and> map_of cmds' = (map_of cmds)(name \<mapsto> h)"
  proof (cases "find_index (\<lambda>e. fst e = name) cmds")
    case None
    then have "name \<notin> fst ` set cmds" by auto
    with ok fits None map_of_append_new [OF this] show ?thesis
      by (simp add: Register_def scan registry_fits_def registry_ok_def del: find_index_None map_of_append)
  next
    case (Some i)
    have "fst (cmds ! i) = name" using find_index_SomeD [OF Some] by simp
    then have "\<forall>e \<in> set (cmds[i := (fst (cmds ! i), h)]). c_string (fst e)"
      using ok fits by (intro all_set_update) (simp_all add: registry_ok_def registry_fits_def)
    with ok fits Some update_keys(1) [OF Some] map_of_update [OF Some] show ?thesis
      by (simp add: Register_def scan registry_fits_def registry_ok_def)
  qed
next
  fix cmds name
  assume "registry_ok cmds" and "c_string name"
  then show "Registry_Get name cmds = Some (map_of cmds name)"
    by (simp add: Registry_Get_def reg_scan_spec registry_ok_def find_index_map_of)
qed

definition env_ok :: "environment \<Rightarrow> bool" where
  "env_ok envs \<longleftrightarrow> length envs \<le> 16 \<and> distinct (map fst envs)
     \<and> (\<forall>e \<in> set envs. c_string (fst e) \<and> length (fst e) < 32 \<and> c_string (snd e) \<and> length (snd e) < 64)"

definition env_fits :: "environment \<Rightarrow> string \<Rightarrow> string \<Rightarrow> bool" where
  "env_fits envs k v \<longleftrightarrow> c_string k \<and> length k < 32 \<and> c_string v \<and> length v < 64
     \<and> (k \<in> fst ` set envs \<or> length envs < 16)"

interpretation environment: keyed_table env_ok map_of env_fits c_string Some SetEnv GetEnv
proof unfold_locales
  fix envs k v
  assume ok: "env_ok envs" and fits: "env_fits envs k v"
  then have scan: "env_scan k envs = Some (find_index (\<lambda>e. fst e = k) envs)"
    by (intro env_scan_spec) (auto simp: env_ok_def env_fits_def)
  show "\<exists>envs'. SetEnv k v envs = Some envs' \<and> env_ok envs' \<and> map_of envs' = (map_of envs)(k \<mapsto> v)"
  proof (cases "find_index (\<lambda>e. fst e = k) envs")
    case None
    then have "k \<notin> fst ` set envs" by auto
    with ok fits None map_of_append_new [OF this] show ?thesis
      by (simp add: SetEnv_def scan env_fits_def env_ok_def del: find_index_None map_of_append)
  next
    case (Some i)
    have "fst (envs ! i) = k" using find_index_SomeD [OF Some] by simp
    then have "\<forall>e \<in> set (envs[i := (fst (envs ! i), v)]). c_string (fst e) \<and> length (fst e) < 32 \<and> c_string (snd e) \<and> length (snd e) < 64"
      using ok fits by (intro all_set_update) (simp_all add: env_ok_def env_fits_def)
    with ok fits Some update_keys(1) [OF Some] map_of_update [OF Some] show ?thesis
      by (simp add: SetEnv_def scan env_fits_def env_ok_def)
  qed
next
  fix envs k
  assume "env_ok envs" and "c_string k"
  then show "GetEnv k envs = Some (map_of envs k)"
    by (simp add: GetEnv_def env_scan_spec env_ok_def find_index_map_of)
qed

section \<open>Properties\<close>

lemma register_init_step:
  "registry_ok cmds \<Longrightarrow> length cmds + length es \<le> 32 \<Longrightarrow> (\<forall>e \<in> set es. c_string (fst e)) \<Longrightarrow>
   distinct (map fst es) \<Longrightarrow> fst ` set cmds \<inter> fst ` set es = {} \<Longrightarrow> register_all es cmds = Some (cmds @ es)"
proof (induction es arbitrary: cmds)
  case (Cons e es)
  obtain n h where e: "e = (n, h)" by (cases e)
  have "reg_scan n cmds = Some (find_index (\<lambda>e. fst e = n) cmds)"
    using Cons.prems e by (intro reg_scan_spec) (auto simp: registry_ok_def)
  moreover have "find_index (\<lambda>e. fst e = n) cmds = None" using Cons.prems(5) e by auto
  ultimately have reg: "Register n h cmds = Some (cmds @ [(n, h)])"
    using Cons.prems(2) by (simp add: Register_def del: find_index_None)
  have "registry_ok (cmds @ [(n, h)])" using Cons.prems e by (auto simp: registry_ok_def)
  from Cons.IH [OF this] Cons.prems e reg show ?case by auto
qed simp

lemma init_commands_facts:
  "length init_commands = 20" "distinct (map fst init_commands)" "\<forall>e \<in> set init_commands. c_string (fst e)"
  by (simp_all add: init_commands_def c_string_def)

lemma init_registry: "register_all init_commands [] = Some init_commands" "registry_ok init_commands"
  using register_init_step [of "[]" init_commands] init_commands_facts by (auto simp: registry_ok_def)

text \<open>After the shell's registrations every one of the twenty names resolves to its handler, and every
  other name to none.\<close>

theorem shell_commands_resolve:
  assumes "c_string name"
  shows "register_all init_commands [] \<bind> Registry_Get name = Some (map_of init_commands name)
    \<and> (\<forall>(n, h) \<in> set init_commands. register_all init_commands [] \<bind> Registry_Get n = Some (Some h))"
proof -
  have get: "register_all init_commands [] \<bind> Registry_Get n = Some (map_of init_commands n)" if "c_string n" for n
    using commands.get_spec [OF init_registry(2) that] by (simp add: init_registry(1))
  moreover have "map_of init_commands n = Some h" if "(n, h) \<in> set init_commands" for n h
    using init_commands_facts(2) that by simp
  ultimately show ?thesis using assms init_commands_facts(3) by fastforce
qed

theorem shell_commands_resolve_witness:
  "register_all init_commands [] \<bind> Registry_Get ''mv'' = Some (Some CmdMv)
   \<and> register_all init_commands [] \<bind> Registry_Get ''foo'' = Some None"
proof -
  have "c_string ''foo''" "c_string ''mv''" by (simp_all add: c_string_def)
  with shell_commands_resolve [of "''foo''"] shell_commands_resolve [of "''mv''"]
  show ?thesis by (simp add: init_commands_def)
qed

text \<open>Setting a variable is an update of a finite map: with a key and a value that fit their fields and
  room in the table, the call returns, the variable reads as set afterwards, every other one as
  before. A new variable in a full table is dropped without a trace.\<close>

theorem SetEnv_updates:
  assumes "env_ok envs" and "c_string k" "length k < 32" and "c_string v" "length v < 64" and "c_string k'"
  shows "\<exists>envs'. SetEnv k v envs = Some envs' \<and> env_ok envs'
    \<and> (if k \<in> fst ` set envs \<or> length envs < 16
       then GetEnv k' envs' = (if k' = k then Some (Some v) else GetEnv k' envs)
       else envs' = envs)"
proof (cases "k \<in> fst ` set envs \<or> length envs < 16")
  case True
  then have fits: "env_fits envs k v" using assms by (simp add: env_fits_def)
  from environment.put_safe [OF assms(1) fits] obtain envs' where e: "SetEnv k v envs = Some envs'" "env_ok envs'" by blast
  with environment.get_after_put [OF assms(1) fits e(1) assms(6)] True show ?thesis by auto
next
  case False
  then have "find_index (\<lambda>e. fst e = k) envs = None" by auto
  moreover have "env_scan k envs = Some (find_index (\<lambda>e. fst e = k) envs)"
    using assms by (intro env_scan_spec) (auto simp: env_ok_def)
  ultimately have "SetEnv k v envs = Some envs" using False by (simp add: SetEnv_def del: find_index_None)
  with False assms(1) show ?thesis by simp
qed

theorem SetEnv_updates_witness:
  "\<exists>envs'. SetEnv ''PWD'' ''/'' [(''PS1'', ''$ '')] = Some envs' \<and> GetEnv ''PS1'' envs' = GetEnv ''PS1'' [(''PS1'', ''$ '')]"
proof -
  have "env_ok [(''PS1'', ''$ '')]" by (simp add: env_ok_def c_string_def)
  from SetEnv_updates [OF this, of "''PWD''" "''/''" "''PS1''"] show ?thesis by (auto simp: c_string_def)
qed

text \<open>A value of 64 characters or more overruns its field, also when the shell itself sets it.\<close>

lemma SetEnv_overflow:
  assumes "env_ok envs" and "c_string k" and "64 \<le> length v" and "k \<in> fst ` set envs \<or> length envs < 16"
  shows "SetEnv k v envs = None"
proof -
  have "env_scan k envs = Some (find_index (\<lambda>e. fst e = k) envs)"
    using assms by (intro env_scan_spec) (auto simp: env_ok_def)
  then show ?thesis using assms(3,4) by (auto simp: SetEnv_def split: option.split)
qed

end
