(* ===== verification/Tokenizer.thy ===== *)
theory Tokenizer
  imports CString
begin

text \<open>
  The tokenizer of \<open>Shell::Execute\<close> (src/core/shell/shell.cpp). The code copies the line, walks over
  the copy once, overwrites the character after each token with 0 and records where tokens start;
  the theory proves that the resulting argument vector is what a lexer on strings computes, and
  that on lines without quotes these are the first sixteen words.
\<close>

section \<open>The code\<close>

record tokenizer =
  tk_buffer :: "char list"
  tk_argv :: "nat list"
  tk_start :: nat
  tk_in_quotes :: bool
  tk_in_token :: bool

definition tok_push :: "tokenizer \<Rightarrow> tokenizer" where
  "tok_push t = (if length (tk_argv t) < 16 then t\<lparr>tk_argv := tk_argv t @ [tk_start t]\<rparr> else t)"

text \<open>The body of \<open>for (i = 0; i <= len; i++)\<close>; \<open>i\<close> is inside the buffer by the loop's bound.\<close>

definition tok_step :: "nat \<Rightarrow> tokenizer \<Rightarrow> tokenizer" where
  "tok_step i t =
     (let c = tk_buffer t ! i in
      if c = CHR 0x22 then
        (if tk_in_quotes t
         then (tok_push (t\<lparr>tk_buffer := (tk_buffer t)[i := NUL]\<rparr>))\<lparr>tk_in_token := False, tk_in_quotes := False\<rparr>
         else t\<lparr>tk_in_quotes := True, tk_start := i + 1\<rparr>)
      else if tk_in_quotes t then t
      else if c = CHR '' '' \<or> c = NUL then
        (if tk_in_token t
         then (tok_push (t\<lparr>tk_buffer := (tk_buffer t)[i := NUL]\<rparr>))\<lparr>tk_in_token := False\<rparr>
         else t)
      else if \<not> tk_in_token t then t\<lparr>tk_start := i, tk_in_token := True\<rparr> else t)"

definition tok_init :: "string \<Rightarrow> tokenizer" where
  "tok_init line = \<lparr>tk_buffer = line @ [NUL], tk_argv = [], tk_start = 0, tk_in_quotes = False, tk_in_token = False\<rparr>"

definition tok_run :: "string \<Rightarrow> nat \<Rightarrow> tokenizer" where
  "tok_run line i = fold tok_step [0..<i] (tok_init line)"

text \<open>The argument vector: the C strings at the recorded offsets of the final buffer.\<close>

definition tokenize :: "string \<Rightarrow> string list" where
  "tokenize line = (let t = tok_run line (length line + 1) in map (\<lambda>s. cstr (drop s (tk_buffer t))) (tk_argv t))"

section \<open>The lexer\<close>

text \<open>Finished tokens, the current one, inside quotes, inside a token. A quote in the middle of a token
  discards what came before it; a token still quoted at the end of the line is discarded.\<close>

type_synonym lexer = "string list \<times> string \<times> bool \<times> bool"

definition lex_step :: "char \<Rightarrow> lexer \<Rightarrow> lexer" where
  "lex_step c x =
     (let (toks, cur, q, tk) = x in
      if c = CHR 0x22 then (if q then (toks @ [cur], [], False, False) else (toks, [], True, tk))
      else if q then (toks, cur @ [c], True, tk)
      else if c = CHR '' '' \<or> c = NUL then (if tk then (toks @ [cur], [], False, False) else (toks, [], False, False))
      else if \<not> tk then (toks, [c], False, True)
      else (toks, cur @ [c], False, True))"

definition lex :: "string \<Rightarrow> string list" where
  "lex line = fst (fold lex_step (line @ [NUL]) ([], [], False, False))"

section \<open>The code implements the lexer\<close>

definition token_at :: "char list \<Rightarrow> nat \<Rightarrow> string \<Rightarrow> nat \<Rightarrow> bool" where
  "token_at buf s w i \<longleftrightarrow> s + length w < i \<and> NUL \<notin> set w \<and> (\<exists>r. drop s buf = w @ NUL # r)"

lemma token_at_update: "token_at buf s w i \<Longrightarrow> i \<le> j \<Longrightarrow> token_at (buf[j := x]) s w j"
proof -
  assume a: "token_at buf s w i" "i \<le> j"
  then obtain r where r: "drop s buf = w @ NUL # r" and lt: "s + length w < j" by (auto simp: token_at_def)
  then obtain m where m: "j = s + length w + Suc m" using less_imp_Suc_add by fastforce
  have "drop s (buf[j := x]) = (drop s buf)[j - s := x]" using lt by (simp add: drop_update_swap)
  also have "j - s = length w + Suc m" using m by simp
  also have "(drop s buf)[length w + Suc m := x] = w @ NUL # r[m := x]"
    unfolding r by (simp add: list_update_append)
  finally show ?thesis using a lt by (auto simp: token_at_def)
qed

lemma token_at_mono: "token_at buf s w i \<Longrightarrow> i \<le> j \<Longrightarrow> token_at buf s w j"
  by (auto simp: token_at_def)

lemma token_at_cstr: "token_at buf s w i \<Longrightarrow> cstr (drop s buf) = w"
  by (auto simp: token_at_def)

text \<open>Before character \<open>i\<close>: the rest of the buffer is untouched, the recorded tokens are the first
  sixteen finished ones, and the current one starts where the code says.\<close>

definition tok_sim :: "string \<Rightarrow> nat \<Rightarrow> tokenizer \<Rightarrow> lexer \<Rightarrow> bool" where
  "tok_sim line i t x \<longleftrightarrow> (let (toks, cur, q, tk) = x in
     length (tk_buffer t) = length line + 1 \<and> drop i (tk_buffer t) = drop i (line @ [NUL])
     \<and> tk_in_quotes t = q \<and> tk_in_token t = tk
     \<and> list_all2 (\<lambda>s w. token_at (tk_buffer t) s w i) (tk_argv t) (take 16 toks)
     \<and> ((q \<or> tk) \<and> i \<le> length line \<longrightarrow> tk_start t + length cur = i \<and> take (length cur) (drop (tk_start t) (tk_buffer t)) = cur
          \<and> NUL \<notin> set cur))"

lemma tok_argv_update:
  assumes "list_all2 (\<lambda>s w. token_at buf s w i) argv ts"
  shows "list_all2 (\<lambda>s w. token_at (buf[i := x]) s w (i + 1)) argv ts"
    and "list_all2 (\<lambda>s w. token_at buf s w (i + 1)) argv ts"
  using assms by (auto elim!: list_all2_mono intro: token_at_mono token_at_update)

text \<open>Ending a token at \<open>i\<close>: the 0 written there makes it a C string at its start.\<close>

lemma token_at_end:
  assumes "i < length buf" and "s + length cur = i" and "take (length cur) (drop s buf) = cur" and "NUL \<notin> set cur"
  shows "token_at (buf[i := NUL]) s cur (i + 1)"
proof -
  have "drop s buf = cur @ drop i buf"
    using assms(2,3) append_take_drop_id [of "length cur" "drop s buf"] by (simp add: add.commute)
  also have "drop i buf = buf ! i # drop (i + 1) buf" using assms(1) by (simp add: Cons_nth_drop_Suc)
  finally have d: "drop s buf = cur @ buf ! i # drop (i + 1) buf" .
  have "i - s = length cur" using assms(2) by simp
  then have "drop s (buf[i := NUL]) = cur @ NUL # drop (i + 1) buf"
    using assms(2) by (simp add: drop_update_swap d list_update_append)
  then show ?thesis using assms by (auto simp: token_at_def)
qed

lemma tok_push_argv:
  assumes "list_all2 P (tk_argv t) (take 16 toks)" and "P (tk_start t) w"
  shows "list_all2 P (tk_argv (tok_push t)) (take 16 (toks @ [w]))"
proof -
  have "length (tk_argv t) = min 16 (length toks)" using assms(1) by (auto dest: list_all2_lengthD)
  with assms show ?thesis by (cases "length toks < 16") (auto simp: tok_push_def list_all2_appendI)
qed

lemma tok_push_fields [simp]:
  "tk_buffer (tok_push t) = tk_buffer t" "tk_start (tok_push t) = tk_start t"
  "tk_in_quotes (tok_push t) = tk_in_quotes t" "tk_in_token (tok_push t) = tk_in_token t"
  by (simp_all add: tok_push_def)

lemma tok_step_sim:
  assumes sim: "tok_sim line i t x" and i: "i < length line + 1" and line: "c_string line"
  shows "tok_sim line (i + 1) (tok_step i t) (lex_step ((line @ [NUL]) ! i) x)"
proof -
  obtain toks cur q tk where x: "x = (toks, cur, q, tk)" by (cases x)
  define c where "c = tk_buffer t ! i"
  have len: "length (tk_buffer t) = length line + 1" and dr: "drop i (tk_buffer t) = drop i (line @ [NUL])"
    and fl: "tk_in_quotes t = q" "tk_in_token t = tk"
    and av: "list_all2 (\<lambda>s w. token_at (tk_buffer t) s w i) (tk_argv t) (take 16 toks)"
    and cu: "q \<or> tk \<Longrightarrow> tk_start t + length cur = i" "q \<or> tk \<Longrightarrow> take (length cur) (drop (tk_start t) (tk_buffer t)) = cur"
      "q \<or> tk \<Longrightarrow> NUL \<notin> set cur"
    using sim i by (auto simp: tok_sim_def x)
  have c: "(line @ [NUL]) ! i = c"
  proof -
    have "(line @ [NUL]) ! i = drop i (line @ [NUL]) ! 0" "c = drop i (tk_buffer t) ! 0"
      using i len by (simp_all add: c_def del: drop_append)
    then show ?thesis by (simp only: dr)
  qed
  have nul: "c \<noteq> NUL" if "i + 1 \<le> length line"
    using that line c nth_mem [of i line] by (auto simp: nth_append c_string_def)
  have dr1: "drop (i + 1) (tk_buffer t) = drop (i + 1) (line @ [NUL])"
    using arg_cong [OF dr, of "drop 1"] by (simp only: drop_drop) (simp del: drop_append)
  have dr2: "drop (i + 1) ((tk_buffer t)[i := NUL]) = drop (i + 1) (line @ [NUL])" using dr1 by simp
  note av1 = tok_argv_update(2) [OF av] and av2 = tok_argv_update(1) [OF av, of NUL]
  have ends: "token_at ((tk_buffer t)[i := NUL]) (tk_start t) cur (i + 1)" if "q \<or> tk"
    using token_at_end [OF _ cu(1,2,3)] that i len by simp
  have grow: "tk_start t + length (cur @ [c]) = i + 1"
      "take (length (cur @ [c])) (drop (tk_start t) (tk_buffer t)) = cur @ [c]" if "q \<or> tk"
  proof -
    show "tk_start t + length (cur @ [c]) = i + 1" using cu(1) that by simp
    have "length cur < length (drop (tk_start t) (tk_buffer t))" using cu(1) that i len by auto
    moreover have "drop (tk_start t) (tk_buffer t) ! length cur = c" using cu(1) that i len by (auto simp: c_def)
    ultimately show "take (length (cur @ [c])) (drop (tk_start t) (tk_buffer t)) = cur @ [c]"
      using cu(2) that by (simp add: take_Suc_conv_app_nth)
  qed
  have push: "list_all2 (\<lambda>s w. token_at ((tk_buffer t)[i := NUL]) s w (i + 1))
      (tk_argv (tok_push (t\<lparr>tk_buffer := (tk_buffer t)[i := NUL]\<rparr>))) (take 16 (toks @ [cur]))" if "q \<or> tk"
    using tok_push_argv [of _ "t\<lparr>tk_buffer := (tk_buffer t)[i := NUL]\<rparr>" toks cur] av2 ends [OF that] by simp
  consider (close) "c = CHR 0x22" "q" | (open_q) "c = CHR 0x22" "\<not> q" | (quoted) "c \<noteq> CHR 0x22" "q"
    | (word_end) "c = CHR '' '' \<or> c = NUL" "\<not> q" "tk" | (gap) "c = CHR '' '' \<or> c = NUL" "\<not> q" "\<not> tk"
    | (word) "c \<noteq> CHR 0x22" "c \<noteq> CHR '' ''" "c \<noteq> NUL" "\<not> q" "tk"
    | (word_start) "c \<noteq> CHR 0x22" "c \<noteq> CHR '' ''" "c \<noteq> NUL" "\<not> q" "\<not> tk" by blast
  then show ?thesis
  proof cases
    case close
    with push len dr2 show ?thesis
      by (simp add: tok_sim_def x c lex_step_def tok_step_def fl c_def [symmetric] Let_def)
  next
    case open_q
    with av1 len dr1 i show ?thesis
      by (simp add: tok_sim_def x c lex_step_def tok_step_def fl c_def [symmetric] Let_def)
  next
    case quoted
    with av1 len dr1 grow cu(3) nul show ?thesis
      by (auto simp: tok_sim_def x c lex_step_def tok_step_def fl c_def [symmetric] Let_def)
  next
    case word_end
    then have "c \<noteq> CHR 0x22" by auto
    with word_end push len dr2 show ?thesis
      by (simp add: tok_sim_def x c lex_step_def tok_step_def fl c_def [symmetric] Let_def)
  next
    case gap
    then have "c \<noteq> CHR 0x22" by auto
    with gap av1 len dr1 show ?thesis
      by (simp add: tok_sim_def x c lex_step_def tok_step_def fl c_def [symmetric] Let_def)
  next
    case word
    with av1 len dr1 grow cu(3) show ?thesis
      by (auto simp: tok_sim_def x c lex_step_def tok_step_def fl c_def [symmetric] Let_def)
  next
    case word_start
    moreover have "take (length [c]) (drop i (tk_buffer t)) = [c]"
      using i len by (simp add: c_def take_Suc_conv_app_nth)
    ultimately show ?thesis using av1 len dr1
      by (simp add: tok_sim_def x c lex_step_def tok_step_def fl c_def [symmetric] Let_def)
  qed
qed

lemma tok_run_sim:
  assumes "c_string line"
  shows "i \<le> length line + 1 \<Longrightarrow>
    tok_sim line i (tok_run line i) (fold lex_step (take i (line @ [NUL])) ([], [], False, False))"
proof (induction i)
  case 0
  then show ?case by (simp add: tok_sim_def tok_run_def tok_init_def)
next
  case (Suc i)
  then have "take (Suc i) (line @ [NUL]) = take i (line @ [NUL]) @ [(line @ [NUL]) ! i]"
    by (intro take_Suc_conv_app_nth) simp
  with tok_step_sim [OF Suc.IH _ assms] Suc.prems show ?case by (simp add: tok_run_def)
qed

lemma tokenize_spec:
  assumes "c_string line"
  shows "tokenize line = take 16 (lex line)"
proof -
  let ?t = "tok_run line (length line + 1)"
  obtain toks cur q tk where f: "fold lex_step (line @ [NUL]) ([], [], False, False) = (toks, cur, q, tk)"
    by (cases "fold lex_step (line @ [NUL]) ([], [], False, False)")
  have "list_all2 (\<lambda>s w. token_at (tk_buffer ?t) s w (length line + 1)) (tk_argv ?t) (take 16 toks)"
    using tok_run_sim [OF assms, of "length line + 1"] f by (simp add: tok_sim_def)
  then have "list_all2 (\<lambda>s w. cstr (drop s (tk_buffer ?t)) = w) (tk_argv ?t) (take 16 toks)"
    by (rule list_all2_mono) (rule token_at_cstr)
  then have "map (\<lambda>s. cstr (drop s (tk_buffer ?t))) (tk_argv ?t) = take 16 toks"
    by (simp add: list_all2_conv_all_nth list_eq_iff_nth_eq)
  then show ?thesis using f by (simp add: tokenize_def lex_def Let_def)
qed

section \<open>Properties\<close>

text \<open>C4: the tokenizer implements the lexer: for every line the argument vector is the first sixteen
  tokens of \<open>lex\<close> (separated by blanks, quoted ones with their blanks, with the two cases in which
  text is dropped), although they are cut out of one shared buffer.\<close>

theorem tokenize_lexes:
  assumes "c_string line"
  shows "tokenize line = take 16 (lex line)"
  by (rule tokenize_spec [OF assms])

theorem tokenize_lexes_witness:
  "tokenize (''cp '' @ [CHR 0x22] @ ''a b'' @ [CHR 0x22] @ ''  c'') = [''cp'', ''a b'', ''c'']"
  using tokenize_lexes [of "''cp '' @ [CHR 0x22] @ ''a b'' @ [CHR 0x22] @ ''  c''"]
  by (simp add: c_string_def lex_def lex_step_def)

definition word_ok :: "string \<Rightarrow> bool" where
  "word_ok w \<longleftrightarrow> w \<noteq> [] \<and> NUL \<notin> set w \<and> CHR '' '' \<notin> set w \<and> CHR 0x22 \<notin> set w"

definition spaced :: "(string \<times> nat) list \<Rightarrow> string" where
  "spaced ws = concat (map (\<lambda>(w, n). w @ replicate (Suc n) CHR '' '') ws)"

lemma lex_word_tail:
  "NUL \<notin> set w \<Longrightarrow> CHR '' '' \<notin> set w \<Longrightarrow> CHR 0x22 \<notin> set w \<Longrightarrow>
   fold lex_step w (toks, cur, False, True) = (toks, cur @ w, False, True)"
  by (induction w arbitrary: cur) (auto simp: lex_step_def)

lemma lex_blanks: "fold lex_step (replicate n CHR '' '') (toks, [], False, False) = (toks, [], False, False)"
  by (induction n) (simp_all add: lex_step_def)

lemma lex_spaced_word:
  assumes "word_ok w"
  shows "fold lex_step (w @ replicate (Suc n) CHR '' '') (toks, [], False, False) = (toks @ [w], [], False, False)"
proof -
  obtain c v where w: "w = c # v" using assms by (cases w) (auto simp: word_ok_def)
  then have "lex_step c (toks, [], False, False) = (toks, [c], False, True)"
    using assms by (auto simp: lex_step_def word_ok_def)
  moreover have "fold lex_step v (toks, [c], False, True) = (toks, w, False, True)"
    using assms w by (subst lex_word_tail) (auto simp: word_ok_def)
  moreover have "lex_step CHR '' '' (toks, w, False, True) = (toks @ [w], [], False, False)"
    by (simp add: lex_step_def)
  ultimately show ?thesis using lex_blanks [of n "toks @ [w]"] w by simp
qed

lemma lex_spaced:
  "\<forall>(w, n) \<in> set ws. word_ok w \<Longrightarrow>
   fold lex_step (spaced ws) (toks, [], False, False) = (toks @ map fst ws, [], False, False)"
proof (induction ws arbitrary: toks)
  case (Cons p ws)
  then show ?case
    using lex_spaced_word [of "fst p" "snd p" toks] by (cases p) (simp add: spaced_def)
qed (simp add: spaced_def)

lemma spaced_c_string: "\<forall>(w, n) \<in> set ws. word_ok w \<Longrightarrow> c_string (spaced ws)"
  by (induction ws) (auto simp: spaced_def c_string_def word_ok_def)

text \<open>On a line without quotes the arguments are its first sixteen blank-separated words: writing
  words without blanks and quotes with any positive numbers of blanks between them and tokenizing
  the line gives the words back.\<close>

theorem tokenize_words:
  assumes "\<forall>(w, n) \<in> set ws. word_ok w"
  shows "tokenize (spaced ws) = take 16 (map fst ws)"
proof -
  have "tokenize (spaced ws) = take 16 (lex (spaced ws))"
    by (rule tokenize_spec [OF spaced_c_string [OF assms]])
  also have "lex (spaced ws) = map fst ws"
    by (simp add: lex_def lex_spaced [OF assms]) (simp add: lex_step_def)
  finally show ?thesis .
qed

theorem tokenize_words_witness: "tokenize ''cat  a.txt '' = [''cat'', ''a.txt'']"
  using tokenize_words [of "[(''cat'', 1), (''a.txt'', 0)]"] by (simp add: spaced_def word_ok_def)

end
