(* ===== verification/Terminal.thy ===== *)
theory Terminal
  imports CString
begin

text \<open>
  The display half of src/core/gui/TerminalWindow.cpp: the 25 by 60 character grid with its colours,
  the cursor, the escape-sequence machine of \<open>PutChar\<close>, scrolling and printing. Every access to the
  grid is checked against its bounds, so the theorem that printing returns is its memory safety.
  The second half relates the grid to the text printed: the visible rows are the last ones of a
  list of lines wrapped at 60 columns.
\<close>

section \<open>State\<close>

abbreviation TERM_W :: int where "TERM_W \<equiv> 60"
abbreviation TERM_H :: int where "TERM_H \<equiv> 25"
abbreviation ESC :: char where "ESC \<equiv> CHR 0x1B"

datatype term_mode = SHELL | EDITOR

record terminal =
  buffer :: "char list list"
  color_buffer :: "u32 list list"
  cursor_row :: int
  cursor_col :: int
  ansi_state :: nat
  ansi_val :: u32
  current_color :: u32
  mode :: term_mode
  active_editor :: bool
  input :: "char list"
  input_len :: int
  input_cursor :: int
  history :: "char list list"
  history_count :: int
  history_idx :: int

definition grid_set :: "'a list list \<Rightarrow> int \<Rightarrow> int \<Rightarrow> 'a \<Rightarrow> 'a list list option" where
  "grid_set g r c v = do { row \<leftarrow> arr_get g r; row' \<leftarrow> arr_set row c v; arr_set g r row' }"

section \<open>Operations\<close>

definition Clear :: "terminal \<Rightarrow> terminal" where
  "Clear t = t\<lparr>buffer := replicate 25 (replicate 60 NUL), color_buffer := replicate 25 (replicate 60 0xFFFFFF),
     cursor_row := 0, cursor_col := 0, current_color := 0xFFFFFF, ansi_state := 0\<rparr>"

text \<open>Rows move up by one, the last one is blanked; one statement per row of the source's loops.\<close>

definition Scroll :: "terminal \<Rightarrow> terminal" where
  "Scroll t = t\<lparr>buffer := drop 1 (buffer t) @ [replicate 60 NUL],
     color_buffer := drop 1 (color_buffer t) @ [replicate 60 0xFFFFFF], cursor_row := cursor_row t - 1\<rparr>"

definition newline :: "terminal \<Rightarrow> terminal" where
  "newline t = (let t1 = t\<lparr>cursor_row := cursor_row t + 1, cursor_col := 0\<rparr>
     in if TERM_H \<le> cursor_row t1 then Scroll t1 else t1)"

text \<open>The part of \<open>PutChar\<close> after the escape-sequence machine.\<close>

definition put_normal :: "char \<Rightarrow> terminal \<Rightarrow> terminal option" where
  "put_normal c t =
     (if c = NL then Some (newline t)
      else let t1 = (if TERM_W \<le> cursor_col t then newline t else t) in do {
        b \<leftarrow> grid_set (buffer t1) (cursor_row t1) (cursor_col t1) c;
        col \<leftarrow> grid_set (color_buffer t1) (cursor_row t1) (cursor_col t1) (current_color t1);
        Some (t1\<lparr>buffer := b, color_buffer := col, cursor_col := cursor_col t1 + 1\<rparr>)
      })"

definition sgr_color :: "u32 \<Rightarrow> u32 \<Rightarrow> u32" where
  "sgr_color val cur =
     (if val = 0 then 0xFFFFFF else if val = 30 then 0x000000 else if val = 31 then 0xFF0000
      else if val = 32 then 0x00FF00 else if val = 33 then 0xFFFF00 else if val = 34 then 0x0000FF
      else if val = 35 then 0xFF00FF else if val = 36 then 0x00FFFF else if val = 37 then 0xFFFFFF else cur)"

definition is_digit :: "char \<Rightarrow> bool" where
  "is_digit c \<longleftrightarrow> uchar CHR ''0'' \<le> uchar c \<and> uchar c \<le> uchar CHR ''9''"

definition digit_val :: "char \<Rightarrow> u32" where
  "digit_val c = word_of_int (uchar c - uchar CHR ''0'')"

definition TW_PutChar :: "char \<Rightarrow> terminal \<Rightarrow> terminal option" where
  "TW_PutChar c t =
     (if ansi_state t = 0 then
        (if c = ESC then Some (t\<lparr>ansi_state := 1\<rparr>) else put_normal c t)
      else if ansi_state t = 1 then
        (if c = CHR ''['' then Some (t\<lparr>ansi_state := 2, ansi_val := 0\<rparr>) else put_normal c (t\<lparr>ansi_state := 0\<rparr>))
      else if ansi_state t = 2 then
        (if is_digit c then Some (t\<lparr>ansi_val := ansi_val t * 10 + digit_val c\<rparr>)
         else if c = CHR ''m'' then Some (t\<lparr>current_color := sgr_color (ansi_val t) (current_color t), ansi_state := 0\<rparr>)
         else if c = CHR '';'' then Some (t\<lparr>ansi_val := 0\<rparr>)
         else put_normal c (t\<lparr>ansi_state := 0\<rparr>))
      else put_normal c t)"

fun TW_Print :: "string \<Rightarrow> terminal \<Rightarrow> terminal option" where
  "TW_Print [] t = Some t"
| "TW_Print (c # cs) t = TW_PutChar c t \<bind> TW_Print cs"

definition TW_Prompt :: "terminal \<Rightarrow> terminal option" where
  "TW_Prompt t = do {
     t1 \<leftarrow> TW_Print ''root@fs:~$ '' t;
     Some (t1\<lparr>input_len := 0, input_cursor := 0, input := replicate 128 NUL\<rparr>)
   }"

section \<open>Memory safety\<close>

definition term_ok :: "terminal \<Rightarrow> bool" where
  "term_ok t \<longleftrightarrow> length (buffer t) = 25 \<and> (\<forall>r \<in> set (buffer t). length r = 60)
     \<and> length (color_buffer t) = 25 \<and> (\<forall>r \<in> set (color_buffer t). length r = 60)
     \<and> 0 \<le> cursor_row t \<and> cursor_row t < TERM_H \<and> 0 \<le> cursor_col t \<and> cursor_col t \<le> TERM_W"

text \<open>What printing never touches.\<close>

definition same_input :: "terminal \<Rightarrow> terminal \<Rightarrow> bool" where
  "same_input t u \<longleftrightarrow> mode u = mode t \<and> active_editor u = active_editor t \<and> input u = input t
     \<and> input_len u = input_len t \<and> input_cursor u = input_cursor t \<and> history u = history t
     \<and> history_count u = history_count t \<and> history_idx u = history_idx t"

lemma same_input_refl [simp]: "same_input t t"
  by (simp add: same_input_def)

lemma same_input_trans: "same_input t u \<Longrightarrow> same_input u w \<Longrightarrow> same_input t w"
  by (simp add: same_input_def)

lemma grid_set_in:
  assumes "length g = h" "\<forall>r \<in> set g. length r = w" "0 \<le> r" "r < int h" "0 \<le> c" "c < int w"
  shows "\<exists>g'. grid_set g r c v = Some g' \<and> length g' = h \<and> (\<forall>r \<in> set g'. length r = w)
    \<and> (\<forall>i < h. \<forall>j < w. g' ! i ! j = (if int i = r \<and> int j = c then v else g ! i ! j))"
proof -
  have row: "length (g ! nat r) = w" using assms by simp
  then have "grid_set g r c v = Some (g[nat r := (g ! nat r)[nat c := v]])"
    using assms by (simp add: grid_set_def array_simps)
  moreover have "\<forall>x \<in> set (g[nat r := (g ! nat r)[nat c := v]]). length x = w"
    using assms row by (auto dest: set_update_subset_insert [THEN subsetD])
  moreover have "\<forall>i < h. \<forall>j < w. g[nat r := (g ! nat r)[nat c := v]] ! i ! j
      = (if int i = r \<and> int j = c then v else g ! i ! j)"
    using assms row by (auto simp: nth_list_update)
  ultimately show ?thesis using assms(1) by auto
qed

lemma Clear_ok [simp]: "term_ok (Clear t)" "same_input t (Clear t)"
  by (simp_all add: term_ok_def Clear_def same_input_def)

lemma newline_ok: "term_ok t \<Longrightarrow> term_ok (newline t) \<and> same_input t (newline t) \<and> cursor_col (newline t) = 0"
  by (auto simp: term_ok_def newline_def Scroll_def same_input_def Let_def dest: in_set_dropD)

lemma put_normal_safe:
  assumes "term_ok t"
  shows "\<exists>t'. put_normal c t = Some t' \<and> term_ok t' \<and> same_input t t'"
proof -
  define u where "u = (if TERM_W \<le> cursor_col t then newline t else t)"
  have u: "term_ok u" "same_input t u" "cursor_col u < TERM_W"
    using newline_ok [OF assms] assms by (auto simp: u_def)
  then obtain b where b: "grid_set (buffer u) (cursor_row u) (cursor_col u) c = Some b"
      "length b = 25" "\<forall>r \<in> set b. length r = 60"
    using grid_set_in [of "buffer u" 25 60 "cursor_row u" "cursor_col u" c] by (auto simp: term_ok_def)
  obtain col where col: "grid_set (color_buffer u) (cursor_row u) (cursor_col u) (current_color u) = Some col"
      "length col = 25" "\<forall>r \<in> set col. length r = 60"
    using grid_set_in [of "color_buffer u" 25 60 "cursor_row u" "cursor_col u" "current_color u"] u
    by (auto simp: term_ok_def)
  show ?thesis
  proof (cases "c = NL")
    case True
    then show ?thesis using newline_ok [OF assms] by (simp add: put_normal_def)
  next
    case False
    with b col u have "put_normal c t = Some (u\<lparr>buffer := b, color_buffer := col, cursor_col := cursor_col u + 1\<rparr>)"
      unfolding put_normal_def u_def [symmetric] Let_def by simp
    with b col u show ?thesis by (simp add: term_ok_def same_input_def)
  qed
qed

lemma PutChar_safe:
  assumes "term_ok t"
  shows "\<exists>t'. TW_PutChar c t = Some t' \<and> term_ok t' \<and> same_input t t'"
proof -
  have "term_ok (t\<lparr>ansi_state := 0\<rparr>)" "same_input t (t\<lparr>ansi_state := 0\<rparr>)"
    using assms by (simp_all add: term_ok_def same_input_def)
  then have "\<exists>t'. put_normal c (t\<lparr>ansi_state := 0\<rparr>) = Some t' \<and> term_ok t' \<and> same_input t t'"
    using put_normal_safe same_input_trans by blast
  with put_normal_safe [OF assms] show ?thesis
    using assms by (auto simp: TW_PutChar_def term_ok_def same_input_def)
qed

lemma Print_safe:
  "term_ok t \<Longrightarrow> \<exists>t'. TW_Print s t = Some t' \<and> term_ok t' \<and> same_input t t'"
proof (induction s arbitrary: t)
  case (Cons c s)
  from PutChar_safe [OF Cons.prems] obtain u where "TW_PutChar c t = Some u" "term_ok u" "same_input t u" by blast
  with Cons.IH [of u] same_input_trans show ?case by fastforce
qed simp

section \<open>The grid shows the last lines of the text\<close>

text \<open>The text as lines: broken at newlines and, before a character that would be the 61st, at the
  right edge.\<close>

definition add_char :: "char \<Rightarrow> string list \<Rightarrow> string list" where
  "add_char c ls =
     (if c = NL then ls @ [[]] else if 60 \<le> length (last ls) then ls @ [[c]]
      else butlast ls @ [last ls @ [c]])"

definition blank_row :: "char list" where
  "blank_row = replicate 60 NUL"

definition pad_row :: "string \<Rightarrow> char list" where
  "pad_row l = l @ replicate (60 - length l) NUL"

definition shows_lines :: "string list \<Rightarrow> terminal \<Rightarrow> bool" where
  "shows_lines ls t \<longleftrightarrow> term_ok t \<and> ls \<noteq> [] \<and> (\<forall>l \<in> set ls. length l \<le> 60)
     \<and> cursor_col t = int (length (last ls)) \<and> cursor_row t = int (min (length ls - 1) 24)
     \<and> buffer t = map pad_row (drop (length ls - 25) ls) @ replicate (25 - length ls) blank_row"

lemma pad_row_Nil [simp]: "pad_row [] = blank_row"
  by (simp add: pad_row_def blank_row_def)

lemma pad_row_update: "length l < 60 \<Longrightarrow> (pad_row l)[length l := c] = pad_row (l @ [c])"
proof -
  assume "length l < 60"
  then have "60 - length l = Suc (59 - length l)" "60 - length (l @ [c]) = 59 - length l" by simp_all
  then show ?thesis by (simp add: pad_row_def)
qed

lemma newline_shows:
  assumes "shows_lines ls t"
  shows "shows_lines (ls @ [[]]) (newline t)"
proof -
  note t = assms [unfolded shows_lines_def]
  have ok: "term_ok (newline t)" "cursor_col (newline t) = 0" using newline_ok t by auto
  show ?thesis
  proof (cases "length ls < 25")
    case True
    then have "25 - length ls = Suc (24 - length ls)" by simp
    moreover from t have "int (length ls - Suc 0) + 1 = int (length ls)" by (cases ls) simp_all
    ultimately show ?thesis using True t ok
      by (auto simp: shows_lines_def newline_def Let_def Suc_diff_le)
  next
    case False
    have "drop 1 (map pad_row (drop (length ls - 25) ls)) = map pad_row (drop (length ls - 24) ls)"
      using False by (simp add: drop_map Suc_diff_le [symmetric])
    with False t ok show ?thesis
      by (auto simp: shows_lines_def newline_def Scroll_def Let_def blank_row_def)
  qed
qed

lemma put_at_cursor_shows:
  assumes s: "shows_lines ls t" and lt: "cursor_col t < TERM_W"
    and b: "grid_set (buffer t) (cursor_row t) (cursor_col t) c = Some b"
    and ok: "term_ok u" and u: "buffer u = b" "cursor_col u = cursor_col t + 1" "cursor_row u = cursor_row t"
  shows "shows_lines (butlast ls @ [last ls @ [c]]) u"
proof -
  note t = s [unfolded shows_lines_def]
  define pre where "pre = drop (length ls - 25) (butlast ls)"
  have ls: "ls = butlast ls @ [last ls]" using t by simp
  have n: "0 < length ls" using t by simp
  have pre: "drop (length ls - 25) (butlast ls @ [x]) = pre @ [x]" for x
    using n by (simp add: pre_def)
  have len: "length pre = min (length ls - 1) 24" by (simp add: pre_def min_def)
  have row: "nat (cursor_row t) = length (map pad_row pre)" and col: "nat (cursor_col t) = length (last ls)"
    using t len by simp_all
  have buf: "buffer t = map pad_row pre @ pad_row (last ls) # replicate (25 - length ls) blank_row"
    using t pre [of "last ls"] ls by (metis append.assoc append_Cons append_Nil list.simps(9) list.simps(8) map_append)
  have lt': "length (last ls) < 60" using lt t by simp
  have "b = (buffer t)[nat (cursor_row t) := (buffer t ! nat (cursor_row t))[nat (cursor_col t) := c]]"
    using b by (auto simp: grid_set_def arr_get_def arr_set_def split: bind_splits if_splits)
  also have "\<dots> = map pad_row pre @ pad_row (last ls @ [c]) # replicate (25 - length ls) blank_row"
    unfolding row col buf using pad_row_update [OF lt', of c] by (simp add: list_update_append nth_append)
  finally have "b = map pad_row (pre @ [last ls @ [c]]) @ replicate (25 - length ls) blank_row" by simp
  then have "buffer u = map pad_row (drop (length (butlast ls @ [last ls @ [c]]) - 25) (butlast ls @ [last ls @ [c]]))
      @ replicate (25 - length (butlast ls @ [last ls @ [c]])) blank_row"
    using u(1) pre n by simp
  moreover have "\<forall>l \<in> set (butlast ls @ [last ls @ [c]]). length l \<le> 60"
    using t lt' by (auto dest: in_set_butlastD)
  ultimately show ?thesis using ok u t n by (simp add: shows_lines_def)
qed

lemma PutChar_shows:
  assumes s: "shows_lines ls t" and a: "ansi_state t = 0" and c: "c \<noteq> ESC"
  shows "\<exists>t'. TW_PutChar c t = Some t' \<and> shows_lines (add_char c ls) t' \<and> ansi_state t' = 0 \<and> same_input t t'"
proof -
  have ok: "term_ok t" using s by (simp add: shows_lines_def)
  have put: "TW_PutChar c t = put_normal c t" using a c by (simp add: TW_PutChar_def)
  from put_normal_safe [OF ok] obtain t' where t': "put_normal c t = Some t'" "term_ok t'" "same_input t t'" by blast
  have state: "ansi_state (newline t) = ansi_state t" by (simp add: newline_def Scroll_def Let_def)
  show ?thesis
  proof (cases "c = NL")
    case True
    then show ?thesis
      using newline_shows [OF s] state a put t' by (auto simp: put_normal_def add_char_def)
  next
    case False
    define u where "u = (if TERM_W \<le> cursor_col t then newline t else t)"
    define lu where "lu = (if 60 \<le> length (last ls) then ls @ [[]] else ls)"
    have col: "cursor_col t = int (length (last ls))" using s by (simp add: shows_lines_def)
    have u: "shows_lines lu u" using s newline_shows [OF s] col by (simp add: u_def lu_def)
    have lt: "cursor_col u < TERM_W" using newline_ok [OF ok] by (auto simp: u_def)
    have add: "add_char c ls = butlast lu @ [last lu @ [c]]" using False by (simp add: add_char_def lu_def)
    from t'(1) False obtain b cb where b: "grid_set (buffer u) (cursor_row u) (cursor_col u) c = Some b"
      and eq: "t' = u\<lparr>buffer := b, color_buffer := cb, cursor_col := cursor_col u + 1\<rparr>"
      unfolding put_normal_def u_def [symmetric] Let_def by (auto split: bind_splits)
    have "shows_lines (add_char c ls) t'"
      unfolding add by (rule put_at_cursor_shows [OF u lt b t'(2)]) (simp_all add: eq)
    moreover have "ansi_state t' = 0" using a state by (simp add: eq u_def)
    ultimately show ?thesis using put t' by simp
  qed
qed

lemma Print_shows:
  "shows_lines ls t \<Longrightarrow> ansi_state t = 0 \<Longrightarrow> ESC \<notin> set s \<Longrightarrow>
   \<exists>t'. TW_Print s t = Some t' \<and> shows_lines (fold add_char s ls) t' \<and> ansi_state t' = 0 \<and> same_input t t'"
proof (induction s arbitrary: t ls)
  case (Cons c s)
  then have "c \<noteq> ESC" by auto
  from PutChar_shows [OF Cons.prems(1,2) this] obtain u
    where u: "TW_PutChar c t = Some u" "shows_lines (add_char c ls) u" "ansi_state u = 0" "same_input t u" by blast
  from Cons.IH [OF u(2,3)] Cons.prems(3) u same_input_trans show ?case by fastforce
qed simp

lemma Clear_shows: "shows_lines [[]] (Clear t)" "ansi_state (Clear t) = 0"
  by (simp_all add: shows_lines_def Clear_def term_ok_def blank_row_def numeral_eq_Suc)

section \<open>Properties\<close>

text \<open>Printing is memory safe: from a well-formed terminal, whatever the text (escape sequences
  included), the machine never touches the grid outside its 25 by 60 cells, ends in a well-formed
  terminal and leaves the input line and the history alone.\<close>

theorem Print_memory_safe:
  assumes "term_ok t"
  shows "\<exists>t'. TW_Print s t = Some t' \<and> term_ok t' \<and> same_input t t'"
  by (rule Print_safe [OF assms])

definition blank_terminal :: terminal where
  "blank_terminal = \<lparr>buffer = replicate 25 (replicate 60 NUL), color_buffer = replicate 25 (replicate 60 0xFFFFFF),
     cursor_row = 0, cursor_col = 0, ansi_state = 0, ansi_val = 0, current_color = 0xFFFFFF, mode = SHELL,
     active_editor = False, input = replicate 128 NUL, input_len = 0, input_cursor = 0,
     history = replicate 10 (replicate 128 NUL), history_count = 0, history_idx = 0\<rparr>"

lemma blank_terminal_ok: "term_ok blank_terminal"
  by (simp add: term_ok_def blank_terminal_def)

theorem Print_memory_safe_witness:
  "\<exists>t'. TW_Print (replicate 2000 CHR ''x'' @ [ESC, CHR ''['']) blank_terminal = Some t' \<and> term_ok t'"
  using Print_memory_safe [OF blank_terminal_ok] by blast

text \<open>C1: the grid implements a scrolling text: on a terminal that shows the last 25 lines of a text,
  printing more text (without escape sequences) shows the last 25 lines of the longer text, wrapped
  at 60 columns, with the cursor at its end; a cleared terminal shows the empty text.\<close>

theorem Print_refines_text:
  assumes "shows_lines ls t" and "ansi_state t = 0" and "ESC \<notin> set s"
  shows "(\<exists>t'. TW_Print s t = Some t' \<and> shows_lines (fold add_char s ls) t' \<and> ansi_state t' = 0)
    \<and> shows_lines [[]] (Clear t)"
  using Print_shows [OF assms] Clear_shows by blast

theorem Print_refines_text_witness:
  "\<exists>t'. TW_Print (''ab'' @ [NL] @ ''c'') (Clear blank_terminal) = Some t' \<and> shows_lines [''ab'', ''c''] t'"
  using Print_refines_text [OF Clear_shows, of "''ab'' @ [NL] @ ''c''"] by (auto simp: add_char_def)

lemma Print_digits:
  "ansi_state t = 2 \<Longrightarrow> (\<forall>c \<in> set ds. is_digit c) \<Longrightarrow>
   TW_Print (ds @ s) t = TW_Print s (t\<lparr>ansi_val := foldl (\<lambda>v c. v * 10 + digit_val c) (ansi_val t) ds\<rparr>)"
proof (induction ds arbitrary: t)
  case (Cons c ds)
  then show ?case by (simp add: TW_PutChar_def)
qed simp

text \<open>A colour sequence prints nothing: ESC, \<open>[\<close>, decimal digits and \<open>m\<close> change the colour of the
  following characters as the number says, and nothing else on the screen or the cursor; the
  machine is back in its initial state.\<close>

theorem Print_color_sequence:
  assumes "ansi_state t = 0" and "\<forall>c \<in> set ds. is_digit c"
  shows "let v = foldl (\<lambda>v c. v * 10 + digit_val c) 0 ds in
    TW_Print ([ESC, CHR ''[''] @ ds @ [CHR ''m'']) t
      = Some (t\<lparr>ansi_val := v, current_color := sgr_color v (current_color t), ansi_state := 0\<rparr>)"
proof -
  have "\<not> is_digit CHR ''m''" by (simp add: is_digit_def uchar_def)
  moreover have "TW_Print ([ESC, CHR ''[''] @ ds @ [CHR ''m'']) t = TW_Print (ds @ [CHR ''m'']) (t\<lparr>ansi_state := 2, ansi_val := 0\<rparr>)"
    using assms(1) by (simp add: TW_PutChar_def)
  ultimately show ?thesis
    using assms Print_digits [of "t\<lparr>ansi_state := 2, ansi_val := 0\<rparr>" ds "[CHR ''m'']"]
    by (simp add: Let_def TW_PutChar_def)
qed

theorem Print_color_sequence_witness:
  "TW_Print ([ESC] @ ''[32m'') blank_terminal = Some (blank_terminal\<lparr>ansi_val := 32, current_color := 0x00FF00\<rparr>)"
  using Print_color_sequence [of blank_terminal "''32''"]
  by (simp add: Let_def is_digit_def digit_val_def uchar_def sgr_color_def blank_terminal_def)

end
