(* ===== verification/Ext4.thy ===== *)
theory Ext4
  imports Disk KHeap
begin

text \<open>
  The disk half of src/core/fs/ext4.cpp: the on-disk structures, mounting, the reader of file
  system blocks, the loop over directory records that \<open>Ls\<close>, \<open>ReadFile\<close> and \<open>GetFileList\<close>
  share, and \<open>Ls\<close>. A buffer from \<open>kmalloc\<close> is used without a test, so a failed allocation is a
  fault; so is reading a structure past the end of its buffer. Offsets and sizes that stay below
  2^32 by the loop bounds are naturals.
\<close>

section \<open>On-disk structures\<close>

record ext4_superblock =
  inodes_count :: u32
  blocks_count :: u32
  r_blocks_count :: u32
  free_blocks_count :: u32
  free_inodes_count :: u32
  first_data_block :: u32
  log_block_size :: u32
  log_frag_size :: u32
  blocks_per_group :: u32
  frags_per_group :: u32
  inodes_per_group :: u32
  sb_mtime :: u32
  sb_wtime :: u32
  mnt_count :: u16
  max_mnt_count :: u16
  sb_magic :: u16

text \<open>The fields after \<open>magic\<close> are never read and left out.\<close>

definition superblock_at :: "u8 list \<Rightarrow> ext4_superblock option" where
  "superblock_at m = do {
     a0 \<leftarrow> word_at 0 m; a1 \<leftarrow> word_at 4 m; a2 \<leftarrow> word_at 8 m; a3 \<leftarrow> word_at 12 m; a4 \<leftarrow> word_at 16 m;
     a5 \<leftarrow> word_at 20 m; a6 \<leftarrow> word_at 24 m; a7 \<leftarrow> word_at 28 m; a8 \<leftarrow> word_at 32 m; a9 \<leftarrow> word_at 36 m;
     a10 \<leftarrow> word_at 40 m; a11 \<leftarrow> word_at 44 m; a12 \<leftarrow> word_at 48 m;
     h0 \<leftarrow> half_at 52 m; h1 \<leftarrow> half_at 54 m; h2 \<leftarrow> half_at 56 m;
     Some \<lparr>inodes_count = a0, blocks_count = a1, r_blocks_count = a2, free_blocks_count = a3,
       free_inodes_count = a4, first_data_block = a5, log_block_size = a6, log_frag_size = a7,
       blocks_per_group = a8, frags_per_group = a9, inodes_per_group = a10, sb_mtime = a11,
       sb_wtime = a12, mnt_count = h0, max_mnt_count = h1, sb_magic = h2\<rparr>
   }"

record ext4_group_desc =
  block_bitmap :: u32
  inode_bitmap :: u32
  inode_table :: u32

definition group_desc_at :: "u8 list \<Rightarrow> ext4_group_desc option" where
  "group_desc_at m = do {
     b \<leftarrow> word_at 0 m; i \<leftarrow> word_at 4 m; t \<leftarrow> word_at 8 m;
     Some \<lparr>block_bitmap = b, inode_bitmap = i, inode_table = t\<rparr>
   }"

text \<open>\<open>inode->size\<close> and \<open>inode->block[b]\<close> of the inode at byte \<open>at\<close> of a buffer; an inode
  structure has 128 bytes.\<close>

definition inode_bytes :: nat where "inode_bytes = 128"

definition inode_size :: "u8 list \<Rightarrow> nat \<Rightarrow> u32 option" where
  "inode_size m at = word_at (at + 4) m"

definition inode_block :: "u8 list \<Rightarrow> nat \<Rightarrow> nat \<Rightarrow> u32 option" where
  "inode_block m at b = word_at (at + 40 + 4 * b) m"

section \<open>State\<close>

record vfile =
  vf_name :: string
  vf_data :: "char list option"
  vf_size :: int
  vf_is_dir :: bool

record ext4 =
  e_disk :: drive
  e_heap :: kheap
  e_block_size :: u32
  e_sb :: "ext4_superblock option"
  e_bgd :: ext4_group_desc
  e_vfs :: "vfile list"
  e_log :: "string list"

definition ext4_print :: "string \<Rightarrow> ext4 \<Rightarrow> ext4" where
  "ext4_print t s = s\<lparr>e_log := e_log s @ [t]\<rparr>"

text \<open>\<open>kmalloc(n)\<close> for a buffer that is written right away.\<close>

definition ext4_alloc :: "u32 \<Rightarrow> ext4 \<Rightarrow> ext4 option" where
  "ext4_alloc n s = (let (p, h) = kmalloc n (e_heap s) in if p = 0 then None else Some (s\<lparr>e_heap := h\<rparr>))"

section \<open>Reading blocks, mounting\<close>

definition ReadFSBlock :: "ext4 \<Rightarrow> u32 \<Rightarrow> u8 list" where
  "ReadFSBlock s block_num =
     (let sectors_per_block = e_block_size s div 512; start_sector = block_num * sectors_per_block
      in concat (map (\<lambda>i. disk_read (start_sector + of_nat i) (e_disk s)) [0..<unat sectors_per_block]))"

text \<open>\<open>1024 << log_block_size\<close>, an \<open>int\<close> shift: undefined from 22 on.\<close>

definition block_size_of :: "u32 \<Rightarrow> u32 option" where
  "block_size_of n = (if n < 22 then Some (push_bit (unat n) 1024) else None)"

definition ext4_Init :: "ext4 \<Rightarrow> ext4 option" where
  "ext4_Init s = do {
     let buf = disk_read 2 (e_disk s) @ disk_read 3 (e_disk s);
     sb \<leftarrow> superblock_at buf;
     if sb_magic sb \<noteq> 0xEF53 then Some (ext4_print (''FAIL! Expected EF53'' @ [NL]) s)
     else do {
       let s1 = ext4_print (''[Ext4] Magic: OK (EF53)'' @ [NL]) s;
       bs \<leftarrow> block_size_of (log_block_size sb);
       let s2 = s1\<lparr>e_sb := Some sb, e_block_size := bs\<rparr>;
       let s3 = ext4_print ((if bs = 1024 then ''[Ext4] Block Size: 1024''
          else if bs = 4096 then ''[Ext4] Block Size: 4096'' else ''[Ext4] Block Size: Unknown'') @ [NL]) s2;
       s4 \<leftarrow> ext4_alloc bs s3;
       bgd \<leftarrow> group_desc_at (ReadFSBlock s4 (if bs = 1024 then 2 else 1));
       Some (ext4_print (''[Ext4] Init Complete.'' @ [NL]) (s4\<lparr>e_bgd := bgd, e_heap := kfree 0 (e_heap s4)\<rparr>))
     }
   }"

text \<open>The lines the three readers of the root directory begin with: two buffers, the inode table in
  one, the root inode at byte 256 of it, its first data block in the other.\<close>

definition load_root :: "ext4 \<Rightarrow> (u8 list \<times> u8 list \<times> ext4) option" where
  "load_root s = do {
     s1 \<leftarrow> ext4_alloc (e_block_size s) s;
     let inode_table_buf = ReadFSBlock s1 (inode_table (e_bgd s1));
     dir_block \<leftarrow> inode_block inode_table_buf 256 0;
     s2 \<leftarrow> ext4_alloc (e_block_size s1) s1;
     Some (inode_table_buf, ReadFSBlock s2 dir_block, s2)
   }"

section \<open>The directory loop\<close>

text \<open>\<open>visit\<close> is what a reader does with an entry in use, given its offset; it may stop the loop.\<close>

function dir_loop :: "(nat \<Rightarrow> 's \<Rightarrow> ('s \<times> bool) option) \<Rightarrow> nat \<Rightarrow> nat \<Rightarrow> u8 list \<Rightarrow> nat \<Rightarrow> 's \<Rightarrow> 's option" where
  "dir_loop visit sz bs buf off st =
     (if off < sz \<and> off < bs then do {
        rec_len \<leftarrow> half_at (off + 4) buf;
        if rec_len = 0 then Some st
        else do {
          inode \<leftarrow> word_at off buf;
          r \<leftarrow> (if inode \<noteq> 0 then visit off st else Some (st, False));
          if snd r then Some (fst r)
          else dir_loop visit sz bs buf (off + unat rec_len) (fst r)
        }
      } else Some st)"
  by pat_completeness auto
termination
  by (relation "measure (\<lambda>(visit, sz, bs, buf, off, st). bs - off)")
    (auto simp: unat_gt_0 intro!: diff_less_mono2)

declare dir_loop.simps [simp del]

definition name_len_at :: "u8 list \<Rightarrow> nat \<Rightarrow> nat option" where
  "name_len_at buf off = map_option unat (arr_get buf (int (off + 6)))"

definition file_type_at :: "u8 list \<Rightarrow> nat \<Rightarrow> u8 option" where
  "file_type_at buf off = arr_get buf (int (off + 7))"

text \<open>The first \<open>len\<close> bytes of \<open>entry->name\<close>, copied to a local array and terminated.\<close>

definition name_at :: "u8 list \<Rightarrow> nat \<Rightarrow> nat \<Rightarrow> char list option" where
  "name_at buf off len =
     (if off + 8 + len \<le> length buf then Some (map char_of_byte (take len (drop (off + 8) buf)) @ [NUL])
      else None)"

section \<open>Listing\<close>

fun str_cat :: "char list \<Rightarrow> char list \<Rightarrow> int \<Rightarrow> int \<Rightarrow> (char list \<times> int) option" where
  "str_cat dest [] off mx = None"
| "str_cat dest (c # src) off mx =
     (if c \<noteq> NUL \<and> off < mx - 2 then do {
        d \<leftarrow> arr_set dest off c; str_cat d src (off + 1) mx
      } else do {
        d \<leftarrow> arr_set dest off NUL; Some (d, off)
      })"

type_synonym ls_state = "char list \<times> int \<times> bool"

definition ls_visit :: "u8 list \<Rightarrow> int \<Rightarrow> bool \<Rightarrow> nat \<Rightarrow> ls_state \<Rightarrow> (ls_state \<times> bool) option" where
  "ls_visit buf max_len show_details off st = do {
     let (out, ptr, found) = st;
     len \<leftarrow> name_len_at buf off;
     if 0 < len then do {
       name \<leftarrow> name_at buf off len;
       (out, ptr) \<leftarrow> (if show_details then str_cat out (''-rw-r--r-- 1 root root 0 '' @ [NUL]) ptr max_len
                      else Some (out, ptr));
       (out, ptr) \<leftarrow> str_cat out ('' [FILE] '' @ [NUL]) ptr max_len;
       (out, ptr) \<leftarrow> str_cat out name ptr max_len;
       (out, ptr) \<leftarrow> str_cat out [NL, NUL] ptr max_len;
       Some ((out, ptr, True), False)
     } else Some (st, False)
   }"

definition ext4_Ls :: "char list \<Rightarrow> int \<Rightarrow> bool \<Rightarrow> ext4 \<Rightarrow> (char list \<times> ext4) option" where
  "ext4_Ls out_buf max_len show_details s = do {
     out \<leftarrow> arr_set out_buf 0 NUL;
     if e_block_size s = 0 then do {
       (out, ptr) \<leftarrow> str_cat out (''Ext4 Not Mounted.'' @ [NL, NUL]) 0 max_len;
       Some (out, s)
     } else do {
       (inode_table_buf, dir_buf, s1) \<leftarrow> load_root s;
       (out, ptr) \<leftarrow> str_cat out (''Listing /:'' @ [NL, NUL]) 0 max_len;
       fsize \<leftarrow> inode_size inode_table_buf 256;
       (out, ptr, found) \<leftarrow> dir_loop (ls_visit dir_buf max_len show_details) (unat fsize)
          (unat (e_block_size s)) dir_buf 0 (out, ptr, False);
       (out, ptr) \<leftarrow> (if found then Some (out, ptr)
                      else str_cat out ('' (Empty Directory)'' @ [NL, NUL]) ptr max_len);
       Some (out, s1)
     }
   }"

section \<open>What the directory loop and the listing compute\<close>

text \<open>A run that returns either ends at this offset for every reader, or takes one record and goes on.\<close>

lemma dir_loopE:
  fixes w :: "nat \<Rightarrow> 'b \<Rightarrow> ('b \<times> bool) option"
  assumes run: "dir_loop v sz bs buf off a = Some a'"
  obtains (exit) "a' = a" "\<And>b. dir_loop w sz bs buf off b = Some b"
    | (record_at) n ino x stop where "bs - (off + n) < bs - off"
      "(if ino \<noteq> (0 :: u32) then v off a else Some (a, False)) = Some (x, stop)"
      "if stop then a' = x else dir_loop v sz bs buf (off + n) x = Some a'"
      "\<And>b. dir_loop w sz bs buf off b = (if ino \<noteq> 0 then w off b else Some (b, False)) \<bind>
        (\<lambda>r. if snd r then Some (fst r) else dir_loop w sz bs buf (off + n) (fst r))"
proof -
  note v = run [unfolded dir_loop.simps [of v sz bs buf off a]]
  note w = dir_loop.simps [of w sz bs buf off]
  show thesis
  proof (cases "off < sz \<and> off < bs \<and> half_at (off + 4) buf \<noteq> Some 0")
    case False
    with v have "a' = a" by (auto split: bind_splits if_splits)
    moreover have "dir_loop w sz bs buf off b = Some b" for b
      using v False by (auto simp: w split: bind_splits if_splits)
    ultimately show thesis by (rule exit)
  next
    case True
    with v obtain n where n: "half_at (off + 4) buf = Some n" by (auto split: bind_splits)
    with True have n0: "n \<noteq> 0" by auto
    from v n n0 True obtain ino where ino: "word_at off buf = Some ino" by (auto split: bind_splits)
    from v n n0 True ino obtain x stop where x: "(if ino \<noteq> 0 then v off a else Some (a, False)) = Some (x, stop)"
      by (cases "if ino \<noteq> 0 then v off a else Some (a, False)") auto
    have "(if ino \<noteq> 0 then v off a else Some (a, False)) \<bind>
        (\<lambda>r. if snd r then Some (fst r) else dir_loop v sz bs buf (off + unat n) (fst r)) = Some a'"
      using v n n0 True ino by simp
    then have "if stop then a' = x else dir_loop v sz bs buf (off + unat n) x = Some a'"
      unfolding x by auto
    moreover have "dir_loop w sz bs buf off b = (if ino \<noteq> 0 then w off b else Some (b, False)) \<bind>
        (\<lambda>r. if snd r then Some (fst r) else dir_loop w sz bs buf (off + unat n) (fst r))" for b
      using n n0 True ino by (simp add: w)
    moreover have "bs - (off + unat n) < bs - off"
      using n0 True by (simp add: unat_gt_0 diff_less_mono2)
    ultimately show thesis using x record_at by blast
  qed
qed

text \<open>Two readers of the same records that agree on where to stop run in step.\<close>

lemma dir_loop_sim:
  assumes step: "\<And>off a b a' stop. R a b \<Longrightarrow> v off a = Some (a', stop) \<Longrightarrow>
      \<exists>b'. w off b = Some (b', stop) \<and> R a' b'"
  shows "dir_loop v sz bs buf off a = Some a' \<Longrightarrow> R a b \<Longrightarrow>
    \<exists>b'. dir_loop w sz bs buf off b = Some b' \<and> R a' b'"
proof (induction "bs - off" arbitrary: off a b rule: less_induct)
  case less
  from less.prems(1) show ?case
  proof (cases rule: dir_loopE [where w = w])
    case exit
    with less.prems(2) show ?thesis by auto
  next
    case (record_at n ino x stop)
    have "\<exists>y. (if ino \<noteq> 0 then w off b else Some (b, False)) = Some (y, stop) \<and> R x y"
      using step less.prems(2) record_at(2) by (auto split: if_splits)
    then obtain y where "(if ino \<noteq> 0 then w off b else Some (b, False)) = Some (y, stop)" "R x y"
      by blast
    with record_at(3,4) less.hyps [OF record_at(1), of x y] show ?thesis by (cases stop) auto
  qed
qed

lemma dir_loop_inv:
  assumes "\<And>off a a' stop. P a \<Longrightarrow> v off a = Some (a', stop) \<Longrightarrow> P a'"
    and "dir_loop v sz bs buf off a = Some a'" and "P a"
  shows "P a'"
proof -
  have "\<exists>b'. dir_loop v sz bs buf off a = Some b' \<and> (a' = b' \<and> P a')"
    by (rule dir_loop_sim [where R = "\<lambda>a b. a = b \<and> P a", OF _ assms(2)]) (use assms(1,3) in auto)
  then show ?thesis by blast
qed

text \<open>The names of a directory, in order, as C strings.\<close>

definition names_visit :: "u8 list \<Rightarrow> nat \<Rightarrow> string list \<Rightarrow> (string list \<times> bool) option" where
  "names_visit buf off st = do {
     len \<leftarrow> name_len_at buf off;
     if 0 < len then do { name \<leftarrow> name_at buf off len; Some (st @ [cstr name], False) }
     else Some (st, False)
   }"

lemma name_at_terminated: "name_at buf off len = Some n \<Longrightarrow> terminated n"
  by (auto simp: name_at_def split: if_splits)

text \<open>\<open>dest\<close> holds the text \<open>t\<close>, inside the bound \<open>mx\<close> the callers pass.\<close>

definition holds :: "char list \<Rightarrow> string \<Rightarrow> int \<Rightarrow> bool" where
  "holds dest t mx \<longleftrightarrow> 2 \<le> mx \<and> mx \<le> int (length dest) \<and> int (length t) \<le> mx - 2 \<and> c_string t
     \<and> take (length t) dest = t"

lemma holds_set:
  assumes h: "holds dest t mx" and lt: "int (length t) < mx - 2" and c: "c \<noteq> NUL"
  shows "\<exists>d. arr_set dest (int (length t)) c = Some d \<and> holds d (t @ [c]) mx"
proof -
  have "length t < length dest" using h lt by (simp add: holds_def)
  then have "arr_set dest (int (length t)) c = Some (dest[length t := c])" by (simp add: arr_set_def)
  moreover have "take (length (t @ [c])) (dest[length t := c]) = t @ [c]"
    using h \<open>length t < length dest\<close> by (simp add: holds_def take_Suc_conv_app_nth)
  ultimately show ?thesis using h lt c by (auto simp: holds_def c_string_def)
qed

text \<open>Appending stops short of the bound, terminates the text, and never leaves the buffer.\<close>

lemma str_cat_spec:
  "holds dest t mx \<Longrightarrow> terminated src \<Longrightarrow>
   \<exists>d. str_cat dest src (int (length t)) mx = Some (d, int (length (take (nat (mx - 2)) (t @ cstr src))))
     \<and> holds d (take (nat (mx - 2)) (t @ cstr src)) mx
     \<and> cstr d = take (nat (mx - 2)) (t @ cstr src) \<and> terminated d \<and> length d = length dest"
proof (induction src arbitrary: dest t)
  case Nil
  then show ?case by simp
next
  case (Cons c src)
  have fits: "length t \<le> nat (mx - 2)" "length t < length dest" using Cons.prems(1) by (auto simp: holds_def)
  show ?case
  proof (cases "c \<noteq> NUL \<and> int (length t) < mx - 2")
    case True
    then obtain d where d: "arr_set dest (int (length t)) c = Some d" "holds d (t @ [c]) mx"
      using holds_set [OF Cons.prems(1)] by blast
    from Cons.IH [OF d(2)] Cons.prems(2) True arr_set_length [OF d(1)] show ?thesis
      by (auto simp: d(1) add.commute)
  next
    case False
    let ?d = "dest[length t := NUL]"
    have take: "take (nat (mx - 2)) (t @ cstr (c # src)) = t"
      using False fits Cons.prems(1) by (auto simp: holds_def)
    have "arr_set dest (int (length t)) NUL = Some ?d" using fits by (simp add: arr_set_def)
    moreover have "?d = t @ NUL # drop (Suc (length t)) dest"
      using fits Cons.prems(1) by (simp add: holds_def upd_conv_take_nth_drop)
    moreover have "NUL \<notin> set t" using Cons.prems(1) by (simp add: holds_def c_string_def)
    moreover have "holds ?d t mx" using Cons.prems(1) by (simp add: holds_def)
    ultimately show ?thesis unfolding take using False fits by auto
  qed
qed

text \<open>The buffer after a prefix \<open>t\<close> of the listing has been appended.\<close>

definition shows_text :: "char list \<Rightarrow> char list \<Rightarrow> int \<Rightarrow> int \<Rightarrow> string \<Rightarrow> bool" where
  "shows_text buf0 out ptr mx t \<longleftrightarrow> holds out (take (nat (mx - 2)) t) mx
     \<and> ptr = int (length (take (nat (mx - 2)) t))
     \<and> cstr out = take (nat (mx - 2)) t \<and> terminated out \<and> length out = length buf0"

lemma take_take_append: "take n (take n a @ b) = take n (a @ b)"
  by (cases "n \<le> length a") simp_all

lemma str_cat_shows:
  assumes "shows_text buf0 out ptr mx t" and "terminated src"
  shows "\<exists>out' ptr'. str_cat out src ptr mx = Some (out', ptr') \<and> shows_text buf0 out' ptr' mx (t @ cstr src)"
proof -
  define u where "u = take (nat (mx - 2)) t"
  have u: "take (nat (mx - 2)) (u @ cstr src) = take (nat (mx - 2)) (t @ cstr src)"
    unfolding u_def by (rule take_take_append)
  have out: "holds out u mx" "ptr = int (length u)" "length out = length buf0"
    using assms(1) unfolding shows_text_def u_def by simp_all
  from str_cat_spec [OF out(1) assms(2), unfolded u]
  show ?thesis unfolding shows_text_def out(2,3) by metis
qed

definition ls_line :: "bool \<Rightarrow> string \<Rightarrow> string" where
  "ls_line show_details n =
     (if show_details then ''-rw-r--r-- 1 root root 0 '' else []) @ '' [FILE] '' @ n @ [NL]"

definition ls_text :: "bool \<Rightarrow> string list \<Rightarrow> string" where
  "ls_text show_details ns = ''Listing /:'' @ [NL] @ concat (map (ls_line show_details) ns)"

lemma ls_visit_names:
  assumes R: "shows_text buf0 out ptr mx (ls_text sd ns) \<and> found = (ns \<noteq> [])"
    and v: "names_visit buf off ns = Some (ns', stop)"
  shows "\<exists>out' ptr' found'. ls_visit buf mx sd off (out, ptr, found) = Some ((out', ptr', found'), stop)
    \<and> shows_text buf0 out' ptr' mx (ls_text sd ns') \<and> found' = (ns' \<noteq> [])"
proof -
  obtain len where len: "name_len_at buf off = Some len" using v by (auto simp: names_visit_def split: bind_splits)
  show ?thesis
  proof (cases "0 < len")
    case False
    with v len R show ?thesis by (auto simp: names_visit_def ls_visit_def)
  next
    case True
    with v len obtain name where name: "name_at buf off len = Some name" "ns' = ns @ [cstr name]" "\<not> stop"
      by (auto simp: names_visit_def split: bind_splits)
    have t: "terminated name" using name_at_terminated [OF name(1)] .
    let ?d = "if sd then ''-rw-r--r-- 1 root root 0 '' else []"
    obtain o1 p1 where 1: "(if sd then str_cat out (''-rw-r--r-- 1 root root 0 '' @ [NUL]) ptr mx else Some (out, ptr)) = Some (o1, p1)"
      and s1: "shows_text buf0 o1 p1 mx (ls_text sd ns @ ?d)"
      using str_cat_shows [of buf0 out ptr mx "ls_text sd ns" "''-rw-r--r-- 1 root root 0 '' @ [NUL]"] R by (cases sd) auto
    obtain o2 p2 where 2: "str_cat o1 ('' [FILE] '' @ [NUL]) p1 mx = Some (o2, p2)"
      and s2: "shows_text buf0 o2 p2 mx ((ls_text sd ns @ ?d) @ '' [FILE] '')"
      using str_cat_shows [OF s1, of "'' [FILE] '' @ [NUL]"] by auto
    obtain o3 p3 where 3: "str_cat o2 name p2 mx = Some (o3, p3)"
      and s3: "shows_text buf0 o3 p3 mx (((ls_text sd ns @ ?d) @ '' [FILE] '') @ cstr name)"
      using str_cat_shows [OF s2 t] by auto
    obtain o4 p4 where 4: "str_cat o3 [NL, NUL] p3 mx = Some (o4, p4)"
      and s4: "shows_text buf0 o4 p4 mx ((((ls_text sd ns @ ?d) @ '' [FILE] '') @ cstr name) @ [NL])"
      using str_cat_shows [OF s3, of "[NL, NUL]"] by auto
    have "(((ls_text sd ns @ ?d) @ '' [FILE] '') @ cstr name) @ [NL] = ls_text sd ns'"
      using name(2) by (simp add: ls_text_def ls_line_def)
    with s4 have "shows_text buf0 o4 p4 mx (ls_text sd ns')" by simp
    moreover have "ls_visit buf mx sd off (out, ptr, found) = Some ((o4, p4, True), False)"
      using True len name(1) 1 2 3 4 by (cases sd) (simp_all add: ls_visit_def)
    ultimately show ?thesis using name by auto
  qed
qed

text \<open>C33: \<open>Ls\<close> never writes outside the buffer it is given: whenever the directory can be read, the
  buffer keeps its length and holds a terminated string, the heading followed by one line per name
  of the directory (or the empty-directory note), cut at two characters below the limit.\<close>

theorem ext4_Ls_text:
  assumes bounds: "2 \<le> max_len" "max_len \<le> int (length out_buf)"
    and mounted: "e_block_size s \<noteq> 0"
    and root: "load_root s = Some (table_buf, dir_buf, s1)" "inode_size table_buf 256 = Some sz"
    and walk: "dir_loop (names_visit dir_buf) (unat sz) (unat (e_block_size s)) dir_buf 0 [] = Some ns"
  shows "\<exists>out'. ext4_Ls out_buf max_len show_details s = Some (out', s1)
    \<and> length out' = length out_buf \<and> terminated out'
    \<and> cstr out' = take (nat (max_len - 2)) (ls_text show_details ns
        @ (if ns = [] then '' (Empty Directory)'' @ [NL] else []))"
proof -
  let ?b = "out_buf[0 := NUL]"
  have pos: "0 < length out_buf" using bounds by linarith
  then have set: "arr_set out_buf 0 NUL = Some ?b" by (simp add: arr_set_def)
  from pos obtain c cs where "out_buf = c # cs" by (cases out_buf) auto
  then have "cstr ?b = []" "terminated ?b" by simp_all
  then have "shows_text out_buf ?b 0 max_len []" using bounds by (simp add: shows_text_def holds_def c_string_def)
  from str_cat_shows [OF this, of "''Listing /:'' @ [NL, NUL]"]
  obtain o1 p1 where 1: "str_cat ?b (''Listing /:'' @ [NL, NUL]) 0 max_len = Some (o1, p1)"
    and s1: "shows_text out_buf o1 p1 max_len (ls_text show_details [])"
    by (auto simp: ls_text_def)
  let ?R = "\<lambda>ns (out, ptr, found). shows_text out_buf out ptr max_len (ls_text show_details ns) \<and> found = (ns \<noteq> [])"
  have "\<exists>b'. dir_loop (ls_visit dir_buf max_len show_details) (unat sz) (unat (e_block_size s)) dir_buf 0
      (o1, p1, False) = Some b' \<and> ?R ns b'"
    by (rule dir_loop_sim [where R = ?R, OF _ walk])
      (use s1 ls_visit_names [of out_buf _ _ max_len show_details _ _ dir_buf] in \<open>fastforce+\<close>)
  then obtain o2 p2 where 2: "dir_loop (ls_visit dir_buf max_len show_details) (unat sz) (unat (e_block_size s))
      dir_buf 0 (o1, p1, False) = Some (o2, p2, ns \<noteq> [])"
    and s2: "shows_text out_buf o2 p2 max_len (ls_text show_details ns)" by auto
  let ?e = "if ns = [] then '' (Empty Directory)'' @ [NL] else []"
  obtain o3 p3 where 3: "(if ns \<noteq> [] then Some (o2, p2)
      else str_cat o2 ('' (Empty Directory)'' @ [NL, NUL]) p2 max_len) = Some (o3, p3)"
    and s3: "shows_text out_buf o3 p3 max_len (ls_text show_details ns @ ?e)"
    using str_cat_shows [OF s2, of "'' (Empty Directory)'' @ [NL, NUL]"] s2 by (cases "ns = []") auto
  have "ext4_Ls out_buf max_len show_details s = Some (o3, s1)"
    using mounted set root 1 2 3 by (simp add: ext4_Ls_def del: str_cat.simps)
  with s3 show ?thesis by (auto simp: shows_text_def)
qed

text \<open>A small mounted volume: 1024-byte blocks, the inode table in block 5 and the root directory in
  block 6 with one entry, \<open>a.txt\<close>, inode 4, whose data block 7 holds \<open>hi\<close>.\<close>

definition demo_disk :: drive where
  "demo_disk n =
     (if n = 10 then (replicate 512 0)[261 := 4, 296 := 6, 388 := 2, 424 := 7]
      else if n = 12 then
        [4, 0, 0, 0, 0, 4, 5, 1] @ map byte_of_char ''a.txt'' @ replicate 499 0
      else if n = 14 then map byte_of_char ''hi'' @ replicate 510 0
      else replicate 512 0)"

definition demo_ext4 :: ext4 where
  "demo_ext4 = \<lparr>e_disk = demo_disk, e_heap = boot_heap, e_block_size = 1024, e_sb = None,
     e_bgd = \<lparr>block_bitmap = 0, inode_bitmap = 0, inode_table = 5\<rparr>, e_vfs = [], e_log = []\<rparr>"

lemma demo_block: "ReadFSBlock (demo_ext4\<lparr>e_heap := h\<rparr>) b = demo_disk (take_bit 28 (b * 2)) @ demo_disk (take_bit 28 (b * 2 + 1))"
  by (simp add: ReadFSBlock_def demo_ext4_def disk_read_def upt_conv_Cons)

lemma demo_alloc: "\<exists>h. ext4_alloc 1024 demo_ext4 = Some (demo_ext4\<lparr>e_heap := h\<rparr>)
   \<and> (\<exists>h'. ext4_alloc 1024 (demo_ext4\<lparr>e_heap := h\<rparr>) = Some (demo_ext4\<lparr>e_heap := h'\<rparr>))"
  by (simp add: ext4_alloc_def demo_ext4_def boot_heap_def kheap_init_def kmalloc_def align_curr_def)

lemma demo_root:
  "\<exists>h. load_root demo_ext4 = Some (demo_disk 10 @ demo_disk 11, demo_disk 12 @ demo_disk 13, demo_ext4\<lparr>e_heap := h\<rparr>)"
proof -
  obtain h h' where h: "ext4_alloc 1024 demo_ext4 = Some (demo_ext4\<lparr>e_heap := h\<rparr>)"
    "ext4_alloc 1024 (demo_ext4\<lparr>e_heap := h\<rparr>) = Some (demo_ext4\<lparr>e_heap := h'\<rparr>)"
    using demo_alloc by blast
  have f: "e_block_size demo_ext4 = 1024" "inode_table (e_bgd demo_ext4) = 5" by (simp_all add: demo_ext4_def)
  have b: "inode_block (demo_disk 10 @ demo_disk 11) 256 0 = Some 6"
    by (simp add: inode_block_def word_at_def demo_disk_def nth_append le32_def)
  have "load_root demo_ext4 = Some (demo_disk 10 @ demo_disk 11, demo_disk 12 @ demo_disk 13, demo_ext4\<lparr>e_heap := h'\<rparr>)"
    using h b by (simp add: load_root_def f demo_block)
  then show ?thesis by blast
qed

lemma demo_walk:
  "dir_loop (names_visit (demo_disk 12 @ demo_disk 13)) 1024 1024 (demo_disk 12 @ demo_disk 13) 0 [] = Some [''a.txt'']"
  by (simp add: dir_loop.simps half_at_def word_at_def names_visit_def name_len_at_def name_at_def arr_get_def
      demo_disk_def nth_append le32_def word_of_bytes_def)

theorem ext4_Ls_text_witness:
  "\<exists>out s1. ext4_Ls (replicate 1024 CHR ''x'') 1024 False demo_ext4 = Some (out, s1)
    \<and> cstr out = ''Listing /:'' @ [NL] @ '' [FILE] a.txt'' @ [NL]"
proof -
  obtain h where h: "load_root demo_ext4 = Some (demo_disk 10 @ demo_disk 11, demo_disk 12 @ demo_disk 13, demo_ext4\<lparr>e_heap := h\<rparr>)"
    using demo_root by blast
  have sz: "inode_size (demo_disk 10 @ demo_disk 11) 256 = Some 1024"
    by (simp add: inode_size_def word_at_def demo_disk_def nth_append le32_def)
  have bs: "e_block_size demo_ext4 = 1024" by (simp add: demo_ext4_def)
  have "dir_loop (names_visit (demo_disk 12 @ demo_disk 13)) (unat (1024 :: u32)) (unat (e_block_size demo_ext4))
      (demo_disk 12 @ demo_disk 13) 0 [] = Some [''a.txt'']"
    using demo_walk bs by simp
  from ext4_Ls_text [OF _ _ _ h sz this, of 1024 "replicate 1024 CHR ''x''" False] bs
  show ?thesis by (auto simp: ls_text_def ls_line_def)
qed

end
