(* ===== verification/Vfs.thy ===== *)
theory Vfs
  imports Ext4
begin

text \<open>
  The other half of src/core/fs/ext4.cpp: the list of in-memory files that shadows the read-only
  disk, and the operations the shell and the editor call. A name, a path or a directory entry is
  represented by the C string it holds (\<open>utils_strcmp_zero\<close> of \<open>CString\<close> is why \<open>strcmp\<close> is
  equality there); copying one of 64 characters or more into a name field is a fault. The list
  is kept newest first, as the code links it. \<open>kfree\<close> does nothing, so it does not appear.
\<close>

section \<open>Reading\<close>

definition is_file :: "string \<Rightarrow> vfile \<Rightarrow> bool" where
  "is_file name f \<longleftrightarrow> \<not> vf_is_dir f \<and> vf_name f = name"

text \<open>\<open>for (i < n) buf[i] = data[i]; buf[n] = 0\<close>.\<close>

definition store_string :: "char list \<Rightarrow> char list \<Rightarrow> char list option" where
  "store_string buf data =
     (if length data < length buf then Some (data @ NUL # drop (Suc (length data)) buf) else None)"

definition find_visit :: "u8 list \<Rightarrow> string \<Rightarrow> nat \<Rightarrow> nat option \<Rightarrow> (nat option \<times> bool) option" where
  "find_visit buf name off st = do {
     len \<leftarrow> name_len_at buf off;
     if 0 < len then do {
       fname \<leftarrow> name_at buf off (min len 63);
       inode \<leftarrow> word_at off buf;
       if cstr fname = name then Some (Some (unat ((inode - 1) * of_nat inode_bytes)), True)
       else Some (st, False)
     } else Some (st, False)
   }"

text \<open>\<open>for (b = 0; b < 12 && buf_ptr < fsize; b++)\<close>; \<open>n\<close> blocks remain.\<close>

fun read_blocks :: "nat \<Rightarrow> nat \<Rightarrow> u8 list \<Rightarrow> nat \<Rightarrow> nat \<Rightarrow> char list \<Rightarrow> ext4 \<Rightarrow> (char list \<times> ext4) option" where
  "read_blocks 0 b tab at fsize acc s = Some (acc, s)"
| "read_blocks (Suc n) b tab at fsize acc s =
     (if length acc < fsize then do {
        blk \<leftarrow> inode_block tab at b;
        if blk = 0 then Some (acc, s)
        else do {
          s1 \<leftarrow> ext4_alloc (e_block_size s) s;
          let data = take (unat (e_block_size s)) (ReadFSBlock s1 blk);
          read_blocks n (b + 1) tab at fsize (acc @ map char_of_byte (take (fsize - length acc) data)) s1
        }
      } else Some (acc, s))"

definition disk_ReadFile :: "string \<Rightarrow> char list \<Rightarrow> ext4 \<Rightarrow> (char list \<times> ext4) option" where
  "disk_ReadFile name buf s = do {
     (inode_table_buf, dir_buf, s1) \<leftarrow> load_root s;
     rsize \<leftarrow> inode_size inode_table_buf 256;
     file_inode \<leftarrow> dir_loop (find_visit dir_buf name) (unat rsize) (unat (e_block_size s)) dir_buf 0 None;
     case file_inode of
       Some at \<Rightarrow> do {
         fsize \<leftarrow> inode_size inode_table_buf at;
         (content, s2) \<leftarrow> read_blocks 12 0 inode_table_buf at (unat fsize) [] s1;
         buf' \<leftarrow> store_string buf content;
         Some (buf', s2)
       }
     | None \<Rightarrow> do { buf' \<leftarrow> store_string buf []; Some (buf', s1) }
   }"

definition Ext4_ReadFile :: "string \<Rightarrow> char list \<Rightarrow> ext4 \<Rightarrow> (char list \<times> ext4) option" where
  "Ext4_ReadFile name buf s =
     (case find_index (is_file name) (e_vfs s) of
        Some i \<Rightarrow>
          (let curr = e_vfs s ! i in
           case vf_data curr of
             Some data \<Rightarrow> if 0 \<le> vf_size curr \<and> vf_size curr \<le> int (length data)
               then map_option (\<lambda>b. (b, s)) (store_string buf (take (nat (vf_size curr)) data)) else None
           | None \<Rightarrow> map_option (\<lambda>b. (b, s)) (store_string buf []))
      | None \<Rightarrow>
          if 0 < e_block_size s then disk_ReadFile name buf s
          else map_option (\<lambda>b. (b, s)) (store_string buf []))"

section \<open>Listing\<close>

record fl_entry =
  fl_name :: string
  fl_is_dir :: bool
  fl_size :: int

definition count_visit :: "u8 list \<Rightarrow> nat \<Rightarrow> nat \<Rightarrow> (nat \<times> bool) option" where
  "count_visit buf off n = do { len \<leftarrow> name_len_at buf off; Some (if 0 < len then n + 1 else n, False) }"

text \<open>\<open>list.entries[list.count] = \<dots>; list.count++\<close> on an array of \<open>cap\<close> entries.\<close>

definition fl_append :: "nat \<Rightarrow> fl_entry \<Rightarrow> fl_entry list \<Rightarrow> fl_entry list option" where
  "fl_append cap e es = (if length es < cap \<and> length (fl_name e) < 64 then Some (es @ [e]) else None)"

definition fill_visit :: "nat \<Rightarrow> u8 list \<Rightarrow> nat \<Rightarrow> fl_entry list \<Rightarrow> (fl_entry list \<times> bool) option" where
  "fill_visit cap buf off es = do {
     len \<leftarrow> name_len_at buf off;
     if 0 < len then do {
       name \<leftarrow> name_at buf off (min len 63);
       ft \<leftarrow> file_type_at buf off;
       es' \<leftarrow> fl_append cap \<lparr>fl_name = cstr name, fl_is_dir = (ft = 2), fl_size = 0\<rparr> es;
       Some (es', False)
     } else Some (es, False)
   }"

fun fill_vfs :: "nat \<Rightarrow> vfile list \<Rightarrow> fl_entry list \<Rightarrow> fl_entry list option" where
  "fill_vfs cap [] es = Some es"
| "fill_vfs cap (f # fs) es = do {
     es' \<leftarrow> fl_append cap \<lparr>fl_name = vf_name f, fl_is_dir = vf_is_dir f, fl_size = vf_size f\<rparr> es;
     fill_vfs cap fs es'
   }"

definition disk_pass :: "(u8 list \<Rightarrow> nat \<Rightarrow> 'a \<Rightarrow> ('a \<times> bool) option) \<Rightarrow> 'a \<Rightarrow> ext4 \<Rightarrow> ('a \<times> ext4) option" where
  "disk_pass visit a s =
     (if 0 < e_block_size s then do {
        (inode_table_buf, dir_buf, s1) \<leftarrow> load_root s;
        rsize \<leftarrow> inode_size inode_table_buf 256;
        a' \<leftarrow> dir_loop (visit dir_buf) (unat rsize) (unat (e_block_size s)) dir_buf 0 a;
        Some (a', s1)
      } else Some (a, s))"

text \<open>An \<open>Ext4::FileEntry\<close> has 72 bytes, a \<open>VirtualFile\<close> 80.\<close>

definition GetFileList :: "ext4 \<Rightarrow> (fl_entry list \<times> ext4) option" where
  "GetFileList s = do {
     (disk_count, s1) \<leftarrow> disk_pass count_visit 0 s;
     let count = disk_count + length (e_vfs s1);
     if 0 < count then do {
       s2 \<leftarrow> ext4_alloc (72 * of_nat count) s1;
       (es, s3) \<leftarrow> disk_pass (fill_visit count) [] s2;
       es' \<leftarrow> fill_vfs count (e_vfs s3) es;
       Some (es', s3)
     } else Some ([], s1)
   }"

section \<open>Changing the list\<close>

text \<open>\<open>path\<close> is a pointer: \<open>None\<close> is null.\<close>

fun dir_scan :: "string \<Rightarrow> vfile list \<Rightarrow> bool option" where
  "dir_scan path [] = None"
| "dir_scan path (f # fs) = (if vf_is_dir f \<and> vf_name f = path then Some True else dir_scan path fs)"

definition DirExists :: "string option \<Rightarrow> ext4 \<Rightarrow> bool" where
  "DirExists path s = (case path of None \<Rightarrow> False
     | Some p \<Rightarrow> (case dir_scan p (e_vfs s) of Some b \<Rightarrow> b | None \<Rightarrow> True))"

text \<open>A new list node with its name; \<open>strcpy\<close> into the 64-byte field.\<close>

definition vfs_node :: "string \<Rightarrow> bool \<Rightarrow> ext4 \<Rightarrow> ext4 option" where
  "vfs_node path dir s = do {
     s1 \<leftarrow> ext4_alloc 80 s;
     if length path < 64
     then Some (s1\<lparr>e_vfs := \<lparr>vf_name = path, vf_data = None, vf_size = 0, vf_is_dir = dir\<rparr> # e_vfs s1\<rparr>)
     else None
   }"

definition MkDir :: "string \<Rightarrow> ext4 \<Rightarrow> ext4 option" where
  "MkDir path s = (if DirExists (Some path) s then Some s else vfs_node path True s)"

definition remove_at :: "nat \<Rightarrow> 'a list \<Rightarrow> 'a list" where
  "remove_at i xs = take i xs @ drop (Suc i) xs"

definition Rm :: "string \<Rightarrow> ext4 \<Rightarrow> ext4" where
  "Rm path s = (case find_index (\<lambda>f. vf_name f = path) (e_vfs s) of
     Some i \<Rightarrow> s\<lparr>e_vfs := remove_at i (e_vfs s)\<rparr>
   | None \<Rightarrow> ext4_print (''Ext4: rm on disk files not supported yet.'' @ [NL]) s)"

definition Touch :: "string \<Rightarrow> ext4 \<Rightarrow> ext4 option" where
  "Touch path s = do {
     (entries, s1) \<leftarrow> GetFileList s;
     if find_index (\<lambda>e. fl_name e = path) entries \<noteq> None then Some s1
     else vfs_node path False s1
   }"

text \<open>The update branch of \<open>WriteFile\<close>: a fresh block, the bytes copied.\<close>

definition vfs_update :: "nat \<Rightarrow> char list \<Rightarrow> int \<Rightarrow> ext4 \<Rightarrow> ext4 option" where
  "vfs_update i data sz s =
     (let (p, h) = kmalloc (word_of_int sz) (e_heap s)
      in if int (length data) < sz \<or> p = 0 \<and> 0 < sz then None
         else Some (s\<lparr>e_heap := h, e_vfs := (e_vfs s)[i := (e_vfs s ! i)
           \<lparr>vf_data := (if p = 0 then None else Some (take (nat sz) data)), vf_size := sz\<rparr>]\<rparr>))"

text \<open>\<open>WriteFile\<close> creates the file and calls itself; the first argument bounds the calls.\<close>

fun Ext4_WriteFile :: "nat \<Rightarrow> string \<Rightarrow> char list \<Rightarrow> int \<Rightarrow> ext4 \<Rightarrow> ext4 option" where
  "Ext4_WriteFile 0 filename data sz s = None"
| "Ext4_WriteFile (Suc n) filename data sz s =
     (case find_index (is_file filename) (e_vfs s) of
        Some i \<Rightarrow> vfs_update i data sz s
      | None \<Rightarrow> do { s1 \<leftarrow> Touch filename s; Ext4_WriteFile n filename data sz s1 })"

section \<open>Allocation and the fields it leaves alone\<close>

text \<open>\<open>n\<close> more bytes can be had, alignment included.\<close>

definition heap_room :: "kheap \<Rightarrow> nat \<Rightarrow> bool" where
  "heap_room h n \<longleftrightarrow> heap_ok h \<and> 0 < heap_curr h \<and> unat (heap_curr h) + n < unat (heap_end h)"

lemma kmalloc_room:
  assumes "heap_room h (unat n + 3 + m)"
  shows "\<exists>p h'. kmalloc n h = (p, h') \<and> p \<noteq> 0 \<and> heap_room h' m"
proof -
  let ?a = "round_up4 (unat (heap_curr h))"
  have ok: "heap_ok h" and pos: "0 < unat (heap_curr h)"
    and room: "unat (heap_curr h) + (unat n + 3 + m) < unat (heap_end h)"
    using assms by (auto simp: heap_room_def u32_less_nat)
  have n: "unat n < 2 ^ 31" using heap_okD(2) [OF ok] room by simp
  have a: "?a \<le> unat (heap_curr h) + 3" "unat (heap_curr h) \<le> ?a"
    using round_up4_bounds(1,2) [of "unat (heap_curr h)"] by auto
  have "?a + unat n < unat (heap_end h)" using a room by simp
  from kmalloc_ok [OF ok n refl this] obtain p
    where p: "kmalloc n h = (p, h\<lparr>heap_curr := p + n\<rparr>)" "unat p = ?a" "unat (p + n) = ?a + unat n" by blast
  have "p \<noteq> 0" using p(2) a pos by auto
  moreover have "heap_ok (h\<lparr>heap_curr := p + n\<rparr>)" using kmalloc_bump [OF ok n p(1)] by simp
  moreover have "unat (p + n) \<le> unat (heap_curr h) + unat n + 3" using p(3) a by simp
  ultimately show ?thesis using p a pos room by (auto simp: heap_room_def u32_less_nat)
qed

lemma ext4_alloc_room:
  assumes "heap_room (e_heap s) (unat n + 3 + m)"
  shows "\<exists>h. ext4_alloc n s = Some (s\<lparr>e_heap := h\<rparr>) \<and> heap_room h m"
  using kmalloc_room [OF assms] by (auto simp: ext4_alloc_def)

lemma ext4_alloc_heap: "ext4_alloc n s = Some s1 \<Longrightarrow> \<exists>h. s1 = s\<lparr>e_heap := h\<rparr>"
  by (auto simp: ext4_alloc_def Let_def split: prod.splits if_splits)

lemma ReadFSBlock_heap [simp]: "ReadFSBlock (s\<lparr>e_heap := h\<rparr>) b = ReadFSBlock s b"
  by (simp add: ReadFSBlock_def)

text \<open>What \<open>load_root\<close> reads does not depend on the heap.\<close>

lemma load_rootD:
  assumes "load_root s = Some (t, d, s1)"
  shows "\<exists>h b. s1 = s\<lparr>e_heap := h\<rparr> \<and> t = ReadFSBlock s (inode_table (e_bgd s))
    \<and> inode_block t 256 0 = Some b \<and> d = ReadFSBlock s b"
proof -
  from assms obtain s0 b s2 where 0: "ext4_alloc (e_block_size s) s = Some s0"
    "inode_block (ReadFSBlock s0 (inode_table (e_bgd s0))) 256 0 = Some b"
    "ext4_alloc (e_block_size s0) s0 = Some s2"
    "t = ReadFSBlock s0 (inode_table (e_bgd s0))" "d = ReadFSBlock s2 b" "s1 = s2"
    by (auto simp: load_root_def Let_def split: bind_splits)
  from ext4_alloc_heap [OF 0(1)] ext4_alloc_heap [OF 0(3)] 0 show ?thesis by auto
qed

lemma disk_pass_heap: "disk_pass v a s = Some (a', s1) \<Longrightarrow> \<exists>h. s1 = s\<lparr>e_heap := h\<rparr>"
proof (cases "0 < e_block_size s")
  case True
  assume "disk_pass v a s = Some (a', s1)"
  with True obtain t d where "load_root s = Some (t, d, s1)"
    by (auto simp: disk_pass_def split: bind_splits)
  from load_rootD [OF this] show ?thesis by blast
next
  case False
  assume "disk_pass v a s = Some (a', s1)"
  with False have "s1 = s\<lparr>e_heap := e_heap s\<rparr>" by (simp add: disk_pass_def)
  then show ?thesis by blast
qed

lemma disk_pass_det:
  assumes "disk_pass v a s = Some (a', s1)" and "disk_pass v a (s\<lparr>e_heap := h\<rparr>) = Some (a'', s2)"
  shows "a'' = a'"
proof (cases "0 < e_block_size s")
  case True
  with assms obtain t d t' d' sz sz' where
    1: "load_root s = Some (t, d, s1)" "inode_size t 256 = Some sz"
      "dir_loop (v d) (unat sz) (unat (e_block_size s)) d 0 a = Some a'" and
    2: "load_root (s\<lparr>e_heap := h\<rparr>) = Some (t', d', s2)" "inode_size t' 256 = Some sz'"
      "dir_loop (v d') (unat sz') (unat (e_block_size s)) d' 0 a = Some a''"
    by (auto simp: disk_pass_def split: bind_splits)
  from load_rootD [OF 1(1)] load_rootD [OF 2(1)] have "t' = t" "d' = d" by auto
  with 1 2 show ?thesis by simp
next
  case False
  with assms show ?thesis by (simp add: disk_pass_def)
qed

section \<open>The listing\<close>

definition entry_of :: "vfile \<Rightarrow> fl_entry" where
  "entry_of f = \<lparr>fl_name = vf_name f, fl_is_dir = vf_is_dir f, fl_size = vf_size f\<rparr>"

lemma fill_vfs_spec:
  "length es + length fs \<le> cap \<Longrightarrow> (\<forall>f \<in> set fs. length (vf_name f) < 64) \<Longrightarrow>
   fill_vfs cap fs es = Some (es @ map entry_of fs)"
  by (induction fs arbitrary: es) (auto simp: fl_append_def entry_of_def)

lemma fill_vfs_SomeD: "fill_vfs cap fs es = Some es' \<Longrightarrow> es' = es @ map entry_of fs"
  by (induction fs arbitrary: es) (fastforce simp: fl_append_def entry_of_def split: bind_splits if_splits)+

text \<open>The directory records as list entries, without the array.\<close>

definition entry_visit :: "u8 list \<Rightarrow> nat \<Rightarrow> fl_entry list \<Rightarrow> (fl_entry list \<times> bool) option" where
  "entry_visit buf off es = do {
     len \<leftarrow> name_len_at buf off;
     if 0 < len then do {
       name \<leftarrow> name_at buf off (min len 63);
       ft \<leftarrow> file_type_at buf off;
       Some (es @ [\<lparr>fl_name = cstr name, fl_is_dir = (ft = 2), fl_size = 0\<rparr>], False)
     } else Some (es, False)
   }"

lemma count_pass:
  assumes "dir_loop (entry_visit buf) sz bs buf 0 [] = Some es"
  shows "dir_loop (count_visit buf) sz bs buf 0 0 = Some (length es)"
proof -
  have "\<exists>n. dir_loop (count_visit buf) sz bs buf 0 0 = Some n \<and> length es = n"
    by (rule dir_loop_sim [where R = "\<lambda>es n. length es = n", OF _ assms])
      (auto simp: entry_visit_def count_visit_def split: bind_splits if_splits)
  then show ?thesis by simp
qed

lemma name_at_length: "name_at buf off len = Some n \<Longrightarrow> length (cstr n) \<le> len"
proof -
  assume "name_at buf off len = Some n"
  then have "length n = len + 1" "terminated n" by (auto simp: name_at_def split: if_splits)
  then show ?thesis using cstr_length_less [of n] by simp
qed

lemma entry_visit_grows:
  assumes "dir_loop (entry_visit buf) sz bs buf off es = Some es'"
  shows "length es \<le> length es'"
  by (rule dir_loop_inv [where P = "\<lambda>x. length es \<le> length x", OF _ assms])
    (auto simp: entry_visit_def split: bind_splits if_splits)

text \<open>The fill pass stays inside an array of at least as many entries as there are records.\<close>

lemma fill_pass:
  "dir_loop (entry_visit buf) sz bs buf off es = Some es' \<Longrightarrow> length es' \<le> cap \<Longrightarrow>
   dir_loop (fill_visit cap buf) sz bs buf off es = Some es'"
proof (induction "bs - off" arbitrary: off es rule: less_induct)
  case less
  from less.prems(1) show ?case
  proof (cases rule: dir_loopE [where w = "fill_visit cap buf"])
    case exit
    then show ?thesis by simp
  next
    case (record_at n ino x stop)
    have "length x \<le> cap"
      using record_at(3) entry_visit_grows [of buf sz bs "off + n" x es'] less.prems(2)
      by (cases stop) auto
    then have "(if ino \<noteq> 0 then fill_visit cap buf off es else Some (es, False)) = Some (x, stop)"
      using record_at(2) name_at_length [of buf off "min _ 63"]
      by (fastforce simp: entry_visit_def fill_visit_def fl_append_def split: bind_splits if_splits)
    with record_at(3,4) less.hyps [OF record_at(1), of x] less.prems(2) show ?thesis
      by (cases stop) auto
  qed
qed

lemma GetFileListD:
  assumes "GetFileList s = Some (es, s')"
  obtains n s1 where "disk_pass count_visit 0 s = Some (n, s1)" "n + length (e_vfs s) = 0" "es = []" "s' = s1"
    | n s1 s2 ds where "disk_pass count_visit 0 s = Some (n, s1)" "0 < n + length (e_vfs s)"
      "ext4_alloc (72 * of_nat (n + length (e_vfs s))) s1 = Some s2"
      "disk_pass (fill_visit (n + length (e_vfs s))) [] s2 = Some (ds, s')"
      "es = ds @ map entry_of (e_vfs s)" "fill_vfs (n + length (e_vfs s)) (e_vfs s) ds = Some es"
proof -
  from assms obtain n s1 where 1: "disk_pass count_visit 0 s = Some (n, s1)"
    and rest: "(let count = n + length (e_vfs s1) in
      if 0 < count then do {
         s2 \<leftarrow> ext4_alloc (72 * of_nat count) s1;
         (es, s3) \<leftarrow> disk_pass (fill_visit count) [] s2;
         es' \<leftarrow> fill_vfs count (e_vfs s3) es;
         Some (es', s3)
       } else Some ([], s1)) = Some (es, s')"
    by (auto simp: GetFileList_def split: bind_splits)
  from disk_pass_heap [OF 1] obtain h where h: "s1 = s\<lparr>e_heap := h\<rparr>" by blast
  show thesis
  proof (cases "0 < n + length (e_vfs s)")
    case False
    with 1 rest h that(1) show thesis by auto
  next
    case True
    with rest h obtain s2 ds s3 where 2: "ext4_alloc (72 * of_nat (n + length (e_vfs s))) s1 = Some s2"
      "disk_pass (fill_visit (n + length (e_vfs s))) [] s2 = Some (ds, s3)"
      "fill_vfs (n + length (e_vfs s)) (e_vfs s3) ds = Some es" "s' = s3"
      by (auto simp: Let_def split: bind_splits prod.splits)
    from ext4_alloc_heap [OF 2(1)] disk_pass_heap [OF 2(2)] h have "e_vfs s3 = e_vfs s" by auto
    with 1 2 True fill_vfs_SomeD [of _ _ ds es] that(2) show thesis by metis
  qed
qed

lemma GetFileList_heap: "GetFileList s = Some (es, s') \<Longrightarrow> \<exists>h. s' = s\<lparr>e_heap := h\<rparr>"
proof (erule GetFileListD)
  fix n s1
  assume "disk_pass count_visit 0 s = Some (n, s1)" "s' = s1"
  then show ?thesis by (auto dest: disk_pass_heap)
next
  fix n s1 s2 ds
  assume "disk_pass count_visit 0 s = Some (n, s1)" "ext4_alloc (72 * of_nat (n + length (e_vfs s))) s1 = Some s2"
    "disk_pass (fill_visit (n + length (e_vfs s))) [] s2 = Some (ds, s')"
  from disk_pass_heap [OF this(1)] ext4_alloc_heap [OF this(2)] disk_pass_heap [OF this(3)] show ?thesis by auto
qed

text \<open>Two listings of the same files are equal, whatever the heap.\<close>

lemma GetFileList_det:
  assumes "GetFileList s = Some (es, s')" and "GetFileList (s\<lparr>e_heap := h\<rparr>) = Some (es2, s2')"
  shows "es2 = es"
  using assms(1)
proof (cases rule: GetFileListD)
  case (1 n s1)
  from assms(2) show ?thesis
    by (cases rule: GetFileListD) (use 1 disk_pass_det [OF 1(1)] in auto)
next
  case (2 n s1 s2 ds)
  note a = 2
  from disk_pass_heap [OF 2(1)] ext4_alloc_heap [OF 2(3)] obtain h2 where h2: "s2 = s\<lparr>e_heap := h2\<rparr>" by auto
  from assms(2) show ?thesis
  proof (cases rule: GetFileListD)
    case (1 n' s1')
    with a disk_pass_det [OF a(1)] show ?thesis by auto
  next
    case (2 n' s1' t2 ds')
    have n: "n' = n" using disk_pass_det [OF a(1)] 2(1) by simp
    from disk_pass_heap [OF 2(1)] ext4_alloc_heap [OF 2(3)] obtain h3
      where h3: "t2 = s\<lparr>e_heap := h3\<rparr>" by auto
    have "t2 = s2\<lparr>e_heap := h3\<rparr>" using h2 h3 by simp
    with 2(4) n have "disk_pass (fill_visit (n + length (e_vfs s))) [] (s2\<lparr>e_heap := h3\<rparr>) = Some (ds', s2')"
      by simp
    from disk_pass_det [OF a(4) this] a(5) 2(5) show ?thesis by simp
  qed
qed

lemma GetFileList_vfs_names:
  assumes "GetFileList s = Some (es, s')" and "f \<in> set (e_vfs s)"
  shows "entry_of f \<in> set es"
  using assms(1) by (cases rule: GetFileListD) (use assms(2) in auto)

text \<open>The two passes agree.\<close>

lemma GetFileList_two_passes:
  assumes names: "\<forall>f \<in> set (e_vfs s). length (vf_name f) < 64"
    and root: "load_root s = Some (table_buf, dir_buf, s1)" "inode_size table_buf 256 = Some rs"
    and dir: "dir_loop (entry_visit dir_buf) (unat rs) (unat (e_block_size s)) dir_buf 0 [] = Some ds"
    and mounted: "0 < e_block_size s" and some: "ds @ map entry_of (e_vfs s) \<noteq> []"
    and alloc: "ext4_alloc (72 * of_nat (length ds + length (e_vfs s))) s1 = Some s2"
    and root2: "load_root s2 = Some (table_buf2, dir_buf2, s3)"
  shows "GetFileList s = Some (ds @ map entry_of (e_vfs s), s3)"
proof -
  from load_rootD [OF root(1)] ext4_alloc_heap [OF alloc] load_rootD [OF root2] obtain h1 h2 h3
    where h: "s1 = s\<lparr>e_heap := h1\<rparr>" "s2 = s\<lparr>e_heap := h2\<rparr>" "s3 = s\<lparr>e_heap := h3\<rparr>"
      and b: "table_buf2 = table_buf" "dir_buf2 = dir_buf" by auto
  have "disk_pass count_visit 0 s = Some (length ds, s1)"
    using root mounted count_pass [OF dir] by (simp add: disk_pass_def)
  moreover have "disk_pass (fill_visit (length ds + length (e_vfs s))) [] s2 = Some (ds, s3)"
    using root2 mounted b root(2) h fill_pass [OF dir] by (simp add: disk_pass_def)
  moreover have "fill_vfs (length ds + length (e_vfs s)) (e_vfs s) ds = Some (ds @ map entry_of (e_vfs s))"
    by (rule fill_vfs_spec [OF _ names]) simp
  ultimately show ?thesis using alloc some h by (simp add: GetFileList_def)
qed

text \<open>The demonstration volume with any heap that has room for the two buffers.\<close>

lemma demo_root_room:
  assumes "heap_room h (2054 + m)"
  shows "\<exists>h'. load_root (demo_ext4\<lparr>e_heap := h\<rparr>) =
      Some (demo_disk 10 @ demo_disk 11, demo_disk 12 @ demo_disk 13, demo_ext4\<lparr>e_heap := h'\<rparr>) \<and> heap_room h' m"
proof -
  have "heap_room (e_heap (demo_ext4\<lparr>e_heap := h\<rparr>)) (unat (1024 :: u32) + 3 + (1027 + m))" using assms by (simp add: add.assoc)
  from ext4_alloc_room [OF this] obtain h1 where 1: "ext4_alloc 1024 (demo_ext4\<lparr>e_heap := h\<rparr>) = Some (demo_ext4\<lparr>e_heap := h1\<rparr>)"
    "heap_room h1 (1027 + m)" by auto
  then have "heap_room (e_heap (demo_ext4\<lparr>e_heap := h1\<rparr>)) (unat (1024 :: u32) + 3 + m)" by (simp add: add.assoc)
  from ext4_alloc_room [OF this] obtain h2 where 2: "ext4_alloc 1024 (demo_ext4\<lparr>e_heap := h1\<rparr>) = Some (demo_ext4\<lparr>e_heap := h2\<rparr>)"
    "heap_room h2 m" by auto
  have f: "e_block_size demo_ext4 = 1024" "inode_table (e_bgd demo_ext4) = 5" by (simp_all add: demo_ext4_def)
  have b: "inode_block (demo_disk 10 @ demo_disk 11) 256 0 = Some 6"
    by (simp add: inode_block_def word_at_def demo_disk_def nth_append le32_def)
  have "load_root (demo_ext4\<lparr>e_heap := h\<rparr>) =
      Some (demo_disk 10 @ demo_disk 11, demo_disk 12 @ demo_disk 13, demo_ext4\<lparr>e_heap := h2\<rparr>)"
    using 1(1) 2(1) b by (simp add: load_root_def f demo_block del: ReadFSBlock_heap)
  with 2(2) show ?thesis by blast
qed

lemma boot_heap_room: "n < 10485760 \<Longrightarrow> heap_room boot_heap n"
  by (simp add: heap_room_def boot_heap_ok) (simp add: boot_heap_def kheap_init_def u32_less_nat)

lemma demo_size: "inode_size (demo_disk 10 @ demo_disk 11) 256 = Some 1024"
  by (simp add: inode_size_def word_at_def demo_disk_def nth_append le32_def)

lemma demo_entries:
  "dir_loop (entry_visit (demo_disk 12 @ demo_disk 13)) 1024 1024 (demo_disk 12 @ demo_disk 13) 0 []
   = Some [\<lparr>fl_name = ''a.txt'', fl_is_dir = False, fl_size = 0\<rparr>]"
  by (simp add: dir_loop.simps half_at_def word_at_def entry_visit_def name_len_at_def name_at_def file_type_at_def
      arr_get_def demo_disk_def nth_append le32_def word_of_bytes_def)

lemma demo_list_room:
  assumes "heap_room h 4183"
  shows "\<exists>h1 h2 h3. load_root (demo_ext4\<lparr>e_heap := h\<rparr>) = Some (demo_disk 10 @ demo_disk 11, demo_disk 12 @ demo_disk 13, demo_ext4\<lparr>e_heap := h1\<rparr>)
    \<and> ext4_alloc 72 (demo_ext4\<lparr>e_heap := h1\<rparr>) = Some (demo_ext4\<lparr>e_heap := h2\<rparr>)
    \<and> load_root (demo_ext4\<lparr>e_heap := h2\<rparr>) = Some (demo_disk 10 @ demo_disk 11, demo_disk 12 @ demo_disk 13, demo_ext4\<lparr>e_heap := h3\<rparr>)"
proof -
  obtain h1 where 1: "load_root (demo_ext4\<lparr>e_heap := h\<rparr>) = Some (demo_disk 10 @ demo_disk 11, demo_disk 12 @ demo_disk 13, demo_ext4\<lparr>e_heap := h1\<rparr>)"
    "heap_room h1 2129" using demo_root_room [of h 2129] assms by auto
  then obtain h2 where 2: "ext4_alloc 72 (demo_ext4\<lparr>e_heap := h1\<rparr>) = Some (demo_ext4\<lparr>e_heap := h2\<rparr>)" "heap_room h2 2054"
    using ext4_alloc_room [of "demo_ext4\<lparr>e_heap := h1\<rparr>" 72 2054] by auto
  from demo_root_room [of h2 0] 1 2 show ?thesis by auto
qed

lemma demo_heap: "demo_ext4 = demo_ext4\<lparr>e_heap := boot_heap\<rparr>"
  by (simp add: demo_ext4_def)

lemma demo_list:
  "\<exists>s. GetFileList demo_ext4 = Some ([\<lparr>fl_name = ''a.txt'', fl_is_dir = False, fl_size = 0\<rparr>], s)"
proof -
  have f: "e_vfs demo_ext4 = []" "e_block_size demo_ext4 = 1024" by (simp_all add: demo_ext4_def)
  have "heap_room boot_heap 4183" by (rule boot_heap_room) simp
  from demo_list_room [OF this] obtain h1 h2 h3 where
    h: "load_root demo_ext4 = Some (demo_disk 10 @ demo_disk 11, demo_disk 12 @ demo_disk 13, demo_ext4\<lparr>e_heap := h1\<rparr>)"
    "ext4_alloc 72 (demo_ext4\<lparr>e_heap := h1\<rparr>) = Some (demo_ext4\<lparr>e_heap := h2\<rparr>)"
    "load_root (demo_ext4\<lparr>e_heap := h2\<rparr>) = Some (demo_disk 10 @ demo_disk 11, demo_disk 12 @ demo_disk 13, demo_ext4\<lparr>e_heap := h3\<rparr>)"
    using demo_heap by metis
  have e: "dir_loop (entry_visit (demo_disk 12 @ demo_disk 13)) (unat (1024 :: u32)) (unat (e_block_size demo_ext4))
      (demo_disk 12 @ demo_disk 13) 0 [] = Some [\<lparr>fl_name = ''a.txt'', fl_is_dir = False, fl_size = 0\<rparr>]"
    using demo_entries f by simp
  from GetFileList_two_passes [OF _ h(1) demo_size e _ _ _ h(3)] h(2) f show ?thesis by simp
qed

text \<open>C26: the two passes of \<open>GetFileList\<close> agree. On a mounted volume whose root directory can be read, with
  in-memory names that fit their 64-byte fields, and as long as the allocations succeed, the fill pass writes exactly
  the entries that were counted, the directory's first and then the in-memory files, never one past the allocated
  array; with nothing to list no array is allocated and the list is empty.\<close>

theorem GetFileList_fills:
  assumes names: "\<forall>f \<in> set (e_vfs s). length (vf_name f) < 64"
    and root: "load_root s = Some (table_buf, dir_buf, s1)" "inode_size table_buf 256 = Some rs"
    and dir: "dir_loop (entry_visit dir_buf) (unat rs) (unat (e_block_size s)) dir_buf 0 [] = Some ds"
    and mounted: "0 < e_block_size s"
    and alloc: "ds @ map entry_of (e_vfs s) \<noteq> [] \<Longrightarrow> ext4_alloc (72 * of_nat (length ds + length (e_vfs s))) s1 = Some s2"
    and root2: "ds @ map entry_of (e_vfs s) \<noteq> [] \<Longrightarrow> load_root s2 = Some (table_buf2, dir_buf2, s3)"
  shows "GetFileList s = Some (ds @ map entry_of (e_vfs s), if ds @ map entry_of (e_vfs s) = [] then s1 else s3)"
proof (cases "ds @ map entry_of (e_vfs s) = []")
  case True
  have "disk_pass count_visit 0 s = Some (length ds, s1)"
    using root mounted count_pass [OF dir] by (simp add: disk_pass_def)
  moreover have "e_vfs s1 = e_vfs s" using load_rootD [OF root(1)] by auto
  ultimately show ?thesis using True by (simp add: GetFileList_def)
next
  case False
  then show ?thesis
    using GetFileList_two_passes [OF names root dir mounted _ alloc root2] by auto
qed

theorem GetFileList_fills_witness:
  "\<exists>s. GetFileList demo_ext4 = Some ([\<lparr>fl_name = ''a.txt'', fl_is_dir = False, fl_size = 0\<rparr>], s)"
proof -
  have f: "e_vfs demo_ext4 = []" "e_block_size demo_ext4 = 1024" by (simp_all add: demo_ext4_def)
  have "heap_room boot_heap 4183" by (rule boot_heap_room) simp
  from demo_list_room [OF this] obtain h1 h2 h3 where
    h: "load_root demo_ext4 = Some (demo_disk 10 @ demo_disk 11, demo_disk 12 @ demo_disk 13, demo_ext4\<lparr>e_heap := h1\<rparr>)"
    "ext4_alloc 72 (demo_ext4\<lparr>e_heap := h1\<rparr>) = Some (demo_ext4\<lparr>e_heap := h2\<rparr>)"
    "load_root (demo_ext4\<lparr>e_heap := h2\<rparr>) = Some (demo_disk 10 @ demo_disk 11, demo_disk 12 @ demo_disk 13, demo_ext4\<lparr>e_heap := h3\<rparr>)"
    using demo_heap by metis
  have e: "dir_loop (entry_visit (demo_disk 12 @ demo_disk 13)) (unat (1024 :: u32)) (unat (e_block_size demo_ext4))
      (demo_disk 12 @ demo_disk 13) 0 [] = Some [\<lparr>fl_name = ''a.txt'', fl_is_dir = False, fl_size = 0\<rparr>]"
    using demo_entries f by simp
  from GetFileList_fills [OF _ h(1) demo_size e _ _ h(3)] h(2) f show ?thesis by auto
qed

section \<open>Files in memory\<close>

text \<open>Names fit their field and differ, recorded sizes are the block sizes, the heap is sound.\<close>

definition vfs_ok :: "ext4 \<Rightarrow> bool" where
  "vfs_ok s \<longleftrightarrow> distinct (map vf_name (e_vfs s)) \<and> heap_ok (e_heap s) \<and>
     (\<forall>f \<in> set (e_vfs s). c_string (vf_name f) \<and> length (vf_name f) < 64 \<and>
        vf_size f = (case vf_data f of None \<Rightarrow> 0 | Some d \<Rightarrow> int (length d)))"

definition vf_bytes :: "vfile \<Rightarrow> char list" where
  "vf_bytes f = (case vf_data f of None \<Rightarrow> [] | Some d \<Rightarrow> d)"

definition vfs_abs :: "ext4 \<Rightarrow> string \<Rightarrow> char list option" where
  "vfs_abs s k = map_option (\<lambda>i. vf_bytes (e_vfs s ! i)) (find_index (is_file k) (e_vfs s))"

lemma MkDir_DirExists: "MkDir path s = Some s" "DirExists (Some path) s"
proof -
  have "dir_scan path fs = None \<or> dir_scan path fs = Some True" for fs by (induction fs) auto
  from this [of "e_vfs s"] show "DirExists (Some path) s" by (auto simp: DirExists_def)
  then show "MkDir path s = Some s" by (simp add: MkDir_def)
qed

text \<open>C0: \<open>MkDir\<close> never creates a directory: the existence test it starts with answers true for every
  path, so the call changes nothing.\<close>

theorem MkDir_creates_nothing: "MkDir path s = Some s \<and> DirExists (Some path) s"
  using MkDir_DirExists by blast



subsection \<open>Writing, then reading\<close>

lemma vfs_update_spec:
  assumes ok: "vfs_ok s" and i: "find_index (is_file k) (e_vfs s) = Some i"
    and sz: "0 \<le> sz" "sz \<le> int (length v)" and room: "heap_room (e_heap s) (nat sz + 3 + m)"
  shows "\<exists>s'. vfs_update i v sz s = Some s' \<and> vfs_ok s' \<and> vfs_abs s' = (vfs_abs s)(k \<mapsto> take (nat sz) v)
    \<and> map vf_name (e_vfs s') = map vf_name (e_vfs s) \<and> map vf_is_dir (e_vfs s') = map vf_is_dir (e_vfs s)
    \<and> e_block_size s' = e_block_size s \<and> heap_room (e_heap s') m"
proof -
  have "nat sz < 2 ^ 30" using room heap_okD(2) [of "e_heap s"] by (simp add: heap_room_def)
  then have "unat (word_of_int sz :: u32) = nat sz"
    using sz by (simp add: unat_eq_nat_uint uint_word_of_int)
  then obtain p h where p: "kmalloc (word_of_int sz) (e_heap s) = (p, h)" "p \<noteq> 0" "heap_room h m"
    using kmalloc_room [of "e_heap s" "word_of_int sz" m] room by auto
  define f where "f = (e_vfs s ! i)\<lparr>vf_data := Some (take (nat sz) v), vf_size := sz\<rparr>"
  define s' where "s' = s\<lparr>e_heap := h, e_vfs := (e_vfs s)[i := f]\<rparr>"
  note D = find_index_SomeD [OF i]
  have upd: "vfs_update i v sz s = Some s'"
    using p sz by (simp add: vfs_update_def s'_def f_def Let_def)
  have names: "map vf_name (e_vfs s') = map vf_name (e_vfs s)" "map vf_is_dir (e_vfs s') = map vf_is_dir (e_vfs s)"
    using D by (simp_all add: s'_def f_def map_update list_update_same_conv)
  have fk: "is_file k' ((e_vfs s)[i := f] ! j) = is_file k' (e_vfs s ! j)" if "j < length (e_vfs s)" for k' j
    using that by (cases "j = i") (simp_all add: is_file_def f_def)
  have find: "find_index (is_file k') ((e_vfs s)[i := f]) = find_index (is_file k') (e_vfs s)" for k'
    by (rule find_index_nth_cong) (use fk in auto)
  have fb: "vf_bytes f = take (nat sz) v" by (simp add: vf_bytes_def f_def)
  have "vfs_ok s'"
  proof -
    have "c_string (vf_name f) \<and> length (vf_name f) < 64 \<and> vf_size f = (case vf_data f of None \<Rightarrow> 0 | Some d \<Rightarrow> int (length d))"
      using ok D sz nth_mem [of i "e_vfs s"] by (auto simp: vfs_ok_def f_def)
    moreover have "heap_ok h" using p(3) by (simp add: heap_room_def)
    ultimately show ?thesis
      using ok names unfolding vfs_ok_def by (auto simp: s'_def dest: set_update_subset_insert [THEN subsetD])
  qed
  moreover have "vfs_abs s' = (vfs_abs s)(k \<mapsto> take (nat sz) v)"
  proof
    fix k'
    show "vfs_abs s' k' = ((vfs_abs s)(k \<mapsto> take (nat sz) v)) k'"
    proof (cases "find_index (is_file k') (e_vfs s)")
      case None
      then have "k' \<noteq> k" using i by (auto simp del: find_index_None)
      then show ?thesis by (simp add: vfs_abs_def s'_def find None del: find_index_None)
    next
      case (Some j)
      note J = find_index_SomeD [OF Some]
      show ?thesis
      proof (cases "k' = k")
        case True
        with i D find [of k] fb show ?thesis by (simp add: vfs_abs_def s'_def)
      next
        case False
        then have "j \<noteq> i" using J D by (auto simp: is_file_def)
        with False Some show ?thesis by (simp add: vfs_abs_def s'_def find)
      qed
    qed
  qed
  ultimately show ?thesis using upd names p(3) by (auto simp: s'_def)
qed

lemma GetFileList_unmounted:
  assumes "vfs_ok s" and "e_block_size s = 0" and "heap_room (e_heap s) (72 * length (e_vfs s) + 3 + m)"
  shows "\<exists>h. GetFileList s = Some (map entry_of (e_vfs s), s\<lparr>e_heap := h\<rparr>) \<and> heap_room h m"
proof (cases "e_vfs s = []")
  case True
  have "heap_room (e_heap s) m" using assms(3) by (auto simp: heap_room_def)
  then show ?thesis using True assms(2)
    by (intro exI [of _ "e_heap s"]) (simp add: GetFileList_def disk_pass_def)
next
  case False
  have "72 * length (e_vfs s) < 2 ^ 30"
    using assms(3) heap_okD(2) [of "e_heap s"] by (auto simp: heap_room_def)
  then have u: "unat (72 * of_nat (length (e_vfs s)) :: u32) = 72 * length (e_vfs s)"
    by (simp add: unat_word_ariths unat_of_nat)
  with ext4_alloc_room [of s "72 * of_nat (length (e_vfs s))" m] assms(3)
  obtain h where h: "ext4_alloc (72 * of_nat (length (e_vfs s))) s = Some (s\<lparr>e_heap := h\<rparr>)" "heap_room h m"
    by auto
  have "fill_vfs (length (e_vfs s)) (e_vfs s) [] = Some (map entry_of (e_vfs s))"
    using fill_vfs_spec [of "[]" "e_vfs s" "length (e_vfs s)"] assms(1) by (simp add: vfs_ok_def)
  with False h assms(2) have "GetFileList s = Some (map entry_of (e_vfs s), s\<lparr>e_heap := h\<rparr>)"
    by (simp add: GetFileList_def disk_pass_def)
  with h(2) show ?thesis by blast
qed

lemma Touch_unmounted:
  assumes ok: "vfs_ok s" and un: "e_block_size s = 0" and k: "c_string k" "length k < 64"
    and new: "k \<notin> vf_name ` set (e_vfs s)" and room: "heap_room (e_heap s) (72 * length (e_vfs s) + 86 + m)"
  shows "\<exists>h. Touch k s = Some (s\<lparr>e_heap := h,
      e_vfs := \<lparr>vf_name = k, vf_data = None, vf_size = 0, vf_is_dir = False\<rparr> # e_vfs s\<rparr>) \<and> heap_room h m"
proof -
  have "heap_room (e_heap s) (72 * length (e_vfs s) + 3 + (83 + m))" using room by (simp add: add.assoc)
  from GetFileList_unmounted [OF ok un this] obtain h1
    where 1: "GetFileList s = Some (map entry_of (e_vfs s), s\<lparr>e_heap := h1\<rparr>)" "heap_room h1 (83 + m)" by blast
  then obtain h2 where 2: "ext4_alloc 80 (s\<lparr>e_heap := h1\<rparr>) = Some (s\<lparr>e_heap := h2\<rparr>)" "heap_room h2 m"
    using ext4_alloc_room [of "s\<lparr>e_heap := h1\<rparr>" 80 m] by auto
  have "find_index (\<lambda>e. fl_name e = k) (map entry_of (e_vfs s)) = None"
    using new by (auto simp: entry_of_def)
  with 1 2 k have "Touch k s = Some (s\<lparr>e_heap := h2,
      e_vfs := \<lparr>vf_name = k, vf_data = None, vf_size = 0, vf_is_dir = False\<rparr> # e_vfs s\<rparr>)"
    by (simp add: Touch_def vfs_node_def)
  with 2(2) show ?thesis by blast
qed

lemma WriteFile_spec:
  assumes ok: "vfs_ok s" and k: "c_string k" "length k < 64" and sz: "0 \<le> sz" "sz \<le> int (length v)"
    and target: "vfs_abs s k \<noteq> None \<or> e_block_size s = 0 \<and> k \<notin> vf_name ` set (e_vfs s)"
    and room: "heap_room (e_heap s) (72 * length (e_vfs s) + 89 + nat sz + m)"
  shows "\<exists>s'. (\<forall>n. Ext4_WriteFile (Suc (Suc n)) k v sz s = Some s') \<and> vfs_ok s'
    \<and> vfs_abs s' = (vfs_abs s)(k \<mapsto> take (nat sz) v) \<and> e_block_size s' = e_block_size s \<and> heap_room (e_heap s') m
    \<and> (\<forall>f' \<in> set (e_vfs s'). vf_is_dir f' \<longrightarrow> (\<exists>f \<in> set (e_vfs s). vf_is_dir f \<and> vf_name f = vf_name f'))"
proof (cases "find_index (is_file k) (e_vfs s)")
  case (Some i)
  have "heap_room (e_heap s) (nat sz + 3 + m)" using room by (auto simp: heap_room_def)
  from vfs_update_spec [OF ok Some sz this] obtain s' where s': "vfs_update i v sz s = Some s'" "vfs_ok s'"
    "vfs_abs s' = (vfs_abs s)(k \<mapsto> take (nat sz) v)" "map vf_name (e_vfs s') = map vf_name (e_vfs s)"
    "map vf_is_dir (e_vfs s') = map vf_is_dir (e_vfs s)" "e_block_size s' = e_block_size s" "heap_room (e_heap s') m" by blast
  have "\<exists>f \<in> set (e_vfs s). vf_is_dir f \<and> vf_name f = vf_name f'" if "f' \<in> set (e_vfs s')" "vf_is_dir f'" for f'
  proof -
    from that(1) obtain j where j: "j < length (e_vfs s')" "f' = e_vfs s' ! j" by (auto simp: in_set_conv_nth)
    have len: "length (e_vfs s') = length (e_vfs s)" using s'(4) by (rule map_eq_imp_length_eq)
    have "vf_name (e_vfs s ! j) = vf_name f'" "vf_is_dir (e_vfs s ! j) = vf_is_dir f'"
      using j len s'(4,5) by (metis nth_map)+
    with that(2) j len show ?thesis by (metis nth_mem)
  qed
  with s' Some show ?thesis by auto
next
  case None
  then have t: "e_block_size s = 0" "k \<notin> vf_name ` set (e_vfs s)" using target by (auto simp: vfs_abs_def)
  let ?f = "\<lparr>vf_name = k, vf_data = None, vf_size = 0, vf_is_dir = False\<rparr>"
  have "heap_room (e_heap s) (72 * length (e_vfs s) + 86 + (nat sz + 3 + m))" using room by (simp add: add.assoc)
  from Touch_unmounted [OF ok t(1) k t(2) this] obtain h where
    h: "Touch k s = Some (s\<lparr>e_heap := h, e_vfs := ?f # e_vfs s\<rparr>)" "heap_room h (nat sz + 3 + m)" by blast
  let ?s = "s\<lparr>e_heap := h, e_vfs := ?f # e_vfs s\<rparr>"
  have ok': "vfs_ok ?s" using ok k t(2) h(2) by (auto simp: vfs_ok_def heap_room_def)
  have i: "find_index (is_file k) (e_vfs ?s) = Some 0" by (simp add: is_file_def)
  have abs: "vfs_abs ?s = (vfs_abs s)(k \<mapsto> [])"
    by (auto simp: vfs_abs_def vf_bytes_def is_file_def fun_eq_iff option.map_comp o_def)
  from vfs_update_spec [OF ok' i sz, of m] h(2) abs obtain s' where s': "vfs_update 0 v sz ?s = Some s'" "vfs_ok s'"
    "vfs_abs s' = (vfs_abs s)(k \<mapsto> take (nat sz) v)" "map vf_name (e_vfs s') = k # map vf_name (e_vfs s)"
    "map vf_is_dir (e_vfs s') = False # map vf_is_dir (e_vfs s)" "e_block_size s' = e_block_size s" "heap_room (e_heap s') m" by auto
  have "Ext4_WriteFile (Suc (Suc n)) k v sz s = Some s'" for n
    using h(1) s'(1) None by (simp add: is_file_def del: find_index_None)
  moreover have "\<exists>f \<in> set (e_vfs s). vf_is_dir f \<and> vf_name f = vf_name f'" if "f' \<in> set (e_vfs s')" "vf_is_dir f'" for f'
  proof -
    from that(1) obtain j where j: "j < length (e_vfs s')" "f' = e_vfs s' ! j" by (auto simp: in_set_conv_nth)
    have len: "length (e_vfs s') = Suc (length (e_vfs s))" using s'(4) by (metis length_Cons length_map)
    have d: "vf_is_dir f' = (False # map vf_is_dir (e_vfs s)) ! j" "vf_name f' = (k # map vf_name (e_vfs s)) ! j"
      using j s'(4,5) by (metis nth_map)+
    with that(2) obtain m where m: "j = Suc m" "m < length (e_vfs s)" using j len by (cases j) auto
    with d that(2) have "vf_is_dir (e_vfs s ! m)" "vf_name (e_vfs s ! m) = vf_name f'" by simp_all
    with m show ?thesis by (metis nth_mem)
  qed
  ultimately show ?thesis using s' by auto
qed

lemma ReadFile_spec:
  assumes ok: "vfs_ok s" and c: "vfs_abs s k = Some c" and cap: "length c < length buf"
  shows "Ext4_ReadFile k buf s = Some (c @ NUL # drop (Suc (length c)) buf, s)"
proof -
  from c obtain i where i: "find_index (is_file k) (e_vfs s) = Some i" "c = vf_bytes (e_vfs s ! i)"
    by (auto simp: vfs_abs_def)
  then have "e_vfs s ! i \<in> set (e_vfs s)" using find_index_SomeD [OF i(1)] by simp
  with ok have "vf_size (e_vfs s ! i) = (case vf_data (e_vfs s ! i) of None \<Rightarrow> 0 | Some d \<Rightarrow> int (length d))"
    by (simp add: vfs_ok_def)
  with i cap show ?thesis
    by (cases "vf_data (e_vfs s ! i)") (auto simp: Ext4_ReadFile_def Let_def vf_bytes_def store_string_def)
qed

text \<open>The in-memory files of an unmounted volume as a table searched by name.\<close>

definition vfs_store_ok :: "ext4 \<Rightarrow> bool" where
  "vfs_store_ok s \<longleftrightarrow> vfs_ok s \<and> e_block_size s = 0 \<and> (\<forall>k c. vfs_abs s k = Some c \<longrightarrow> length c < 20480)"

definition vfs_fits :: "ext4 \<Rightarrow> string \<Rightarrow> string \<Rightarrow> bool" where
  "vfs_fits s k v \<longleftrightarrow> c_string k \<and> length k < 64 \<and> c_string v \<and> length v < 20480
     \<and> (\<forall>f \<in> set (e_vfs s). vf_is_dir f \<longrightarrow> vf_name f \<noteq> k)
     \<and> heap_room (e_heap s) (72 * length (e_vfs s) + 89 + length v)"

definition vfs_put :: "string \<Rightarrow> string \<Rightarrow> ext4 \<Rightarrow> ext4 option" where
  "vfs_put k v = Ext4_WriteFile 2 k v (int (length v))"

definition vfs_get :: "string \<Rightarrow> ext4 \<Rightarrow> string option" where
  "vfs_get k s = map_option (cstr \<circ> fst) (Ext4_ReadFile k (replicate 20480 NUL) s)"

lemma cstr_c_string: "c_string v \<Longrightarrow> cstr v = v"
  by (induction v) (auto simp: c_string_def)

lemma ReadFile_none:
  assumes "vfs_abs s k = None" and "e_block_size s = 0"
  shows "Ext4_ReadFile k (c # cs) s = Some (NUL # cs, s)"
proof -
  have "find_index (is_file k) (e_vfs s) = None" using assms(1) by (simp add: vfs_abs_def)
  then show ?thesis using assms(2) by (simp add: Ext4_ReadFile_def store_string_def del: find_index_None)
qed

interpretation vfs_store: keyed_table vfs_store_ok "\<lambda>s k. map_option cstr (vfs_abs s k)" vfs_fits "\<lambda>k. True"
  "\<lambda>r. Some (case r of None \<Rightarrow> [] | Some v \<Rightarrow> v)" vfs_put vfs_get
proof unfold_locales
  fix s k v
  assume s: "vfs_store_ok s" and f: "vfs_fits s k v"
  then have t: "vfs_abs s k \<noteq> None \<or> e_block_size s = 0 \<and> k \<notin> vf_name ` set (e_vfs s)"
    by (auto simp: vfs_store_ok_def vfs_fits_def vfs_abs_def is_file_def)
  have sz: "0 \<le> int (length v)" "int (length v) \<le> int (length v)" by simp_all
  have room: "heap_room (e_heap s) (72 * length (e_vfs s) + 89 + nat (int (length v)) + 0)"
    using f by (simp add: vfs_fits_def)
  from WriteFile_spec [OF _ _ _ sz t room] s f obtain s' where s': "\<forall>n. Ext4_WriteFile (Suc (Suc n)) k v (int (length v)) s = Some s'"
    "vfs_ok s'" "vfs_abs s' = (vfs_abs s)(k \<mapsto> take (nat (int (length v))) v)" "e_block_size s' = e_block_size s"
    by (auto simp: vfs_store_ok_def vfs_fits_def)
  have "vfs_put k v s = Some s'" using s'(1) [rule_format, of 0] by (simp add: vfs_put_def numeral_2_eq_2)
  moreover have "vfs_store_ok s'" using s s' f by (auto simp: vfs_store_ok_def vfs_fits_def)
  ultimately show "\<exists>s'. vfs_put k v s = Some s' \<and> vfs_store_ok s'
      \<and> (\<lambda>k. map_option cstr (vfs_abs s' k)) = (\<lambda>k. map_option cstr (vfs_abs s k))(k \<mapsto> v)"
    using s'(3) f by (auto simp: fun_eq_iff cstr_c_string vfs_fits_def)
next
  fix s k
  assume s: "vfs_store_ok s"
  obtain c cs where b: "replicate 20480 NUL = c # cs" by (metis Suc_pred replicate_Suc zero_less_numeral)
  have len: "length (replicate 20480 NUL) = 20480" by (rule length_replicate)
  show "vfs_get k s = Some (case map_option cstr (vfs_abs s k) of None \<Rightarrow> [] | Some v \<Rightarrow> v)"
  proof (cases "vfs_abs s k")
    case None
    with s show ?thesis unfolding vfs_get_def b by (simp add: ReadFile_none vfs_store_ok_def)
  next
    case (Some d)
    with s have "length d < length (replicate 20480 NUL)" unfolding len by (auto simp: vfs_store_ok_def)
    from ReadFile_spec [OF _ Some this] s show ?thesis
      unfolding vfs_get_def by (simp only: vfs_store_ok_def Some) (simp add: cstr_append_stop)
  qed
qed

text \<open>C17: a file written with \<open>WriteFile\<close> reads back: on a sound list, for a name that fits and is a file
  already (or is new, on a volume without a mounted disk), and with room on the kernel heap for the bytes, 72 bytes
  per file of the list and 89 more (without it the bytes would go to address 0), the call returns at once or after one creation, keeps the list sound, and \<open>ReadFile\<close> then delivers exactly the bytes written,
  terminated, in any buffer larger than them; every other file keeps its content.\<close>

theorem WriteFile_ReadFile:
  assumes "vfs_ok s" and "c_string k" "length k < 64" and "0 \<le> sz" "sz \<le> int (length v)"
    and "vfs_abs s k \<noteq> None \<or> e_block_size s = 0 \<and> k \<notin> vf_name ` set (e_vfs s)"
    and "heap_room (e_heap s) (72 * length (e_vfs s) + 89 + nat sz)" and "nat sz < length buf"
  shows "\<exists>s'. (\<forall>n \<ge> 2. Ext4_WriteFile n k v sz s = Some s') \<and> vfs_ok s'
    \<and> Ext4_ReadFile k buf s' = Some (take (nat sz) v @ NUL # drop (Suc (nat sz)) buf, s')
    \<and> (\<forall>k'. k' \<noteq> k \<longrightarrow> vfs_abs s' k' = vfs_abs s k')"
proof -
  have "heap_room (e_heap s) (72 * length (e_vfs s) + 89 + nat sz + 0)" using assms(7) by simp
  from WriteFile_spec [OF assms(1-6) this] obtain s' where s': "\<forall>n. Ext4_WriteFile (Suc (Suc n)) k v sz s = Some s'"
    "vfs_ok s'" "vfs_abs s' = (vfs_abs s)(k \<mapsto> take (nat sz) v)" by blast
  have "\<forall>n \<ge> 2. Ext4_WriteFile n k v sz s = Some s'"
    using s'(1) by (metis add_2_eq_Suc le_Suc_ex)
  moreover have "Ext4_ReadFile k buf s' = Some (take (nat sz) v @ NUL # drop (Suc (nat sz)) buf, s')"
  proof -
    have "length (take (nat sz) v) = nat sz" using assms(4,5) by simp
    with ReadFile_spec [OF s'(2), of k "take (nat sz) v" buf] s'(3) assms(8) show ?thesis by simp
  qed
  ultimately show ?thesis using s' by auto
qed

definition empty_vfs :: ext4 where
  "empty_vfs = demo_ext4\<lparr>e_block_size := 0\<rparr>"

lemma empty_vfs_ok: "vfs_ok empty_vfs" "e_vfs empty_vfs = []" "e_heap empty_vfs = boot_heap" "e_block_size empty_vfs = 0"
  by (simp_all add: vfs_ok_def empty_vfs_def demo_ext4_def)

theorem WriteFile_ReadFile_witness:
  "\<exists>s'. Ext4_WriteFile 2 ''n'' ''text'' 4 empty_vfs = Some s'
    \<and> Ext4_ReadFile ''n'' (replicate 6 CHR ''?'') s' = Some (''text'' @ [NUL, CHR ''?''], s')"
proof -
  have "heap_room boot_heap (72 * length ([] :: vfile list) + 89 + nat 4)" by (rule boot_heap_room) simp
  from WriteFile_ReadFile [OF empty_vfs_ok(1), of "''n''" 4 "''text''" "replicate 6 CHR ''?''"] this
  show ?thesis by (force simp: c_string_def empty_vfs_ok)
qed

text \<open>Seen through \<open>ReadFile\<close>, the in-memory files are a finite map: what \<open>WriteFile\<close> stored under a
  name is what that name reads afterwards, and every other name reads what it did before.\<close>

theorem vfs_write_is_map_update:
  assumes "vfs_store_ok s" and "vfs_fits s k v"
  shows "\<exists>s'. vfs_put k v s = Some s' \<and> vfs_store_ok s'
    \<and> (\<forall>k'. vfs_get k' s' = (if k' = k then Some v else vfs_get k' s))"
  using vfs_store.put_safe [OF assms] vfs_store.get_after_put [OF assms] by fastforce

theorem vfs_write_is_map_update_witness:
  "\<exists>s'. vfs_put ''a'' ''b'' empty_vfs = Some s' \<and> vfs_get ''a'' s' = Some ''b''"
proof -
  have "heap_room boot_heap (72 * length ([] :: vfile list) + 89 + length ''b'')" by (rule boot_heap_room) simp
  then have "vfs_store_ok empty_vfs" "vfs_fits empty_vfs ''a'' ''b''"
    using empty_vfs_ok by (simp_all add: vfs_store_ok_def vfs_fits_def vfs_abs_def c_string_def)
  from vfs_write_is_map_update [OF this] show ?thesis by auto
qed

lemma find_index_remove_at:
  assumes "find_index p xs = Some i" and "\<And>j. j < length xs \<Longrightarrow> j \<noteq> i \<Longrightarrow> \<not> p (xs ! j)"
  shows "find_index p (remove_at i xs) = None"
proof -
  have i: "i < length xs" using find_index_SomeD [OF assms(1)] by simp
  have "\<not> p x" if "x \<in> set (remove_at i xs)" for x
  proof -
    from that consider "x \<in> set (take i xs)" | "x \<in> set (drop (Suc i) xs)" by (auto simp: remove_at_def)
    then show ?thesis
    proof cases
      case 1
      then obtain j where "j < i" "x = xs ! j" using i by (auto simp: in_set_conv_nth)
      with assms(2) [of j] i show ?thesis by simp
    next
      case 2
      then obtain j where "j < length xs - Suc i" "x = xs ! (Suc i + j)" by (auto simp: in_set_conv_nth)
      then have "Suc i + j < length xs" "x = xs ! (Suc i + j)" by simp_all
      with assms(2) [of "Suc i + j"] show ?thesis by simp
    qed
  qed
  then show ?thesis by simp
qed

lemma find_value_remove_at:
  assumes "i < length xs" and "\<not> p (xs ! i)"
  shows "map_option (\<lambda>j. remove_at i xs ! j) (find_index p (remove_at i xs)) = map_option (\<lambda>j. xs ! j) (find_index p xs)"
  using assms
proof (induction xs arbitrary: i)
  case (Cons x xs)
  show ?case
  proof (cases i)
    case 0
    with Cons.prems show ?thesis by (simp add: remove_at_def option.map_comp o_def)
  next
    case (Suc n)
    with Cons have "map_option (\<lambda>j. remove_at n xs ! j) (find_index p (remove_at n xs)) = map_option (\<lambda>j. xs ! j) (find_index p xs)"
      by simp
    with Suc show ?thesis by (simp add: remove_at_def option.map_comp o_def)
  qed
qed simp

lemma Rm_spec:
  assumes ok: "vfs_ok s"
  shows "vfs_ok (Rm k s) \<and> vfs_abs (Rm k s) = (vfs_abs s)(k := None)
    \<and> k \<notin> vf_name ` set (e_vfs (Rm k s))"
proof (cases "find_index (\<lambda>f. vf_name f = k) (e_vfs s)")
  case None
  then have n: "k \<notin> vf_name ` set (e_vfs s)" by auto
  then have "find_index (is_file k) (e_vfs s) = None" by (auto simp: is_file_def)
  then have "vfs_abs s k = None" by (simp add: vfs_abs_def)
  moreover have "Rm k s = ext4_print (''Ext4: rm on disk files not supported yet.'' @ [NL]) s"
    by (simp add: Rm_def None del: find_index_None)
  ultimately show ?thesis using ok n by (auto simp: ext4_print_def vfs_ok_def vfs_abs_def fun_eq_iff)
next
  case (Some i)
  note I = find_index_SomeD [OF Some]
  have rm: "Rm k s = s\<lparr>e_vfs := remove_at i (e_vfs s)\<rparr>" using Some by (simp add: Rm_def)
  have d: "distinct (map vf_name (e_vfs s))" using ok by (simp add: vfs_ok_def)
  have other: "vf_name (e_vfs s ! j) \<noteq> k" if "j < length (e_vfs s)" "j \<noteq> i" for j
    using that I d by (metis length_map nth_eq_iff_index_eq nth_map)
  have sub: "set (remove_at i (e_vfs s)) \<subseteq> set (e_vfs s)"
    by (auto simp: remove_at_def dest: in_set_takeD in_set_dropD)
  have gone: "k \<notin> vf_name ` set (remove_at i (e_vfs s))"
    using find_index_remove_at [OF Some] other by auto
  have "distinct (map vf_name (remove_at i (e_vfs s)))"
    using set_take_disj_set_drop_if_distinct [OF d, of i "Suc i"]
      distinct_take [OF d, of i] distinct_drop [OF d, of "Suc i"]
    by (simp only: remove_at_def map_append distinct_append take_map drop_map set_map)
  then have "vfs_ok (Rm k s)" using ok sub unfolding rm vfs_ok_def by auto
  moreover have "vfs_abs (Rm k s) k' = ((vfs_abs s)(k := None)) k'" for k'
  proof (cases "k' = k")
    case True
    have "find_index (is_file k) (remove_at i (e_vfs s)) = None" using gone by (auto simp: is_file_def)
    with True show ?thesis by (simp add: vfs_abs_def rm)
  next
    case False
    then have "\<not> is_file k' (e_vfs s ! i)" using I by (simp add: is_file_def)
    from arg_cong [OF find_value_remove_at [where p = "is_file k'", OF _ this], of "map_option vf_bytes"] False I
    show ?thesis by (simp add: vfs_abs_def rm option.map_comp o_def)
  qed
  ultimately show ?thesis using gone by (auto simp: rm)
qed

text \<open>C0: \<open>Rm\<close> removes the named file and nothing else: on a sound list the name is gone afterwards,
  every other file keeps its content and the list stays sound.\<close>

theorem Rm_removes:
  assumes ok: "vfs_ok s"
  shows "vfs_ok (Rm k s) \<and> vfs_abs (Rm k s) = (vfs_abs s)(k := None)
    \<and> k \<notin> vf_name ` set (e_vfs (Rm k s))"
  by (rule Rm_spec [OF ok])

theorem Rm_removes_witness: "vfs_ok (Rm ''n'' empty_vfs) \<and> vfs_abs (Rm ''n'' empty_vfs) ''n'' = None"
  using Rm_removes [OF empty_vfs_ok(1), of "''n''"] by simp

text \<open>Inodes are found with two different strides: the root, inode 2, at byte 256 (256-byte inodes), a
  file's inode number \<open>n\<close> at \<open>(n - 1) * 128\<close>; so a file with inode 3 is read through the root
  directory's inode.\<close>

lemma file_inode_3_is_root_inode:
  "name_len_at buf off = Some len \<Longrightarrow> 0 < len \<Longrightarrow> name_at buf off (min len 63) = Some fname \<Longrightarrow>
   word_at off buf = Some 3 \<Longrightarrow> find_visit buf (cstr fname) off st = Some (Some 256, True)"
  by (simp add: find_visit_def inode_bytes_def)

end
