(* ===== verification/EditorModel.thy ===== *)
theory EditorModel
  imports Terminal Vfs
begin

text \<open>
  The text editor of src/core/shell/Editor.cpp: a 10240-byte buffer, the length of the text, the
  cursor, and the file name; it draws on its terminal and saves through \<open>WriteFile\<close>. The theory
  shows that drawing stays inside the grid, that the key handler acts on the text as insertion and
  deletion in a list at the cursor, and that a save followed by a read gives the text back.
\<close>

section \<open>State\<close>

record editor =
  filename :: string
  content :: "char list option"
  content_size :: int
  cursor_idx :: int

type_synonym ed_world = "terminal \<times> ext4 \<times> editor"

definition new_editor :: editor where
  "new_editor = \<lparr>filename = [], content = None, content_size = 0, cursor_idx = 0\<rparr>"

section \<open>Drawing\<close>

definition draw_char :: "int \<Rightarrow> int \<Rightarrow> char \<Rightarrow> u32 \<Rightarrow> terminal \<Rightarrow> terminal option" where
  "draw_char row col c colour t = do {
     b \<leftarrow> grid_set (buffer t) row col c;
     k \<leftarrow> grid_set (color_buffer t) row col colour;
     Some (t\<lparr>buffer := b, color_buffer := k\<rparr>)
   }"

text \<open>The loop over the text; \<open>n\<close> characters remain. The state is \<open>row, col, cx, cy\<close>.\<close>

fun render_loop :: "nat \<Rightarrow> int \<Rightarrow> char list \<Rightarrow> int \<Rightarrow> int \<Rightarrow> int \<Rightarrow> int \<Rightarrow> int \<Rightarrow> terminal
    \<Rightarrow> (int \<times> int \<times> int \<times> int \<times> terminal) option" where
  "render_loop 0 i text cur row col cx cy t = Some (row, col, cx, cy, t)"
| "render_loop (Suc n) i text cur row col cx cy t = do {
     c \<leftarrow> arr_get text i;
     let (cx, cy) = (if i = cur then (col, row) else (cx, cy));
     (row, col, t) \<leftarrow>
       (if c = NL then Some (row + 1, 0, t)
        else if col < TERM_W then map_option (\<lambda>t. (row, col + 1, t)) (draw_char row col c 0xFFFFFF t)
        else map_option (\<lambda>t. (row + 1, 1, t)) (draw_char (row + 1) 0 c 0xFFFFFF t));
     if TERM_H - 1 \<le> row then Some (row, col, cx, cy, t)
     else render_loop n (i + 1) text cur row col cx cy t
   }"

text \<open>\<open>for (i = 0; status[i] && i < TERM_W; i++)\<close> on the last row.\<close>

fun draw_status :: "int \<Rightarrow> string \<Rightarrow> terminal \<Rightarrow> terminal option" where
  "draw_status i [] t = Some t"
| "draw_status i (c # cs) t =
     (if i < TERM_W then draw_char (TERM_H - 1) i c 0x00FF00 t \<bind> draw_status (i + 1) cs else Some t)"

definition Editor_Render :: "editor \<Rightarrow> terminal \<Rightarrow> terminal option" where
  "Editor_Render e t = do {
     text \<leftarrow> content e;
     (row, col, cx, cy, t1) \<leftarrow> render_loop (nat (content_size e)) 0 text (cursor_idx e) 0 0 0 0 (Clear t);
     let (cx, cy) = (if cursor_idx e = content_size e then (col, row) else (cx, cy));
     draw_status 0 ''[EDIT] Ctrl+S: Save | Ctrl+Q: Quit'' (t1\<lparr>cursor_row := cy, cursor_col := cx\<rparr>)
   }"

section \<open>Opening, keys\<close>

definition Editor_Start :: "string \<Rightarrow> ed_world \<Rightarrow> ed_world option" where
  "Editor_Start fname w = do {
     let (t, s, e) = w;
     if length fname < 64 then do {
       s1 \<leftarrow> ext4_alloc 10240 s;
       (text, s2) \<leftarrow> Ext4_ReadFile fname (replicate 10240 NUL) s1;
       len \<leftarrow> utils_strlen text;
       let e1 = \<lparr>filename = fname, content = Some text, content_size = int len, cursor_idx = 0\<rparr>;
       t1 \<leftarrow> Editor_Render e1 (t\<lparr>mode := EDITOR, active_editor := True\<rparr>);
       Some (t1, s2, e1)
     } else None
   }"

text \<open>\<open>for (i = cursor_idx; i < content_size; i++) content[i-1] = content[i]\<close>, and the other way.\<close>

fun shift_left :: "nat \<Rightarrow> int \<Rightarrow> char list \<Rightarrow> char list option" where
  "shift_left 0 i text = Some text"
| "shift_left (Suc n) i text = do {
     c \<leftarrow> arr_get text i; text' \<leftarrow> arr_set text (i - 1) c; shift_left n (i + 1) text'
   }"

fun shift_right :: "nat \<Rightarrow> int \<Rightarrow> char list \<Rightarrow> char list option" where
  "shift_right 0 i text = Some text"
| "shift_right (Suc n) i text = do {
     c \<leftarrow> arr_get text (i - 1); text' \<leftarrow> arr_set text i c; shift_right n (i - 1) text'
   }"

definition ed_delete :: "editor \<Rightarrow> editor option" where
  "ed_delete e = do {
     text \<leftarrow> content e;
     text1 \<leftarrow> shift_left (nat (content_size e - cursor_idx e)) (cursor_idx e) text;
     text2 \<leftarrow> arr_set text1 (content_size e - 1) NUL;
     Some (e\<lparr>content := Some text2, content_size := content_size e - 1, cursor_idx := cursor_idx e - 1\<rparr>)
   }"

definition ed_insert :: "char \<Rightarrow> editor \<Rightarrow> editor option" where
  "ed_insert c e = do {
     text \<leftarrow> content e;
     text1 \<leftarrow> shift_right (nat (content_size e - cursor_idx e)) (content_size e) text;
     text2 \<leftarrow> arr_set text1 (cursor_idx e) c;
     text3 \<leftarrow> arr_set text2 (content_size e + 1) NUL;
     Some (e\<lparr>content := Some text3, cursor_idx := cursor_idx e + 1, content_size := content_size e + 1\<rparr>)
   }"

definition ed_redraw :: "editor \<Rightarrow> ext4 \<Rightarrow> terminal \<Rightarrow> ed_world option" where
  "ed_redraw e s t = map_option (\<lambda>t'. (t', s, e)) (Editor_Render e t)"

definition cursor_back :: "editor \<Rightarrow> editor" where
  "cursor_back e = (if 0 < cursor_idx e then e\<lparr>cursor_idx := cursor_idx e - 1\<rparr> else e)"

definition cursor_forward :: "editor \<Rightarrow> editor" where
  "cursor_forward e = (if cursor_idx e < content_size e then e\<lparr>cursor_idx := cursor_idx e + 1\<rparr> else e)"

text \<open>\<open>n\<close> bounds the calls of \<open>WriteFile\<close>; \<open>ctrl\<close> is \<open>Desktop::IsCtrlPressed()\<close>.\<close>

definition Editor_OnKeyDown :: "nat \<Rightarrow> bool \<Rightarrow> int \<Rightarrow> char \<Rightarrow> ed_world \<Rightarrow> ed_world option" where
  "Editor_OnKeyDown n ctrl scancode ascii w =
     (let (t, s, e) = w in
      if ctrl \<and> scancode = 0x1F then do {
        text \<leftarrow> content e;
        s1 \<leftarrow> Ext4_WriteFile n (filename e) text (content_size e) s;
        ed_redraw e s1 t
      }
      else if ctrl \<and> scancode = 0x10 then do {
        t1 \<leftarrow> TW_Prompt (Clear (t\<lparr>mode := SHELL, active_editor := False\<rparr>));
        Some (t1, s, e\<lparr>content := None\<rparr>)
      }
      else if scancode = 0x4B \<or> scancode = 0x48 then ed_redraw (cursor_back e) s t
      else if scancode = 0x4D \<or> scancode = 0x50 then ed_redraw (cursor_forward e) s t
      else if scancode = 0x0E then
        (if 0 < cursor_idx e then do { e1 \<leftarrow> ed_delete e; ed_redraw e1 s t } else Some w)
      else if ascii \<noteq> NUL \<and> content_size e < 10240 - 1 then do { e1 \<leftarrow> ed_insert ascii e; ed_redraw e1 s t }
      else Some w)"

section \<open>The text being edited\<close>

definition ed_text :: "editor \<Rightarrow> string" where
  "ed_text e = (case content e of None \<Rightarrow> [] | Some m \<Rightarrow> take (nat (content_size e)) m)"

definition ed_ok :: "editor \<Rightarrow> bool" where
  "ed_ok e \<longleftrightarrow> 0 \<le> cursor_idx e \<and> cursor_idx e \<le> content_size e \<and> content_size e < 10240 \<and> length (filename e) < 64
     \<and> (\<exists>m. content e = Some m \<and> length m = 10240 \<and> m ! nat (content_size e) = NUL \<and> c_string (ed_text e))"

lemma draw_char_ok:
  assumes "term_ok t" "0 \<le> row" "row < TERM_H" "0 \<le> col" "col < TERM_W"
  shows "\<exists>t'. draw_char row col c k t = Some t' \<and> term_ok t' \<and> same_input t t'"
proof -
  obtain b where b: "grid_set (buffer t) row col c = Some b" "length b = 25" "\<forall>r \<in> set b. length r = 60"
    using grid_set_in [of "buffer t" 25 60 row col c] assms by (auto simp: term_ok_def)
  obtain d where d: "grid_set (color_buffer t) row col k = Some d" "length d = 25" "\<forall>r \<in> set d. length r = 60"
    using grid_set_in [of "color_buffer t" 25 60 row col k] assms by (auto simp: term_ok_def)
  show ?thesis using b d assms(1) by (simp add: draw_char_def term_ok_def same_input_def)
qed

lemma render_loop_ok:
  "term_ok t \<Longrightarrow> 0 \<le> i \<Longrightarrow> i + int n \<le> int (length text) \<Longrightarrow> 0 \<le> row \<Longrightarrow> row < TERM_H - 1 \<Longrightarrow> 0 \<le> col \<Longrightarrow> col \<le> TERM_W
   \<Longrightarrow> 0 \<le> cx \<Longrightarrow> cx \<le> TERM_W \<Longrightarrow> 0 \<le> cy \<Longrightarrow> cy < TERM_H \<Longrightarrow>
   \<exists>row' col' cx' cy' t'. render_loop n i text cur row col cx cy t = Some (row', col', cx', cy', t')
     \<and> 0 \<le> row' \<and> row' < TERM_H \<and> 0 \<le> col' \<and> col' \<le> TERM_W \<and> 0 \<le> cx' \<and> cx' \<le> TERM_W \<and> 0 \<le> cy' \<and> cy' < TERM_H
     \<and> term_ok t' \<and> same_input t t'"
proof (induction n arbitrary: i row col cx cy t)
  case 0
  then show ?case by simp
next
  case (Suc n)
  define c where "c = text ! nat i"
  have c: "arr_get text i = Some c" using Suc.prems by (simp add: arr_get_def c_def)
  define cx1 cy1 where "cx1 = (if i = cur then col else cx)" and "cy1 = (if i = cur then row else cy)"
  have c1: "0 \<le> cx1" "cx1 \<le> TERM_W" "0 \<le> cy1" "cy1 < TERM_H" using Suc.prems by (auto simp: cx1_def cy1_def)
  have p: "(if i = cur then (col, row) else (cx, cy)) = (cx1, cy1)" by (simp add: cx1_def cy1_def)
  have "\<exists>row1 col1 t1. (if c = NL then Some (row + 1, 0, t)
        else if col < TERM_W then map_option (\<lambda>t. (row, col + 1, t)) (draw_char row col c 0xFFFFFF t)
        else map_option (\<lambda>t. (row + 1, 1, t)) (draw_char (row + 1) 0 c 0xFFFFFF t)) = Some (row1, col1, t1)
      \<and> 0 \<le> row1 \<and> row1 < TERM_H \<and> 0 \<le> col1 \<and> col1 \<le> TERM_W \<and> term_ok t1 \<and> same_input t t1"
  proof (cases "c = NL")
    case True
    then show ?thesis using Suc.prems by simp
  next
    case False
    show ?thesis
    proof (cases "col < TERM_W")
      case True
      with draw_char_ok [OF Suc.prems(1), of row col c "0xFFFFFF"] Suc.prems(4-6)
      obtain u where "draw_char row col c 0xFFFFFF t = Some u" "term_ok u" "same_input t u" by auto
      with True False Suc.prems(4-6) show ?thesis by simp
    next
      case False
      with draw_char_ok [OF Suc.prems(1), of "row + 1" 0 c "0xFFFFFF"] Suc.prems(4,5)
      obtain u where "draw_char (row + 1) 0 c 0xFFFFFF t = Some u" "term_ok u" "same_input t u" by auto
      with False \<open>c \<noteq> NL\<close> Suc.prems(4,5) show ?thesis by simp
    qed
  qed
  then obtain row1 col1 t1 where step: "(if c = NL then Some (row + 1, 0, t)
        else if col < TERM_W then map_option (\<lambda>t. (row, col + 1, t)) (draw_char row col c 0xFFFFFF t)
        else map_option (\<lambda>t. (row + 1, 1, t)) (draw_char (row + 1) 0 c 0xFFFFFF t)) = Some (row1, col1, t1)"
      and s: "0 \<le> row1" "row1 < TERM_H" "0 \<le> col1" "col1 \<le> TERM_W" "term_ok t1" "same_input t t1" by blast
  have unfold: "render_loop (Suc n) i text cur row col cx cy t =
      (if TERM_H - 1 \<le> row1 then Some (row1, col1, cx1, cy1, t1)
       else render_loop n (i + 1) text cur row1 col1 cx1 cy1 t1)"
    unfolding render_loop.simps c p Let_def bind.bind_lunit prod.case step by (rule refl)
  show ?case
  proof (cases "TERM_H - 1 \<le> row1")
    case True
    with s c1 show ?thesis unfolding unfold by simp
  next
    case False
    have bounds: "0 \<le> i + 1" "i + 1 + int n \<le> int (length text)" "row1 < TERM_H - 1"
      using Suc.prems(2,3) False by simp_all
    from Suc.IH [OF s(5) bounds(1,2) s(1) bounds(3) s(3,4) c1]
    obtain r2 k2 x2 y2 t2 where "render_loop n (i + 1) text cur row1 col1 cx1 cy1 t1 = Some (r2, k2, x2, y2, t2)"
      and r2: "0 \<le> r2" "r2 < TERM_H" "0 \<le> k2" "k2 \<le> TERM_W" "0 \<le> x2" "x2 \<le> TERM_W" "0 \<le> y2" "y2 < TERM_H"
        "term_ok t2" "same_input t1 t2" by blast
    with False have "render_loop (Suc n) i text cur row col cx cy t = Some (r2, k2, x2, y2, t2)"
      unfolding unfold by simp
    with r2 same_input_trans [OF s(6) r2(10)] show ?thesis by blast
  qed
qed

lemma draw_status_ok:
  "term_ok t \<Longrightarrow> 0 \<le> i \<Longrightarrow> \<exists>t'. draw_status i cs t = Some t' \<and> term_ok t' \<and> same_input t t'"
proof (induction cs arbitrary: i t)
  case (Cons c cs)
  show ?case
  proof (cases "i < TERM_W")
    case True
    from draw_char_ok [OF Cons.prems(1), of "TERM_H - 1" i c "0x00FF00"] True Cons.prems(2)
    obtain u where "draw_char (TERM_H - 1) i c 0x00FF00 t = Some u" "term_ok u" "same_input t u" by auto
    with Cons.IH [of u "i + 1"] True Cons.prems(2) same_input_trans show ?thesis by fastforce
  qed (use Cons.prems in simp)
qed simp

lemma Render_ok:
  assumes "content e = Some m" "0 \<le> content_size e" "content_size e \<le> int (length m)"
  shows "\<exists>t'. Editor_Render e t = Some t' \<and> term_ok t' \<and> same_input t t'"
proof -
  obtain row col cx cy t1 where r: "render_loop (nat (content_size e)) 0 m (cursor_idx e) 0 0 0 0 (Clear t) = Some (row, col, cx, cy, t1)"
    and s: "0 \<le> row" "row < TERM_H" "0 \<le> col" "col \<le> TERM_W" "0 \<le> cx" "cx \<le> TERM_W" "0 \<le> cy" "cy < TERM_H"
      "term_ok t1" "same_input (Clear t) t1"
    using render_loop_ok [of "Clear t" 0 "nat (content_size e)" m 0 0 0 0 "cursor_idx e"] assms by auto
  define t2 where "t2 = (let (cx, cy) = (if cursor_idx e = content_size e then (col, row) else (cx, cy))
    in t1\<lparr>cursor_row := cy, cursor_col := cx\<rparr>)"
  have "term_ok t2" "same_input t t2"
    using s by (auto simp: t2_def term_ok_def same_input_def Clear_def)
  moreover from draw_status_ok [OF this(1), of 0 "''[EDIT] Ctrl+S: Save | Ctrl+Q: Quit''"]
  obtain t3 where "draw_status 0 ''[EDIT] Ctrl+S: Save | Ctrl+Q: Quit'' t2 = Some t3" "term_ok t3" "same_input t2 t3" by auto
  moreover have "Editor_Render e t = draw_status 0 ''[EDIT] Ctrl+S: Save | Ctrl+Q: Quit'' t2"
    by (simp add: Editor_Render_def assms(1) r t2_def split: prod.split del: draw_status.simps)
  ultimately show ?thesis using same_input_trans by auto
qed

section \<open>Insertion and deletion\<close>

lemma shift_left_nth:
  "1 \<le> i \<Longrightarrow> i + n \<le> length text \<Longrightarrow>
   \<exists>m. shift_left n (int i) text = Some m \<and> length m = length text
     \<and> (\<forall>j < length text. m ! j = (if i - 1 \<le> j \<and> j < i - 1 + n then text ! (j + 1) else text ! j))"
proof (induction n arbitrary: i "text")
  case (Suc n)
  define t1 where "t1 = text[i - 1 := text ! i]"
  have len: "length t1 = length text" by (simp add: t1_def)
  have get: "arr_get text (int i) = Some (text ! i)" "arr_set text (int i - 1) (text ! i) = Some t1"
    using Suc.prems by (simp_all add: arr_get_def arr_set_def t1_def nat_diff_distrib)
  from Suc.IH [of "i + 1" t1] Suc.prems len obtain m where m: "shift_left n (int (i + 1)) t1 = Some m" "length m = length text"
    "\<forall>j < length text. m ! j = (if i \<le> j \<and> j < i + n then t1 ! (j + 1) else t1 ! j)" by auto
  have "m ! j = (if i - 1 \<le> j \<and> j < i - 1 + Suc n then text ! (j + 1) else text ! j)" if "j < length text" for j
    using m(3) that Suc.prems by (auto simp: t1_def nth_list_update)
  with get m show ?case by (simp add: add.commute)
qed auto

lemma shift_right_nth:
  "n \<le> i \<Longrightarrow> i < length text \<Longrightarrow>
   \<exists>m. shift_right n (int i) text = Some m \<and> length m = length text
     \<and> (\<forall>j < length text. m ! j = (if i - n < j \<and> j \<le> i then text ! (j - 1) else text ! j))"
proof (induction n arbitrary: i "text")
  case (Suc n)
  define t1 where "t1 = text[i := text ! (i - 1)]"
  have len: "length t1 = length text" by (simp add: t1_def)
  have get: "arr_get text (int i - 1) = Some (text ! (i - 1))" "arr_set text (int i) (text ! (i - 1)) = Some t1"
    using Suc.prems by (simp_all add: arr_get_def arr_set_def t1_def nat_diff_distrib)
  have "n \<le> i - 1" "i - 1 < length t1" using Suc.prems len by simp_all
  from Suc.IH [OF this] Suc.prems len obtain m where m: "shift_right n (int (i - 1)) t1 = Some m" "length m = length text"
    "\<forall>j < length text. m ! j = (if i - 1 - n < j \<and> j \<le> i - 1 then t1 ! (j - 1) else t1 ! j)" by auto
  have "m ! j = (if i - Suc n < j \<and> j \<le> i then text ! (j - 1) else text ! j)" if "j < length text" for j
    using m(3) that Suc.prems by (auto simp: t1_def nth_list_update)
  with get m Suc.prems show ?case by (simp add: of_nat_diff)
qed auto

lemma ed_okE:
  assumes "ed_ok e"
  obtains m k n where "content e = Some m" "cursor_idx e = int k" "content_size e = int n" "k \<le> n" "n < 10240"
    "length m = 10240" "m ! n = NUL" "c_string (take n m)" "ed_text e = take n m" "length (filename e) < 64"
proof -
  from assms obtain m where m: "content e = Some m" "length m = 10240" "m ! nat (content_size e) = NUL"
    and t: "c_string (ed_text e)" by (auto simp: ed_ok_def)
  define k n where "k = nat (cursor_idx e)" and "n = nat (content_size e)"
  have kn: "cursor_idx e = int k" "content_size e = int n" "k \<le> n" "n < 10240" "length (filename e) < 64"
    using assms by (auto simp: ed_ok_def k_def n_def)
  have "ed_text e = take n m" using m kn by (simp add: ed_text_def)
  with m t kn that [of m k n] show thesis by simp
qed

lemma ed_okI:
  assumes "content e = Some m" "cursor_idx e = int k" "content_size e = int n" "k \<le> n" "n < 10240"
    "length m = 10240" "m ! n = NUL" "c_string (take n m)" "length (filename e) < 64"
  shows "ed_ok e" "ed_text e = take n m"
  using assms by (simp_all add: ed_ok_def ed_text_def)

lemma ed_delete_spec:
  assumes ok: "ed_ok e" and pos: "0 < cursor_idx e"
  shows "\<exists>e'. ed_delete e = Some e' \<and> ed_ok e' \<and> cursor_idx e' = cursor_idx e - 1 \<and> filename e' = filename e
    \<and> ed_text e' = take (nat (cursor_idx e) - 1) (ed_text e) @ drop (nat (cursor_idx e)) (ed_text e)"
proof -
  from ok obtain m k n where e: "content e = Some m" "cursor_idx e = int k" "content_size e = int n" "k \<le> n" "n < 10240"
    "length m = 10240" "m ! n = NUL" "c_string (take n m)" "ed_text e = take n m" "length (filename e) < 64" by (rule ed_okE)
  have k: "1 \<le> k" "0 < n" using pos e by auto
  have "k + (n - k) \<le> length m" using e by simp
  from shift_left_nth [OF k(1) this] obtain m1 where m1: "shift_left (n - k) (int k) m = Some m1" "length m1 = 10240"
    "\<forall>j < 10240. m1 ! j = (if k - 1 \<le> j \<and> j < n - 1 then m ! (j + 1) else m ! j)" using e k by auto
  define m2 where "m2 = m1[n - 1 := NUL]"
  have set: "arr_set m1 (int n - 1) NUL = Some m2"
    using e k m1 by (simp add: arr_set_def m2_def nat_diff_distrib)
  define e' where "e' = e\<lparr>content := Some m2, content_size := int n - 1, cursor_idx := int k - 1\<rparr>"
  have del: "ed_delete e = Some e'"
    using e m1 set by (simp add: ed_delete_def e'_def nat_diff_distrib)
  have edited: "take (n - 1) m2 = take (k - 1) (take n m) @ drop k (take n m)"
  proof (rule nth_equalityI)
    show "length (take (n - 1) m2) = length (take (k - 1) (take n m) @ drop k (take n m))"
      using e k m1 by (simp add: m2_def)
    fix i assume "i < length (take (n - 1) m2)"
    then have "i < n - 1" by simp
    then have i: "i < n - 1" "i < 10240" using e by simp_all
    then have "take (n - 1) m2 ! i = (if k - 1 \<le> i then m ! (i + 1) else m ! i)"
      using m1 by (simp add: m2_def)
    then show "take (n - 1) m2 ! i = (take (k - 1) (take n m) @ drop k (take n m)) ! i"
      using i e k by (simp add: nth_append)
  qed
  have "set (take (k - 1) (take n m) @ drop k (take n m)) \<subseteq> set (take n m)"
    using set_take_subset [of "k - 1" "take n m"] set_drop_subset [of k "take n m"]
    by (simp only: set_append) blast
  with e(8) have "c_string (take (n - 1) m2)" unfolding edited c_string_def by blast
  with e k m1 have ok': "ed_ok e'" "ed_text e' = take (n - 1) m2"
    by (intro ed_okI [of e' m2 "k - 1" "n - 1"]; simp add: e'_def m2_def of_nat_diff)+
  show ?thesis using del ok' edited e by (intro exI [of _ e']) (simp add: e'_def)
qed

lemma ed_insert_spec:
  assumes ok: "ed_ok e" and room: "content_size e < 10240 - 1" and c: "c \<noteq> NUL"
  shows "\<exists>e'. ed_insert c e = Some e' \<and> ed_ok e' \<and> cursor_idx e' = cursor_idx e + 1 \<and> filename e' = filename e
    \<and> ed_text e' = take (nat (cursor_idx e)) (ed_text e) @ [c] @ drop (nat (cursor_idx e)) (ed_text e)"
proof -
  from ok obtain m k n where e: "content e = Some m" "cursor_idx e = int k" "content_size e = int n" "k \<le> n" "n < 10240"
    "length m = 10240" "m ! n = NUL" "c_string (take n m)" "ed_text e = take n m" "length (filename e) < 64" by (rule ed_okE)
  have n: "n < 10239" using room e by simp
  have "n - k \<le> n" "n < length m" using e by simp_all
  from shift_right_nth [OF this] obtain m1 where m1: "shift_right (n - k) (int n) m = Some m1" "length m1 = 10240"
    "\<forall>j < 10240. m1 ! j = (if k < j \<and> j \<le> n then m ! (j - 1) else m ! j)" using e by auto
  define m3 where "m3 = m1[k := c, n + 1 := NUL]"
  have set: "arr_set m1 (int k) c = Some (m1[k := c])" "arr_set (m1[k := c]) (int n + 1) NUL = Some m3"
    using e n m1 by (simp_all add: arr_set_def m3_def nat_add_distrib)
  define e' where "e' = e\<lparr>content := Some m3, cursor_idx := int k + 1, content_size := int n + 1\<rparr>"
  have ins: "ed_insert c e = Some e'"
    using e m1 set by (simp add: ed_insert_def e'_def nat_diff_distrib)
  have edited: "take (n + 1) m3 = take k (take n m) @ [c] @ drop k (take n m)"
  proof (rule nth_equalityI)
    show "length (take (n + 1) m3) = length (take k (take n m) @ [c] @ drop k (take n m))"
      using e n m1 by (simp add: m3_def)
    fix i assume "i < length (take (n + 1) m3)"
    then have i: "i < n + 1" "i < 10240" using n by simp_all
    then have "take (n + 1) m3 ! i = (if i = k then c else if k < i then m ! (i - 1) else m ! i)"
      using m1 n by (simp add: m3_def nth_list_update)
    then show "take (n + 1) m3 ! i = (take k (take n m) @ [c] @ drop k (take n m)) ! i"
    proof (cases "k < i")
      case True
      then have "i - k = Suc (i - Suc k)" "k + (i - Suc k) = i - 1" by simp_all
      with True i e \<open>take (n + 1) m3 ! i = _\<close> show ?thesis by (simp add: nth_append)
    qed (use i e in \<open>simp add: nth_append\<close>)
  qed
  have "set (take k (take n m) @ [c] @ drop k (take n m)) \<subseteq> insert c (set (take n m))"
    using set_take_subset [of k "take n m"] set_drop_subset [of k "take n m"]
    by (simp only: set_append list.set) blast
  with e(8) c have "c_string (take (n + 1) m3)" unfolding edited c_string_def by blast
  with e n m1 have ok': "ed_ok e'" "ed_text e' = take (n + 1) m3"
    by (intro ed_okI [of e' m3 "k + 1" "n + 1"]; simp add: e'_def m3_def)+
  show ?thesis using ins ok' edited e by (intro exI [of _ e']) (simp add: e'_def)
qed

lemma ed_redraw_ok: "ed_ok e \<Longrightarrow> \<exists>t'. ed_redraw e s t = Some (t', s, e) \<and> term_ok t' \<and> same_input t t'"
  using Render_ok [of e _ t] by (force simp: ed_ok_def ed_redraw_def)

text \<open>What a key does to the text and the cursor, as list operations.\<close>

definition edit_step :: "int \<Rightarrow> char \<Rightarrow> string \<times> int \<Rightarrow> string \<times> int" where
  "edit_step scancode ascii x =
     (let (text, cur) = x; k = nat cur in
      if scancode = 0x4B \<or> scancode = 0x48 then (text, max 0 (cur - 1))
      else if scancode = 0x4D \<or> scancode = 0x50 then (text, min (int (length text)) (cur + 1))
      else if scancode = 0x0E then
        (if 0 < cur then (take (k - 1) text @ drop k text, cur - 1) else x)
      else if ascii \<noteq> NUL \<and> length text < 10239 then (take k text @ [ascii] @ drop k text, cur + 1)
      else x)"

section \<open>Properties\<close>

lemma ed_text_length: "ed_ok e \<Longrightarrow> int (length (ed_text e)) = content_size e"
  by (erule ed_okE) simp

lemma cursor_moves:
  assumes "ed_ok e"
  shows "ed_ok (cursor_back e)" "ed_text (cursor_back e) = ed_text e" "cursor_idx (cursor_back e) = max 0 (cursor_idx e - 1)"
    and "ed_ok (cursor_forward e)" "ed_text (cursor_forward e) = ed_text e"
    and "cursor_idx (cursor_forward e) = min (content_size e) (cursor_idx e + 1)"
  using assms by (auto simp: ed_ok_def ed_text_def cursor_back_def cursor_forward_def)

text \<open>C6: without a control combination, a key acts on the text and the cursor as the list operation of
  \<open>edit_step\<close> says: the arrows move the cursor by one inside the text, backspace removes the
  character before it, a character is inserted at it while there is room, anything else does
  nothing. The buffer is never overrun, the editor stays well formed and the screen is redrawn
  inside its grid.\<close>

theorem Editor_keys_edit_text:
  assumes ok: "ed_ok e" and t: "term_ok t"
    and plain: "\<not> (ctrl \<and> (scancode = 0x1F \<or> scancode = 0x10))"
  shows "\<exists>t' e'. Editor_OnKeyDown n ctrl scancode ascii (t, s, e) = Some (t', s, e') \<and> ed_ok e' \<and> term_ok t'
    \<and> (ed_text e', cursor_idx e') = edit_step scancode ascii (ed_text e, cursor_idx e)"
proof -
  note len = ed_text_length [OF ok]
  have redraw: "\<exists>t'. ed_redraw e1 s t = Some (t', s, e1) \<and> term_ok t'" if "ed_ok e1" for e1
    using ed_redraw_ok [OF that] by blast
  consider (left) "scancode = 0x4B \<or> scancode = 0x48"
    | (right) "scancode = 0x4D \<or> scancode = 0x50"
    | (del) "scancode = 0x0E" "0 < cursor_idx e"
    | (ins) "scancode \<notin> {0x4B, 0x48, 0x4D, 0x50, 0x0E}" "ascii \<noteq> NUL" "content_size e < 10240 - 1"
    | (none) "scancode \<notin> {0x4B, 0x48, 0x4D, 0x50}" "scancode = 0x0E \<longrightarrow> \<not> 0 < cursor_idx e"
        "scancode \<noteq> 0x0E \<longrightarrow> \<not> (ascii \<noteq> NUL \<and> content_size e < 10240 - 1)"
    by fastforce
  then show ?thesis
  proof cases
    case left
    with redraw [OF cursor_moves(1) [OF ok]] cursor_moves(1-3) [OF ok] plain show ?thesis
      by (auto simp: Editor_OnKeyDown_def edit_step_def Let_def)
  next
    case right
    with redraw [OF cursor_moves(4) [OF ok]] cursor_moves(4-6) [OF ok] plain len show ?thesis
      by (auto simp: Editor_OnKeyDown_def edit_step_def Let_def)
  next
    case del
    from ed_delete_spec [OF ok del(2)] obtain e1 where e1: "ed_delete e = Some e1" "ed_ok e1"
      "cursor_idx e1 = cursor_idx e - 1"
      "ed_text e1 = take (nat (cursor_idx e) - 1) (ed_text e) @ drop (nat (cursor_idx e)) (ed_text e)" by blast
    with redraw [OF e1(2)] del plain show ?thesis
      by (auto simp: Editor_OnKeyDown_def edit_step_def Let_def)
  next
    case ins
    from ed_insert_spec [OF ok ins(3,2)] obtain e1 where e1: "ed_insert ascii e = Some e1" "ed_ok e1"
      "cursor_idx e1 = cursor_idx e + 1"
      "ed_text e1 = take (nat (cursor_idx e)) (ed_text e) @ [ascii] @ drop (nat (cursor_idx e)) (ed_text e)" by blast
    have "length (ed_text e) < 10239" using len ins(3) by simp
    with redraw [OF e1(2)] e1 ins plain show ?thesis
      by (auto simp: Editor_OnKeyDown_def edit_step_def Let_def)
  next
    case none
    have "\<not> (ascii \<noteq> NUL \<and> length (ed_text e) < 10239)" if "scancode \<noteq> 0x0E" using none(3) that len by auto
    with none plain ok t show ?thesis
      by (auto simp: Editor_OnKeyDown_def edit_step_def Let_def)
  qed
qed

definition demo_editor :: editor where
  "demo_editor = \<lparr>filename = ''n'', content = Some (''ac'' @ replicate 10238 NUL), content_size = 2, cursor_idx = 1\<rparr>"

lemma demo_editor_ok: "ed_ok demo_editor" "ed_text demo_editor = ''ac''" "cursor_idx demo_editor = 1"
  by (simp_all add: ed_ok_def ed_text_def demo_editor_def c_string_def)

theorem Editor_keys_edit_text_witness:
  "\<exists>t' e'. Editor_OnKeyDown 2 False 0x30 CHR ''b'' (blank_terminal, empty_vfs, demo_editor) = Some (t', empty_vfs, e')
    \<and> ed_text e' = ''abc'' \<and> cursor_idx e' = 2"
  using Editor_keys_edit_text [OF demo_editor_ok(1) blank_terminal_ok, where ctrl = False and scancode = "0x30"
      and n = 2 and ascii = "CHR ''b''" and s = empty_vfs]
  by (auto simp: edit_step_def demo_editor_ok)

text \<open>C36: saving and opening again gives the text back: on an unmounted volume with heap to spare and no
  directory of that name, control-S stores the text under the editor's file name, and \<open>Start\<close> on
  that name then edits the same text with the cursor at its beginning.\<close>

theorem Editor_save_reopen:
  assumes ok: "ed_ok e" and name: "c_string (filename e)"
    and s: "vfs_ok s" "e_block_size s = 0" "\<forall>f \<in> set (e_vfs s). vf_is_dir f \<longrightarrow> vf_name f \<noteq> filename e"
    and room: "heap_room (e_heap s) (72 * length (e_vfs s) + 10332 + length (ed_text e))"
  shows "\<exists>t1 s1 t2 s2 e2. Editor_OnKeyDown 2 True 0x1F ascii (t, s, e) = Some (t1, s1, e)
    \<and> Editor_Start (filename e) (t1, s1, e) = Some (t2, s2, e2)
    \<and> ed_text e2 = ed_text e \<and> cursor_idx e2 = 0 \<and> ed_ok e2 \<and> mode t2 = EDITOR"
proof -
  from ok obtain m k n where e: "content e = Some m" "cursor_idx e = int k" "content_size e = int n" "k \<le> n" "n < 10240"
    "length m = 10240" "m ! n = NUL" "c_string (take n m)" "ed_text e = take n m" "length (filename e) < 64" by (rule ed_okE)
  have sz: "0 \<le> int n" "int n \<le> int (length m)" using e by simp_all
  have target: "vfs_abs s (filename e) \<noteq> None \<or> e_block_size s = 0 \<and> filename e \<notin> vf_name ` set (e_vfs s)"
    using s(2,3) by (auto simp: vfs_abs_def is_file_def) blast
  have "heap_room (e_heap s) (72 * length (e_vfs s) + 89 + nat (int n) + 10243)"
    using room e by (simp add: ac_simps)
  from WriteFile_spec [OF s(1) name e(10) sz target this] obtain s1 where
    w: "\<forall>j. Ext4_WriteFile (Suc (Suc j)) (filename e) m (int n) s = Some s1" and
    s1: "vfs_ok s1" "vfs_abs s1 = (vfs_abs s)(filename e \<mapsto> take n m)" "heap_room (e_heap s1) 10243" by auto
  from w have w2: "Ext4_WriteFile 2 (filename e) m (int n) s = Some s1" by (metis numeral_2_eq_2)
  from ed_redraw_ok [OF ok] obtain t1 where t1: "ed_redraw e s1 t = Some (t1, s1, e)" by blast
  then have save: "Editor_OnKeyDown 2 True 0x1F ascii (t, s, e) = Some (t1, s1, e)"
    using e w2 by (simp add: Editor_OnKeyDown_def)
  have "heap_room (e_heap s1) (unat (10240 :: u32) + 3 + 0)" using s1(3) by simp
  from ext4_alloc_room [OF this] obtain h where h: "ext4_alloc 10240 s1 = Some (s1\<lparr>e_heap := h\<rparr>)" "heap_room h 0" by blast
  let ?s = "s1\<lparr>e_heap := h\<rparr>"
  let ?m = "take n m @ replicate (10240 - n) NUL"
  have "vfs_abs ?s = vfs_abs s1" by (simp add: vfs_abs_def fun_eq_iff)
  with s1 h(2) have "vfs_ok ?s" "vfs_abs ?s (filename e) = Some (take n m)"
    by (simp_all add: vfs_ok_def heap_room_def)
  from ReadFile_spec [OF this, of "replicate 10240 NUL"] e
  have "Ext4_ReadFile (filename e) (replicate 10240 NUL) ?s = Some (take n m @ NUL # replicate (10240 - Suc n) NUL, ?s)"
    by (simp only: length_replicate length_take min_def drop_replicate) simp
  moreover have "take n m @ NUL # replicate (10240 - Suc n) NUL = ?m"
    using e(5) by (metis Suc_diff_Suc replicate_Suc)
  ultimately have read: "Ext4_ReadFile (filename e) (replicate 10240 NUL) ?s = Some (?m, ?s)" by simp
  have len: "utils_strlen ?m = Some n"
    using e by (simp add: utils_strlen_spec cstr_c_string terminated_def)
  define e2 where "e2 = \<lparr>filename = filename e, content = Some ?m, content_size = int n, cursor_idx = 0\<rparr>"
  have ok2: "ed_ok e2" "ed_text e2 = take n m"
    using ed_okI [of e2 ?m 0 n] e by (simp_all add: e2_def nth_append)
  obtain t2 where t2: "Editor_Render e2 (t1\<lparr>mode := EDITOR, active_editor := True\<rparr>) = Some t2"
    "same_input (t1\<lparr>mode := EDITOR, active_editor := True\<rparr>) t2"
    using Render_ok [of e2 ?m "t1\<lparr>mode := EDITOR, active_editor := True\<rparr>"] e by (auto simp: e2_def)
  have "Editor_Start (filename e) (t1, s1, e) = Some (t2, ?s, e2)"
    using h(1) read len t2(1) e(10) by (simp add: Editor_Start_def e2_def)
  moreover have "mode t2 = EDITOR" using t2(2) by (simp add: same_input_def)
  ultimately show ?thesis using save ok2 e(9) by (auto simp: e2_def)
qed

theorem Editor_save_reopen_witness:
  "\<exists>t1 s1 t2 s2 e2. Editor_OnKeyDown 2 True 0x1F NUL (blank_terminal, empty_vfs, demo_editor) = Some (t1, s1, demo_editor)
    \<and> Editor_Start ''n'' (t1, s1, demo_editor) = Some (t2, s2, e2) \<and> ed_text e2 = ''ac''"
proof -
  have "heap_room boot_heap (72 * length ([] :: vfile list) + 10332 + length ''ac'')" by (rule boot_heap_room) simp
  moreover have "filename demo_editor = ''n''" by (simp add: demo_editor_def)
  ultimately show ?thesis
    using Editor_save_reopen [OF demo_editor_ok(1) _ empty_vfs_ok(1,4), of NUL blank_terminal]
    by (force simp: empty_vfs_ok demo_editor_ok c_string_def)
qed

end
