(* ===== verification/Shell.thy ===== *)
theory Shell
  imports ShellTables Tokenizer EditorModel
begin

text \<open>
  The shell of src/core/shell/shell.cpp: its state (working directory, environment, registry,
  editor, the terminal it prints on, the file system, the clock ports), the prompt, completion,
  every command handler and \<open>Execute\<close>. Handlers take the argument vector of the tokenizer. The
  first argument of the operations that write files bounds the calls of \<open>WriteFile\<close>.
\<close>

section \<open>State\<close>

record shell =
  sh_tm :: terminal
  sh_fs :: ext4
  sh_ed :: editor
  sh_io :: io
  cwd :: string
  envs :: environment
  cmds :: registry
  build_date :: string
  build_time :: string

definition Sh_Print :: "string \<Rightarrow> shell \<Rightarrow> shell option" where
  "Sh_Print t s = map_option (\<lambda>w. s\<lparr>sh_tm := w\<rparr>) (TW_Print t (sh_tm s))"

fun Sh_Prints :: "string list \<Rightarrow> shell \<Rightarrow> shell option" where
  "Sh_Prints [] s = Some s"
| "Sh_Prints (t # ts) s = Sh_Print t s \<bind> Sh_Prints ts"

definition Sh_SetEnv :: "string \<Rightarrow> string \<Rightarrow> shell \<Rightarrow> shell option" where
  "Sh_SetEnv k v s = map_option (\<lambda>e. s\<lparr>envs := e\<rparr>) (SetEnv k v (envs s))"

text \<open>At most 255 characters are kept; the variable \<open>PWD\<close> follows.\<close>

definition SetCWD :: "string \<Rightarrow> shell \<Rightarrow> shell option" where
  "SetCWD path s = (let c = take 255 path in Sh_SetEnv ''PWD'' c (s\<lparr>cwd := c\<rparr>))"

definition default_ps1 :: string where
  "default_ps1 = [ESC] @ ''[32muser@antigravity'' @ [ESC] @ ''[0m:'' @ [ESC] @ ''[34m{cwd}'' @ [ESC] @ ''[0m$ ''"

text \<open>The constructor and \<open>Init\<close>, over the window's terminal.\<close>

definition new_shell :: "terminal \<Rightarrow> ext4 \<Rightarrow> io \<Rightarrow> string \<Rightarrow> string \<Rightarrow> shell option" where
  "new_shell tm fs io date time = do {
     s \<leftarrow> Sh_SetEnv ''PS1'' default_ps1 \<lparr>sh_tm = tm, sh_fs = fs, sh_ed = new_editor, sh_io = io, cwd = ''/'',
       envs = [], cmds = [], build_date = date, build_time = time\<rparr>;
     c \<leftarrow> register_all init_commands (cmds s);
     Some (s\<lparr>cmds := c\<rparr>)
   }"

section \<open>Prompt and completion\<close>

text \<open>\<open>for (i = 0; ps1[i] && j < 127; i++)\<close>; the text built so far is \<open>acc\<close>.\<close>

fun expand_prompt :: "nat \<Rightarrow> string \<Rightarrow> string \<Rightarrow> string \<Rightarrow> string" where
  "expand_prompt 0 dir ps1 acc = acc"
| "expand_prompt (Suc n) dir ps1 acc =
     (if ps1 = [] \<or> 127 \<le> length acc then acc
      else if take 5 ps1 = ''{cwd}'' then expand_prompt n dir (drop 5 ps1) (acc @ take (127 - length acc) dir)
      else expand_prompt n dir (drop 1 ps1) (acc @ [hd ps1]))"

definition Shell_Prompt :: "shell \<Rightarrow> shell option" where
  "Shell_Prompt s = do {
     r \<leftarrow> GetEnv ''PS1'' (envs s);
     let ps1 = (case r of Some p \<Rightarrow> p | None \<Rightarrow> ''$ '');
     Sh_Print (expand_prompt (length ps1) (cwd s) ps1 []) s
   }"

text \<open>\<open>strncmp(name, partial, p_len) == 0\<close> is the prefix test (\<open>utils_strncmp_prefix\<close>).\<close>

definition has_prefix :: "string \<Rightarrow> string \<Rightarrow> bool" where
  "has_prefix partial name \<longleftrightarrow> take (length partial) name = partial"

definition GetAutocompleteSuggestion :: "string \<Rightarrow> shell \<Rightarrow> (string option \<times> shell) option" where
  "GetAutocompleteSuggestion partial s =
     (if partial = [] then Some (None, s)
      else case find_index (\<lambda>e. has_prefix partial (fst e)) (cmds s) of
        Some i \<Rightarrow> Some (Some (fst (cmds s ! i)), s)
      | None \<Rightarrow> do {
          (files, f) \<leftarrow> GetFileList (sh_fs s);
          let s1 = s\<lparr>sh_fs := f\<rparr>;
          case find_index (\<lambda>e. has_prefix partial (fl_name e)) files of
            Some i \<Rightarrow> if length (fl_name (files ! i)) < 64 then Some (Some (fl_name (files ! i)), s1) else None
          | None \<Rightarrow> Some (None, s1)
        })"

section \<open>Commands\<close>

text \<open>The path \<open>CmdLs\<close> resolves into 256 bytes (\<open>Ls\<close> then ignores it).\<close>

definition resolve_path :: "string \<Rightarrow> string option \<Rightarrow> char list option" where
  "resolve_path dir arg =
     (let path = replicate 256 NUL in
      case arg of
        None \<Rightarrow> utils_strncpy path (dir @ [NUL]) 255
      | Some a \<Rightarrow>
          if take 1 a = ''/'' then utils_strncpy path (a @ [NUL]) 255
          else do {
            let dir_len = length dir;
            path \<leftarrow> utils_strncpy path (dir @ [NUL]) 255;
            last \<leftarrow> (if 0 < dir_len then arr_get path (int dir_len - 1) else Some NUL);
            (path, dir_len) \<leftarrow> (if 0 < dir_len \<and> last \<noteq> CHR ''/'' \<and> dir_len < 254
              then map_option (\<lambda>p. (p, dir_len + 1)) (utils_strcat path (''/'' @ [NUL]))
              else Some (path, dir_len));
            if dir_len + length a < 256 then utils_strcat path (a @ [NUL]) else Some path
          })"

definition ls_options :: "string list \<Rightarrow> string option \<times> bool" where
  "ls_options args = fold (\<lambda>a (path, details). if a = ''-l'' then (path, True) else (Some a, details)) args (None, False)"

definition cmd_ls :: "string list \<Rightarrow> shell \<Rightarrow> shell option" where
  "cmd_ls argv s = do {
     let (arg_path, details) = ls_options (drop 1 argv);
     path \<leftarrow> resolve_path (cwd s) arg_path;
     (buf, f) \<leftarrow> ext4_Ls (replicate 1024 NUL) 1024 details (sh_fs s);
     Sh_Print (cstr buf) (s\<lparr>sh_fs := f\<rparr>)
   }"

text \<open>\<open>cd ..\<close>: the parent of the working directory, in a copy of it.\<close>

definition parent_path :: "string \<Rightarrow> string option" where
  "parent_path dir =
     (if length dir \<le> 1 then None
      else let temp = (if last dir = CHR ''/'' then butlast dir else dir)
           in map_option (\<lambda>i. if i = 0 then take 1 temp else take i temp)
                (last_index_below CHR ''/'' temp (length temp)))"

definition cmd_cd :: "string list \<Rightarrow> shell \<Rightarrow> shell option" where
  "cmd_cd argv s =
     (if length argv < 2 then SetCWD ''/'' s
      else let path = argv ! 1 in
        if \<not> DirExists (Some path) (sh_fs s)
        then Sh_Prints [''cd: '', path, '': Directory not found'' @ [NL]] s
        else if path = ''.'' then Some s
        else if path = ''/'' then SetCWD ''/'' s
        else if path = ''..'' then (case parent_path (cwd s) of None \<Rightarrow> Some s | Some p \<Rightarrow> SetCWD p s)
        else if take 1 path \<noteq> ''/'' then
          (if cwd s = [] then None
           else let temp = (if last (cwd s) \<noteq> CHR ''/'' then cwd s @ ''/'' else cwd s)
                in if length temp < 256 \<and> length temp + length path < 256 then SetCWD (temp @ path) s else None)
        else SetCWD path s)"

definition usage :: "string \<Rightarrow> shell \<Rightarrow> shell option" where
  "usage u s = Sh_Print (''Usage: '' @ u @ [NL]) s"

definition cmd_cat :: "string list \<Rightarrow> shell \<Rightarrow> shell option" where
  "cmd_cat argv s =
     (if length argv < 2 then usage ''cat <file>'' s
      else do {
        (buf, f) \<leftarrow> Ext4_ReadFile (argv ! 1) (replicate 1024 NUL) (sh_fs s);
        Sh_Prints [cstr buf, [NL]] (s\<lparr>sh_fs := f\<rparr>)
      })"

definition on_fs :: "(ext4 \<Rightarrow> ext4 option) \<Rightarrow> shell \<Rightarrow> shell option" where
  "on_fs f s = map_option (\<lambda>x. s\<lparr>sh_fs := x\<rparr>) (f (sh_fs s))"

definition cmd_mkdir :: "string list \<Rightarrow> shell \<Rightarrow> shell option" where
  "cmd_mkdir argv s = (if length argv < 2 then usage ''mkdir <dir>'' s else on_fs (MkDir (argv ! 1)) s)"

definition cmd_rm :: "string list \<Rightarrow> shell \<Rightarrow> shell option" where
  "cmd_rm argv s = (if length argv < 2 then usage ''rm <file>'' s else on_fs (\<lambda>f. Some (Rm (argv ! 1) f)) s)"

definition cmd_touch :: "string list \<Rightarrow> shell \<Rightarrow> shell option" where
  "cmd_touch argv s = (if length argv < 2 then usage ''touch <file>'' s else on_fs (Touch (argv ! 1)) s)"

definition cmd_pwd :: "shell \<Rightarrow> shell option" where
  "cmd_pwd s = Sh_Prints [cwd s, [NL]] s"

text \<open>\<open>'0' + (n / 10)\<close>, \<open>'0' + (n % 10)\<close>, as characters.\<close>

definition two_digits :: "u8 \<Rightarrow> string" where
  "two_digits n = [char_of (48 + unat n div 10), char_of (48 + unat n mod 10)]"

definition cmd_date :: "shell \<Rightarrow> shell option" where
  "cmd_date s = do {
     (h, io1) \<leftarrow> RTC_GetHour (sh_io s);
     (m, io2) \<leftarrow> RTC_GetMinute io1;
     (sec, io3) \<leftarrow> RTC_GetSecond io2;
     Sh_Prints [''Current Time (RTC): '', two_digits h @ '':'' @ two_digits m @ '':'' @ two_digits sec @ [NL]]
       (s\<lparr>sh_io := io3\<rparr>)
   }"

definition cmd_free :: "shell \<Rightarrow> shell option" where
  "cmd_free = Sh_Prints [''Heap Status:'' @ [NL], ''  Total: 10MB'' @ [NL], ''  Used:  (Tracking pending)'' @ [NL]]"

definition cmd_uname :: "shell \<Rightarrow> shell option" where
  "cmd_uname s = Sh_Prints [''Antigravity OS v1.1 - Custom x86 Kernel'' @ [NL], ''Build: '', build_date s, '' '', build_time s, [NL]] s"

definition cmd_uptime :: "shell \<Rightarrow> shell option" where
  "cmd_uptime = Sh_Print (''Uptime: (PIT Tick stats pending)'' @ [NL])"

definition cmd_clear :: "shell \<Rightarrow> shell option" where
  "cmd_clear s = Some (s\<lparr>sh_tm := Clear (sh_tm s)\<rparr>)"

fun print_history :: "nat \<Rightarrow> nat \<Rightarrow> shell \<Rightarrow> shell option" where
  "print_history 0 i s = Some s"
| "print_history (Suc n) i s = do {
     line \<leftarrow> arr_get (history (sh_tm s)) (int i);
     if terminated line then do {
       s1 \<leftarrow> Sh_Prints [[char_of (48 + i)] @ '': '', cstr line, [NL]] s;
       print_history n (i + 1) s1
     } else None
   }"

definition cmd_history :: "shell \<Rightarrow> shell option" where
  "cmd_history s = print_history (nat (history_count (sh_tm s))) 0 s"

fun echo_args :: "string list \<Rightarrow> shell \<Rightarrow> shell option" where
  "echo_args [] s = Some s"
| "echo_args [a] s = Sh_Print a s"
| "echo_args (a # b # as) s = Sh_Prints [a, '' ''] s \<bind> echo_args (b # as)"

definition cmd_echo :: "string list \<Rightarrow> shell \<Rightarrow> shell option" where
  "cmd_echo argv s = echo_args (drop 1 argv) s \<bind> Sh_Print [NL]"

definition cmd_help :: "shell \<Rightarrow> shell option" where
  "cmd_help = Sh_Prints
     [''Available commands:'' @ [NL], ''  Filesystem: ls, cd, cat, cp, mv, mkdir, rm, touch, pwd'' @ [NL],
      ''  Editor:     edit, nano'' @ [NL], ''  System:     date, free, uname, uptime, export'' @ [NL],
      ''  Terminal:   clear, history, echo, help'' @ [NL]]"

definition cmd_cp :: "nat \<Rightarrow> string list \<Rightarrow> shell \<Rightarrow> shell option" where
  "cmd_cp n argv s =
     (if length argv < 3 then usage ''cp <src> <dest>'' s
      else on_fs (\<lambda>f. do {
        f1 \<leftarrow> ext4_alloc 20480 f;
        (buf, f2) \<leftarrow> Ext4_ReadFile (argv ! 1) (replicate 20480 NUL) f1;
        len \<leftarrow> utils_strlen buf;
        Ext4_WriteFile n (argv ! 2) buf (int len) f2
      }) s)"

definition cmd_mv :: "nat \<Rightarrow> string list \<Rightarrow> shell \<Rightarrow> shell option" where
  "cmd_mv n argv s =
     (if length argv < 3 then usage ''mv <src> <dest>'' s
      else cmd_cp n argv s \<bind> on_fs (\<lambda>f. Some (Rm (argv ! 1) f)))"

definition cmd_edit :: "string list \<Rightarrow> shell \<Rightarrow> shell option" where
  "cmd_edit argv s =
     (if length argv < 2 then usage ''edit <file>'' s
      else map_option (\<lambda>(t, f, e). s\<lparr>sh_tm := t, sh_fs := f, sh_ed := e\<rparr>)
        (Editor_Start (argv ! 1) (sh_tm s, sh_fs s, sh_ed s)))"

fun print_envs :: "environment \<Rightarrow> shell \<Rightarrow> shell option" where
  "print_envs [] s = Some s"
| "print_envs ((k, v) # es) s = Sh_Prints [k, ''='', v, [NL]] s \<bind> print_envs es"

text \<open>The scan of \<open>KEY=VALUE\<close>: 31 characters of key and 63 of value are kept.\<close>

fun split_assignment :: "string \<Rightarrow> bool \<Rightarrow> string \<Rightarrow> string \<Rightarrow> string \<times> string" where
  "split_assignment [] in_val k v = (k, v)"
| "split_assignment (c # cs) in_val k v =
     (if \<not> in_val then
        (if c = CHR ''='' then split_assignment cs True k v
         else split_assignment cs False (if length k < 31 then k @ [c] else k) v)
      else split_assignment cs True k (if length v < 63 then v @ [c] else v))"

definition cmd_export :: "string list \<Rightarrow> shell \<Rightarrow> shell option" where
  "cmd_export argv s =
     (if length argv < 2 then print_envs (envs s) s
      else let (k, v) = split_assignment (argv ! 1) False [] []
           in if 0 < length k then Sh_SetEnv k v s else Some s)"

section \<open>Dispatch\<close>

fun run_command :: "nat \<Rightarrow> command \<Rightarrow> string list \<Rightarrow> shell \<Rightarrow> shell option" where
  "run_command n CmdLs argv s = cmd_ls argv s"
| "run_command n CmdCd argv s = cmd_cd argv s"
| "run_command n CmdCat argv s = cmd_cat argv s"
| "run_command n CmdMkdir argv s = cmd_mkdir argv s"
| "run_command n CmdRm argv s = cmd_rm argv s"
| "run_command n CmdTouch argv s = cmd_touch argv s"
| "run_command n CmdPwd argv s = cmd_pwd s"
| "run_command n CmdDate argv s = cmd_date s"
| "run_command n CmdFree argv s = cmd_free s"
| "run_command n CmdUname argv s = cmd_uname s"
| "run_command n CmdUptime argv s = cmd_uptime s"
| "run_command n CmdClear argv s = cmd_clear s"
| "run_command n CmdHistory argv s = cmd_history s"
| "run_command n CmdEcho argv s = cmd_echo argv s"
| "run_command n CmdHelp argv s = cmd_help s"
| "run_command n CmdCp argv s = cmd_cp n argv s"
| "run_command n CmdMv argv s = cmd_mv n argv s"
| "run_command n CmdEdit argv s = cmd_edit argv s"
| "run_command n CmdNano argv s = cmd_edit argv s"
| "run_command n CmdExport argv s = cmd_export argv s"

definition Shell_Execute :: "nat \<Rightarrow> string \<Rightarrow> shell \<Rightarrow> shell option" where
  "Shell_Execute n line s =
     (if line = [] then Some s
      else do {
        f \<leftarrow> ext4_alloc (of_nat (length line) + 1) (sh_fs s);
        let s1 = s\<lparr>sh_fs := f\<rparr>;
        let argv = tokenize line;
        if 0 < length argv then do {
          r \<leftarrow> Registry_Get (argv ! 0) (cmds s1);
          (case r of
             Some h \<Rightarrow> run_command n h argv s1
           | None \<Rightarrow> Sh_Prints [''Unknown command: '', argv ! 0, [NL]] s1)
        } else Some s1
      })"

section \<open>What the commands do\<close>

lemma TW_Print_append: "TW_Print (a @ b) t = TW_Print a t \<bind> TW_Print b"
proof (induction a arbitrary: t)
  case (Cons c a)
  then show ?case by (cases "TW_PutChar c t") simp_all
qed simp

lemma Sh_Print_append: "Sh_Print (a @ b) s = Sh_Print a s \<bind> Sh_Print b"
  by (cases "TW_Print a (sh_tm s)") (simp_all add: Sh_Print_def TW_Print_append option.map_comp o_def)

lemma Sh_Print_Nil [simp]: "Sh_Print [] s = Some s"
  by (simp add: Sh_Print_def)

lemma Sh_Prints_concat: "Sh_Prints ts s = Sh_Print (concat ts) s"
proof (induction ts arbitrary: s)
  case (Cons t ts)
  then show ?case by (cases "Sh_Print t s") (simp_all add: Sh_Print_append)
qed simp

text \<open>A well-formed shell: its parts are.\<close>

definition shell_ok :: "shell \<Rightarrow> bool" where
  "shell_ok s \<longleftrightarrow> term_ok (sh_tm s) \<and> env_ok (envs s) \<and> registry_ok (cmds s)
     \<and> c_string (cwd s) \<and> 0 < length (cwd s) \<and> length (cwd s) < 256 \<and> heap_ok (e_heap (sh_fs s))"

text \<open>Room for \<open>PWD\<close>: it is set already or the table has a free entry.\<close>

definition pwd_room :: "shell \<Rightarrow> bool" where
  "pwd_room s \<longleftrightarrow> ''PWD'' \<in> fst ` set (envs s) \<or> length (envs s) < 16"

lemma SetCWD_spec:
  assumes ok: "shell_ok s" and p: "c_string p" "p \<noteq> []" and room: "pwd_room s"
  shows "if length p < 64
     then \<exists>s'. SetCWD p s = Some s' \<and> shell_ok s' \<and> cwd s' = p \<and> GetEnv ''PWD'' (envs s') = Some (Some p)
        \<and> pwd_room s' \<and> sh_tm s' = sh_tm s \<and> sh_fs s' = sh_fs s
     else SetCWD p s = None"
proof (cases "length p < 64")
  case True
  have k: "c_string ''PWD''" "length ''PWD'' < 32" by (simp_all add: c_string_def)
  have fits: "env_fits (envs s) ''PWD'' p"
    using True p room k by (simp add: env_fits_def pwd_room_def)
  have e: "env_ok (envs s)" using ok by (simp add: shell_ok_def)
  from environment.put_safe [OF e fits] obtain e' where e': "SetEnv ''PWD'' p (envs s) = Some e'" "env_ok e'" by blast
  with environment.get_after_put [OF e fits e'(1) k(1)] have g: "GetEnv ''PWD'' e' = Some (Some p)" by simp
  then have "map_of e' ''PWD'' = Some p"
    using environment.get_spec [OF e'(2) k(1)] by simp
  then have "''PWD'' \<in> fst ` set e'" by (force dest: map_of_SomeD)
  then show ?thesis using True ok p e' g
    by (auto simp: SetCWD_def Sh_SetEnv_def shell_ok_def pwd_room_def)
next
  case False
  then have "64 \<le> length (take 255 p)" by simp
  with SetEnv_overflow [of "envs s" "''PWD''" "take 255 p"] ok room False show ?thesis
    by (simp add: SetCWD_def Sh_SetEnv_def Let_def shell_ok_def pwd_room_def c_string_def)
qed

text \<open>The directory \<open>cd path\<close> means.\<close>

definition cd_target :: "string \<Rightarrow> string \<Rightarrow> string" where
  "cd_target dir path =
     (if path = ''/'' then ''/''
      else if take 1 path = ''/'' then path
      else if last dir = CHR ''/'' then dir @ path else dir @ ''/'' @ path)"

text \<open>C0: \<open>cd\<close> to a path other than \<open>.\<close> and \<open>..\<close> joins it to the working directory (or replaces it, when
  it starts with a slash) and sets \<open>PWD\<close> to the same text, as long as the result stays below 64
  characters. A longer one, which the 256 bytes of the directory itself allow, overruns the value
  field of the environment.\<close>

theorem cd_joins_path:
  assumes ok: "shell_ok s" and room: "pwd_room s" and p: "c_string path" "path \<notin> {''.'', ''..''}"
  shows "if length (cd_target (cwd s) path) < 64
     then \<exists>s'. cmd_cd [c, path] s = Some s' \<and> shell_ok s' \<and> cwd s' = cd_target (cwd s) path
        \<and> GetEnv ''PWD'' (envs s') = Some (Some (cd_target (cwd s) path))
     else cmd_cd [c, path] s = None"
proof -
  let ?t = "cd_target (cwd s) path"
  have cw: "c_string (cwd s)" "cwd s \<noteq> []" "length (cwd s) < 256" using ok by (auto simp: shell_ok_def)
  have dir: "DirExists (Some path) (sh_fs s)" using MkDir_DirExists by simp
  have t: "c_string ?t" "?t \<noteq> []"
    using cw p by (auto simp: cd_target_def c_string_def)
  note set = SetCWD_spec [OF ok t room]
  show ?thesis
  proof (cases "take 1 path = ''/''")
    case True
    then have "cmd_cd [c, path] s = SetCWD ?t s"
      using p dir by (auto simp: cmd_cd_def cd_target_def)
    with set show ?thesis by (auto split: if_splits)
  next
    case False
    define temp where "temp = (if last (cwd s) \<noteq> CHR ''/'' then cwd s @ ''/'' else cwd s)"
    have tt: "?t = temp @ path" using False by (auto simp: cd_target_def temp_def)
    have "cmd_cd [c, path] s = (if length temp < 256 \<and> length temp + length path < 256 then SetCWD ?t s else None)"
      using False p dir cw(2) unfolding tt by (auto simp: cmd_cd_def temp_def Let_def)
    with set tt show ?thesis by (auto split: if_splits)
  qed
qed

lemma shell_demo_facts:
  assumes "SetEnv ''PWD'' ''/'' [] = Some e"
  shows "env_ok e"
proof -
  have fits: "env_ok []" "env_fits [] ''PWD'' ''/''" by (simp_all add: env_ok_def env_fits_def c_string_def)
  from environment.put_inv [OF fits assms] show ?thesis .
qed

definition demo_shell :: shell where
  "demo_shell = \<lparr>sh_tm = blank_terminal, sh_fs = empty_vfs, sh_ed = new_editor, sh_io = \<lparr>answers = [], events = []\<rparr>,
     cwd = ''/'', envs = [], cmds = init_commands, build_date = ''Jan  1 2025'', build_time = ''00:00:00''\<rparr>"

lemma demo_shell_ok: "shell_ok demo_shell" "pwd_room demo_shell" "cwd demo_shell = ''/''"
  using blank_terminal_ok init_registry(2) empty_vfs_ok
  by (simp_all add: shell_ok_def pwd_room_def demo_shell_def env_ok_def c_string_def vfs_ok_def)

theorem cd_joins_path_witness:
  "(\<exists>s'. cmd_cd [''cd'', ''docs''] demo_shell = Some s' \<and> cwd s' = ''/docs'')
   \<and> cmd_cd [''cd'', replicate 63 CHR ''d''] demo_shell = None"
proof -
  have p: "c_string ''docs''" "''docs'' \<notin> {''.'', ''..''}" "c_string (replicate 63 CHR ''d'')"
    "replicate 63 CHR ''d'' \<notin> {''.'', ''..''}"
    by (auto simp: c_string_def dest: arg_cong [of _ _ length])
  have "cd_target ''/'' (replicate 63 CHR ''d'') = CHR ''/'' # replicate 63 CHR ''d''"
    by (auto simp: cd_target_def dest: arg_cong [of _ _ length])
  then show ?thesis
    using cd_joins_path [OF demo_shell_ok(1,2) p(1,2), of "''cd''"] cd_joins_path [OF demo_shell_ok(1,2) p(3,4), of "''cd''"]
    by (auto simp: demo_shell_ok cd_target_def)
qed

text \<open>\<open>cd ..\<close> drops the last component.\<close>

lemma parent_path_spec:
  assumes "CHR ''/'' \<notin> set d" and "d \<noteq> []" and "p = [] \<or> last p \<noteq> CHR ''/''"
  shows "parent_path (p @ ''/'' @ d) = Some (if p = [] then ''/'' else p)"
proof -
  let ?x = "p @ ''/'' @ d"
  have last: "last ?x \<noteq> CHR ''/''" using assms(1,2) by (auto dest: last_in_set)
  have idx: "last_index_below CHR ''/'' ?x (length ?x) = Some (length p)"
  proof (cases "last_index_below CHR ''/'' ?x (length ?x)")
    case None
    then have "\<forall>j < length ?x. ?x ! j \<noteq> CHR ''/''" by (simp only: last_index_below_None)
    then have "length p < length ?x \<Longrightarrow> ?x ! length p \<noteq> CHR ''/''" by blast
    then show ?thesis by simp
  next
    case (Some i)
    note I = last_index_below_Some [OF Some]
    have "\<not> length p < i"
    proof
      assume lt: "length p < i"
      then have "?x ! i = d ! (i - length p - 1)" by (simp add: nth_append nth_Cons')
      moreover have "i < length p + length d + 1" using I by simp
      then have "i - length p - 1 < length d" using lt by linarith
      then have "d ! (i - length p - 1) \<in> set d" by (rule nth_mem)
      ultimately show False using I assms(1) by auto
    qed
    moreover have "\<not> i < length p"
    proof
      assume "i < length p"
      moreover have "length p < length ?x" by simp
      ultimately have "?x ! length p \<noteq> CHR ''/''" using I by blast
      then show False by simp
    qed
    ultimately show ?thesis using Some by (simp add: not_less)
  qed
  have "1 < length ?x" using assms(2) by (cases d) simp_all
  then show ?thesis using last idx by (simp add: parent_path_def Let_def)
qed

fun join_args :: "string list \<Rightarrow> string" where
  "join_args [] = []"
| "join_args [a] = a"
| "join_args (a # b # as) = a @ '' '' @ join_args (b # as)"

lemma echo_args_join: "echo_args as s = Sh_Print (join_args as) s"
proof (induction as s rule: echo_args.induct)
  case (3 a b as s)
  have p: "Sh_Prints [a, '' ''] s = Sh_Print (a @ '' '') s"
    by (simp only: Sh_Prints_concat concat.simps append_Nil2)
  have j: "join_args (a # b # as) = (a @ '' '') @ join_args (b # as)" by simp
  have q: "Sh_Print (join_args (a # b # as)) s = Sh_Print (a @ '' '') s \<bind> Sh_Print (join_args (b # as))"
    by (simp only: j Sh_Print_append [of "a @ '' ''"])
  show ?case
  proof (cases "Sh_Print (a @ '' '') s")
    case None
    then show ?thesis by (simp only: q p echo_args.simps bind.bind_lzero)
  next
    case (Some s1)
    with 3 p show ?thesis by (simp only: q p echo_args.simps bind.bind_lunit)
  qed
qed simp_all

text \<open>C0: \<open>echo\<close> prints its arguments separated by single blanks, and a newline.\<close>

theorem echo_prints_arguments:
  "cmd_echo argv s = Sh_Print (join_args (drop 1 argv) @ [NL]) s"
  by (simp add: cmd_echo_def echo_args_join Sh_Print_append)

text \<open>\<open>export KEY=VALUE\<close> cuts both parts to what their fields hold.\<close>

lemma split_assignment_value:
  "split_assignment cs True k v = (k, v @ take (63 - length v) cs)"
  by (induction cs arbitrary: v) (auto simp: take_Cons')

lemma split_assignment_key:
  "CHR ''='' \<notin> set a \<Longrightarrow> split_assignment (a @ b) False k v = split_assignment b False (k @ take (31 - length k) a) v"
  by (induction a arbitrary: k) (auto simp: take_Cons')

text \<open>C0: \<open>export KEY=VALUE\<close> sets the variable named by the first 31 characters of the key to the first 63
  characters of everything after the first equals sign, and never overruns a field.\<close>

theorem export_sets_variable:
  assumes ok: "env_ok (envs s)" and key: "c_string key" "CHR ''='' \<notin> set key" "key \<noteq> []" and val: "c_string val"
    and room: "take 31 key \<in> fst ` set (envs s) \<or> length (envs s) < 16"
  shows "\<exists>e'. cmd_export [c, key @ ''='' @ val] s = Some (s\<lparr>envs := e'\<rparr>) \<and> env_ok e'
    \<and> GetEnv (take 31 key) e' = Some (Some (take 63 val))"
proof -
  have split: "split_assignment (key @ ''='' @ val) False [] [] = (take 31 key, take 63 val)"
    using key(2) by (simp add: split_assignment_key split_assignment_value)
  have cs: "c_string (take 31 key)" "c_string (take 63 val)"
    using key(1) val by (auto simp: c_string_def dest: in_set_takeD)
  then have fits: "env_fits (envs s) (take 31 key) (take 63 val)" using room by (auto simp: env_fits_def min_def)
  from environment.put_safe [OF ok fits] obtain e' where e': "SetEnv (take 31 key) (take 63 val) (envs s) = Some e'" "env_ok e'" by blast
  moreover have "GetEnv (take 31 key) e' = Some (Some (take 63 val))"
    using environment.get_after_put [OF ok fits e'(1) cs(1)] by simp
  moreover have "0 < length (take 31 key)" using key(3) by (cases key) simp_all
  ultimately have "cmd_export [c, key @ ''='' @ val] s = Some (s\<lparr>envs := e'\<rparr>)"
    using split by (simp add: cmd_export_def Sh_SetEnv_def)
  then show ?thesis using e'(2) \<open>GetEnv (take 31 key) e' = _\<close> by blast
qed

theorem export_sets_variable_witness:
  "\<exists>e'. cmd_export [''export'', ''A=b=c''] demo_shell = Some (demo_shell\<lparr>envs := e'\<rparr>) \<and> GetEnv ''A'' e' = Some (Some ''b=c'')"
  using export_sets_variable [of demo_shell "''A''" "''b=c''" "''export''"]
  by (auto simp: demo_shell_def env_ok_def c_string_def)

section \<open>Copying and moving\<close>

text \<open>The state of a command that only touches the files.\<close>

lemma vfs_heap: "vfs_ok s \<Longrightarrow> heap_room h m \<Longrightarrow> vfs_ok (s\<lparr>e_heap := h\<rparr>)" "vfs_abs (s\<lparr>e_heap := h\<rparr>) = vfs_abs s"
  by (simp_all add: vfs_ok_def heap_room_def vfs_abs_def fun_eq_iff)

lemma cmd_cp_spec:
  assumes ok: "vfs_ok (sh_fs s)" "e_block_size (sh_fs s) = 0"
    and src: "vfs_abs (sh_fs s) a = Some v" "c_string v" "length v < 20480"
    and dst: "c_string b" "length b < 64" "\<forall>f \<in> set (e_vfs (sh_fs s)). vf_is_dir f \<longrightarrow> vf_name f \<noteq> b"
    and room: "heap_room (e_heap (sh_fs s)) (72 * length (e_vfs (sh_fs s)) + 41052)"
  shows "\<exists>f'. cmd_cp 2 [c, a, b] s = Some (s\<lparr>sh_fs := f'\<rparr>) \<and> vfs_ok f' \<and> vfs_abs f' = (vfs_abs (sh_fs s))(b \<mapsto> v)"
proof -
  let ?f = "sh_fs s"
  have "unat (20480 :: u32) + 3 + (72 * length (e_vfs ?f) + 20569) = 72 * length (e_vfs ?f) + 41052" by simp
  then have "heap_room (e_heap ?f) (unat (20480 :: u32) + 3 + (72 * length (e_vfs ?f) + 20569))" using room by (simp only: )
  from ext4_alloc_room [OF this] obtain h where h: "ext4_alloc 20480 ?f = Some (?f\<lparr>e_heap := h\<rparr>)"
    "heap_room h (72 * length (e_vfs ?f) + 20569)" by blast
  let ?g = "?f\<lparr>e_heap := h\<rparr>"
  have g: "vfs_ok ?g" "vfs_abs ?g = vfs_abs ?f" using vfs_heap(1) [OF ok(1) h(2)] vfs_heap(2) by auto
  define buf where "buf = v @ NUL # drop (Suc (length v)) (replicate 20480 NUL)"
  have "length v < length (replicate 20480 NUL)" using src(3) by (simp only: length_replicate)
  from ReadFile_spec [OF g(1) _ this] src(1) g(2) have read: "Ext4_ReadFile a (replicate 20480 NUL) ?g = Some (buf, ?g)"
    by (simp only: buf_def)
  have len: "utils_strlen buf = Some (length v)" "int (length v) \<le> int (length buf)" "take (length v) buf = v"
    using src(2) by (simp_all add: buf_def utils_strlen_spec cstr_append_stop cstr_c_string)
  have target: "vfs_abs ?g b \<noteq> None \<or> e_block_size ?g = 0 \<and> b \<notin> vf_name ` set (e_vfs ?g)"
    using dst(3) ok(2) by (auto simp: g(2) vfs_abs_def is_file_def)
  have "heap_room (e_heap ?g) (72 * length (e_vfs ?g) + 89 + nat (int (length v)) + 0)"
    using h(2) src(3) by (auto simp: heap_room_def)
  from WriteFile_spec [OF g(1) dst(1,2) _ len(2) target this] obtain f' where
    w: "\<forall>n. Ext4_WriteFile (Suc (Suc n)) b buf (int (length v)) ?g = Some f'" and
    f': "vfs_ok f'" "vfs_abs f' = (vfs_abs ?g)(b \<mapsto> take (nat (int (length v))) buf)" by auto
  from w have "Ext4_WriteFile 2 b buf (int (length v)) ?g = Some f'" by (metis numeral_2_eq_2)
  then have "cmd_cp 2 [c, a, b] s = Some (s\<lparr>sh_fs := f'\<rparr>)"
    using h(1) read len(1) by (simp add: cmd_cp_def on_fs_def)
  with f' g(2) len(3) show ?thesis by auto
qed

text \<open>C37: \<open>cp\<close> makes the destination a copy of the source and changes no other file: for a text file below
  20480 bytes in memory on an unmounted volume, with 41052 bytes of heap to spare and 72 more per file of the list, and a destination name below 64
  characters (a longer one overruns the entry's name) that is not a directory's. \<open>mv\<close> is a copy followed by the
  removal of the source, so moving a file onto itself deletes it.\<close>

theorem cp_copies_mv_self_deletes:
  assumes "vfs_ok (sh_fs s)" "e_block_size (sh_fs s) = 0"
    and "vfs_abs (sh_fs s) a = Some v" "c_string v" "length v < 20480"
    and "c_string b" "length b < 64" "\<forall>f \<in> set (e_vfs (sh_fs s)). vf_is_dir f \<longrightarrow> vf_name f \<noteq> b"
    and "heap_room (e_heap (sh_fs s)) (72 * length (e_vfs (sh_fs s)) + 41052)"
  shows "\<exists>f1 f2. cmd_cp 2 [c, a, b] s = Some (s\<lparr>sh_fs := f1\<rparr>) \<and> vfs_abs f1 = (vfs_abs (sh_fs s))(b \<mapsto> v)
    \<and> cmd_mv 2 [c, a, b] s = Some (s\<lparr>sh_fs := f2\<rparr>) \<and> vfs_ok f2
    \<and> vfs_abs f2 = ((vfs_abs (sh_fs s))(b \<mapsto> v))(a := None)"
proof -
  from cmd_cp_spec [OF assms, of c] obtain f1 where f1: "cmd_cp 2 [c, a, b] s = Some (s\<lparr>sh_fs := f1\<rparr>)"
    "vfs_ok f1" "vfs_abs f1 = (vfs_abs (sh_fs s))(b \<mapsto> v)" by blast
  then have "cmd_mv 2 [c, a, b] s = Some (s\<lparr>sh_fs := Rm a f1\<rparr>)" by (simp add: cmd_mv_def on_fs_def)
  with f1 Rm_spec [OF f1(2), of a] show ?thesis by auto
qed

text \<open>A volume with one file \<open>n\<close>.\<close>

definition one_file_shell :: shell where
  "one_file_shell = demo_shell\<lparr>sh_fs := empty_vfs\<lparr>e_vfs :=
     [\<lparr>vf_name = ''n'', vf_data = Some ''hi'', vf_size = 2, vf_is_dir = False\<rparr>]\<rparr>\<rparr>"

theorem cp_copies_mv_self_deletes_witness:
  "\<exists>f2. cmd_mv 2 [''mv'', ''n'', ''n''] one_file_shell = Some (one_file_shell\<lparr>sh_fs := f2\<rparr>) \<and> vfs_abs f2 ''n'' = None"
proof -
  let ?f = "sh_fs one_file_shell"
  have f: "vfs_ok ?f" "e_block_size ?f = 0" "vfs_abs ?f ''n'' = Some ''hi''" "length (e_vfs ?f) = 1"
    "\<forall>f \<in> set (e_vfs ?f). vf_is_dir f \<longrightarrow> vf_name f \<noteq> ''n''" "e_heap ?f = boot_heap"
    using empty_vfs_ok by (simp_all add: one_file_shell_def vfs_ok_def vfs_abs_def is_file_def vf_bytes_def c_string_def)
  have "heap_room (e_heap ?f) (72 * length (e_vfs ?f) + 41052)" unfolding f(4,6) by (rule boot_heap_room) simp
  from cp_copies_mv_self_deletes [OF f(1,2,3) _ _ _ _ f(5) this, of "''mv''"] show ?thesis
    by (auto simp: c_string_def)
qed

end
