(* ===== verification/LineEditor.thy ===== *)
theory LineEditor
  imports Shell
begin

text \<open>
  The input half of src/core/gui/TerminalWindow.cpp: the 128-byte input line, the history of ten
  lines, completion, and the key handler that drives the shell and hands over to the editor. The
  theory shows that the keys act on the line as on a string with a history, that the loops which
  erase the line end, and that nothing leaves the arrays.
\<close>

section \<open>The line\<close>

text \<open>\<open>OnKeyDown(0x0E, 0)\<close> and \<open>OnKeyDown(0, c)\<close> in shell mode, which the handler also calls itself.\<close>

definition line_backspace :: "terminal \<Rightarrow> terminal option" where
  "line_backspace t =
     (if 0 < input_cursor t then do {
        inp \<leftarrow> shift_left (nat (input_len t - input_cursor t)) (input_cursor t) (input t);
        inp \<leftarrow> arr_set inp (input_len t - 1) NUL;
        let t1 = t\<lparr>input := inp, input_len := input_len t - 1, input_cursor := input_cursor t - 1\<rparr>;
        if 0 < cursor_col t1 then do {
          b \<leftarrow> grid_set (buffer t1) (cursor_row t1) (cursor_col t1 - 1) NUL;
          Some (t1\<lparr>cursor_col := cursor_col t1 - 1, buffer := b\<rparr>)
        } else Some t1
      } else Some t)"

definition line_char :: "char \<Rightarrow> terminal \<Rightarrow> terminal option" where
  "line_char c t =
     (if c \<noteq> NUL \<and> input_len t < 120 then do {
        inp \<leftarrow> arr_set (input t) (input_len t) c;
        TW_PutChar c (t\<lparr>input := inp, input_len := input_len t + 1, input_cursor := input_cursor t + 1\<rparr>)
      } else Some t)"

fun type_string :: "string \<Rightarrow> terminal \<Rightarrow> terminal option" where
  "type_string [] t = Some t"
| "type_string (c # cs) t = line_char c t \<bind> type_string cs"

text \<open>\<open>while (input_len > 0) OnKeyDown(0x0E, 0)\<close>: None when it does not end.\<close>

partial_function (option) erase_line :: "terminal \<Rightarrow> terminal option" where
  "erase_line t = (if 0 < input_len t then line_backspace t \<bind> erase_line else Some t)"

declare erase_line.simps [code]

fun backspaces :: "nat \<Rightarrow> terminal \<Rightarrow> terminal option" where
  "backspaces 0 t = Some t"
| "backspaces (Suc n) t = line_backspace t \<bind> backspaces n"

section \<open>History\<close>

definition push_history :: "terminal \<Rightarrow> terminal option" where
  "push_history t =
     (if history_count t < 10
      then map_option (\<lambda>h. t\<lparr>history := h, history_count := history_count t + 1, history_idx := history_count t + 1\<rparr>)
        (arr_set (history t) (history_count t) (input t))
      else Some (t\<lparr>history := drop 1 (history t) @ [input t], history_idx := history_count t\<rparr>))"

definition history_up :: "terminal \<Rightarrow> terminal option" where
  "history_up t =
     (if 0 < history_count t then do {
        let t1 = (if 0 < history_idx t then t\<lparr>history_idx := history_idx t - 1\<rparr> else t);
        t2 \<leftarrow> erase_line t1;
        line \<leftarrow> arr_get (history t2) (history_idx t2);
        type_string (cstr line) t2
      } else Some t)"

definition history_down :: "terminal \<Rightarrow> terminal option" where
  "history_down t =
     (if history_idx t < history_count t then do {
        t1 \<leftarrow> erase_line (t\<lparr>history_idx := history_idx t + 1\<rparr>);
        if history_idx t1 < history_count t1 then do {
          line \<leftarrow> arr_get (history t1) (history_idx t1);
          type_string (cstr line) t1
        } else Some t1
      } else Some t)"

section \<open>Executing, completing, the key handler\<close>

definition on_tm :: "(terminal \<Rightarrow> terminal option) \<Rightarrow> shell \<Rightarrow> shell option" where
  "on_tm f s = map_option (\<lambda>t. s\<lparr>sh_tm := t\<rparr>) (f (sh_tm s))"

definition TW_Execute :: "nat \<Rightarrow> shell \<Rightarrow> shell option" where
  "TW_Execute n s = do {
     s1 \<leftarrow> on_tm (TW_PutChar NL) s;
     if input_len (sh_tm s1) = 0 then on_tm TW_Prompt s1
     else do {
       s2 \<leftarrow> on_tm push_history s1;
       if terminated (input (sh_tm s2)) then do {
         s3 \<leftarrow> Shell_Execute n (cstr (input (sh_tm s2))) s2;
         s4 \<leftarrow> on_tm TW_Prompt s3;
         on_tm (\<lambda>t. do { inp \<leftarrow> arr_set (input t) 0 NUL; Some (t\<lparr>input_len := 0, input_cursor := 0, input := inp\<rparr>) }) s4
       } else None
     }
   }"

text \<open>\<open>for (i = input_len - 1; i >= 0; i--) if (input[i] == ' ') { start = i + 1; break; }\<close>.\<close>

definition word_start :: "terminal \<Rightarrow> nat" where
  "word_start t = (case last_index_below CHR '' '' (input t) (nat (input_len t)) of Some i \<Rightarrow> i + 1 | None \<Rightarrow> 0)"

definition complete_word :: "shell \<Rightarrow> shell option" where
  "complete_word s =
     (let t = sh_tm s in
      if 0 < input_len t then
        (let prefix = take 63 (drop (word_start t) (take (nat (input_len t)) (input t))) in
         if 0 < length prefix then do {
           (suggestion, s1) \<leftarrow> GetAutocompleteSuggestion (cstr (prefix @ [NUL])) s;
           case suggestion of
             Some w \<Rightarrow> on_tm (\<lambda>t. backspaces (length prefix) t \<bind> type_string w) s1
           | None \<Rightarrow> Some s1
         } else Some s)
      else Some s)"

definition TW_OnKeyDown :: "nat \<Rightarrow> bool \<Rightarrow> int \<Rightarrow> char \<Rightarrow> shell \<Rightarrow> shell option" where
  "TW_OnKeyDown n ctrl scancode ascii s =
     (if mode (sh_tm s) = EDITOR \<and> active_editor (sh_tm s)
      then map_option (\<lambda>(t, f, e). s\<lparr>sh_tm := t, sh_fs := f, sh_ed := e\<rparr>)
        (Editor_OnKeyDown n ctrl scancode ascii (sh_tm s, sh_fs s, sh_ed s))
      else if scancode = 0x0F then complete_word s
      else if scancode = 0x1C then TW_Execute n s
      else if scancode = 0x0E then on_tm line_backspace s
      else if scancode = 0x48 then on_tm history_up s
      else if scancode = 0x50 then on_tm history_down s
      else on_tm (line_char ascii) s)"

text \<open>The default values of the members, then the constructor of the window after its base class's;
  \<open>raw\<close> is the memory of the new object.\<close>

definition member_defaults :: "terminal \<Rightarrow> terminal" where
  "member_defaults t = t\<lparr>cursor_row := 0, cursor_col := 0, ansi_state := 0, ansi_val := 0, current_color := 0xFFFFFF,
     input_len := 0, input_cursor := 0, history_count := 0, history_idx := 0\<rparr>"

definition new_terminal_window :: "terminal \<Rightarrow> ext4 \<Rightarrow> io \<Rightarrow> string \<Rightarrow> string \<Rightarrow> shell option" where
  "new_terminal_window raw fs io date time = do {
     s \<leftarrow> new_shell (member_defaults raw) fs io date time;
     s1 \<leftarrow> on_tm (\<lambda>t. Some (Clear (t\<lparr>mode := SHELL, active_editor := False\<rparr>))) s;
     s2 \<leftarrow> Sh_Print (''Antigravity OS v1.1 [Disk Mounted]'' @ [NL]) s1;
     on_tm TW_Prompt s2
   }"

section \<open>The line as a string with a history\<close>

definition line_text :: "terminal \<Rightarrow> string" where
  "line_text t = take (nat (input_len t)) (input t)"

definition history_text :: "terminal \<Rightarrow> string list" where
  "history_text t = map cstr (take (nat (history_count t)) (history t))"

definition line_ok :: "terminal \<Rightarrow> bool" where
  "line_ok t \<longleftrightarrow> length (input t) = 128 \<and> 0 \<le> input_len t \<and> input_len t \<le> 120 \<and> input_cursor t = input_len t
     \<and> c_string (line_text t) \<and> (\<forall>c \<in> set (drop (nat (input_len t)) (input t)). c = NUL)
     \<and> length (history t) = 10 \<and> 0 \<le> history_count t \<and> history_count t \<le> 10
     \<and> 0 \<le> history_idx t \<and> history_idx t \<le> history_count t
     \<and> (\<forall>h \<in> set (history_text t). length h \<le> 120)"

text \<open>Everything but the line and the screen.\<close>

definition same_history :: "terminal \<Rightarrow> terminal \<Rightarrow> bool" where
  "same_history t u \<longleftrightarrow> history u = history t \<and> history_count u = history_count t \<and> history_idx u = history_idx t
     \<and> mode u = mode t \<and> active_editor u = active_editor t"

lemma same_history_refl [simp]: "same_history t t"
  by (simp add: same_history_def)

lemma same_history_trans: "same_history t u \<Longrightarrow> same_history u w \<Longrightarrow> same_history t w"
  by (simp add: same_history_def)

lemma same_input_history: "same_input t u \<Longrightarrow> same_history t u"
  by (simp add: same_input_def same_history_def)

lemma line_okI:
  assumes "line_ok t" "same_history t u" "length (input u) = 128" "input_len u = int k" "k \<le> 120" "input_cursor u = int k"
    "c_string (take k (input u))" "\<forall>c \<in> set (drop k (input u)). c = NUL"
  shows "line_ok u" "line_text u = take k (input u)"
  using assms by (simp_all add: line_ok_def line_text_def history_text_def same_history_def)

lemma line_okE:
  assumes "line_ok t"
  obtains k where "input_len t = int k" "input_cursor t = int k" "k \<le> 120" "length (input t) = 128"
    "line_text t = take k (input t)" "c_string (take k (input t))" "\<forall>c \<in> set (drop k (input t)). c = NUL"
proof -
  from assms have "0 \<le> input_len t" by (simp add: line_ok_def)
  then obtain k where "input_len t = int k" by (metis nonneg_int_cases)
  with assms that [of k] show thesis by (simp add: line_ok_def line_text_def)
qed

lemma line_backspace_spec:
  assumes ok: "line_ok t" and t: "term_ok t"
  shows "\<exists>u. line_backspace t = Some u \<and> line_ok u \<and> term_ok u \<and> same_history t u \<and> line_text u = butlast (line_text t)
    \<and> input_len u = max 0 (input_len t - 1)"
proof -
  from ok obtain k where k: "input_len t = int k" "input_cursor t = int k" "k \<le> 120" "length (input t) = 128"
    "line_text t = take k (input t)" "c_string (take k (input t))" "\<forall>c \<in> set (drop k (input t)). c = NUL" by (rule line_okE)
  show ?thesis
  proof (cases k)
    case 0
    then show ?thesis using k ok t by (simp add: line_backspace_def)
  next
    case (Suc j)
    define inp where "inp = (input t)[j := NUL]"
    define t1 where "t1 = t\<lparr>input := inp, input_len := int j, input_cursor := int j\<rparr>"
    have set: "arr_set (input t) (int k - 1) NUL = Some inp" using k Suc by (simp add: arr_set_def inp_def)
    have tk: "take j inp = butlast (take k (input t))" using k Suc by (simp add: inp_def butlast_take)
    have "drop j inp = NUL # drop k (input t)"
      using k Suc by (simp add: inp_def drop_update_swap Cons_nth_drop_Suc [symmetric] del: Cons_nth_drop_Suc)
    then have nul: "\<forall>c \<in> set (drop j inp). c = NUL" using k by simp
    have c: "c_string (take j inp)" unfolding tk using k(6) by (auto simp: c_string_def dest: in_set_butlastD)
    have f: "same_history t t1" "length (input t1) = 128" "input_len t1 = int j" "j \<le> 120" "input_cursor t1 = int j"
      using k(3,4) Suc by (simp_all add: t1_def same_history_def inp_def)
    have "input t1 = inp" by (simp add: t1_def)
    then have l1: "line_ok t1" "line_text t1 = take j inp"
      using line_okI [OF ok f] c nul by simp_all
    have t1: "term_ok t1" "same_history t t1" using t by (simp_all add: t1_def term_ok_def same_history_def)
    have len: "max 0 (input_len t - 1) = int j" using k Suc by simp
    show ?thesis
    proof (cases "0 < cursor_col t")
      case False
      then have "line_backspace t = Some t1"
        using k Suc set by (simp add: line_backspace_def t1_def)
      then show ?thesis using l1 t1 tk k len by (simp add: t1_def)
    next
      case True
      then obtain b where b: "grid_set (buffer t) (cursor_row t) (cursor_col t - 1) NUL = Some b"
          "length b = 25" "\<forall>r \<in> set b. length r = 60"
        using grid_set_in [of "buffer t" 25 60 "cursor_row t" "cursor_col t - 1" NUL] t by (auto simp: term_ok_def)
      define u where "u = t1\<lparr>cursor_col := cursor_col t1 - 1, buffer := b\<rparr>"
      have "line_backspace t = Some u"
        using True k Suc set b by (simp add: line_backspace_def t1_def u_def)
      moreover have "line_ok u" "line_text u = take j inp"
        using l1 by (simp_all add: u_def line_ok_def line_text_def history_text_def)
      moreover have "term_ok u" "same_history t u" "input_len u = int j"
        using t b True by (simp_all add: u_def t1_def term_ok_def same_history_def)
      ultimately show ?thesis using tk k len by simp
    qed
  qed
qed

lemma line_char_spec:
  assumes ok: "line_ok t" and t: "term_ok t"
  shows "\<exists>u. line_char c t = Some u \<and> line_ok u \<and> term_ok u \<and> same_history t u
    \<and> line_text u = (if c \<noteq> NUL \<and> length (line_text t) < 120 then line_text t @ [c] else line_text t)"
proof -
  from ok obtain k where k: "input_len t = int k" "input_cursor t = int k" "k \<le> 120" "length (input t) = 128"
    "line_text t = take k (input t)" "c_string (take k (input t))" "\<forall>c \<in> set (drop k (input t)). c = NUL" by (rule line_okE)
  show ?thesis
  proof (cases "c \<noteq> NUL \<and> k < 120")
    case False
    then show ?thesis using k ok t by (auto simp: line_char_def)
  next
    case True
    define inp where "inp = (input t)[k := c]"
    define t1 where "t1 = t\<lparr>input := inp, input_len := int k + 1, input_cursor := int k + 1\<rparr>"
    have set: "arr_set (input t) (int k) c = Some inp" using k True by (simp add: arr_set_def inp_def)
    have t1: "term_ok t1" using t by (simp add: t1_def term_ok_def)
    from PutChar_safe [OF this] obtain u where u: "TW_PutChar c t1 = Some u" "term_ok u" "same_input t1 u" by blast
    have "line_char c t = Some u" using True k set u(1) by (simp add: line_char_def t1_def)
    moreover have f: "input u = inp" "input_len u = int (k + 1)" "input_cursor u = int (k + 1)" "same_history t u"
      using u(3) by (simp_all add: same_input_def t1_def same_history_def)
    moreover have tk: "take (k + 1) inp = take k (input t) @ [c]"
      using k True by (simp add: inp_def take_Suc_conv_app_nth)
    moreover have "drop (k + 1) inp = drop (k + 1) (input t)" by (simp add: inp_def)
    then have "\<forall>c \<in> set (drop (k + 1) inp). c = NUL" using k(7) by (metis in_set_dropD drop_drop add.commute)
    moreover have "c_string (take k (input t) @ [c])" using k(6) True by (auto simp: c_string_def)
    ultimately show ?thesis
      using line_okI [OF ok f(4), of "k + 1"] k True u(2) by (simp add: inp_def)
  qed
qed

lemma type_string_spec:
  "line_ok t \<Longrightarrow> term_ok t \<Longrightarrow> c_string cs \<Longrightarrow> length (line_text t) + length cs \<le> 120 \<Longrightarrow>
   \<exists>u. type_string cs t = Some u \<and> line_ok u \<and> term_ok u \<and> same_history t u \<and> line_text u = line_text t @ cs"
proof (induction cs arbitrary: t)
  case (Cons c cs)
  from line_char_spec [OF Cons.prems(1,2), of c] Cons.prems(3,4) obtain v where
    v: "line_char c t = Some v" "line_ok v" "term_ok v" "same_history t v" "line_text v = line_text t @ [c]"
    by (auto simp: c_string_def)
  with Cons.IH [OF v(2,3)] Cons.prems(3,4) obtain u where "type_string cs v = Some u" "line_ok u" "term_ok u"
    "same_history v u" "line_text u = line_text v @ cs" by (auto simp: c_string_def)
  with v same_history_trans show ?case by fastforce
qed simp

text \<open>The erasing loop ends on a well-formed line, after one backspace per character.\<close>

lemma erase_line_spec:
  "line_ok t \<Longrightarrow> term_ok t \<Longrightarrow> input_len t = int n \<Longrightarrow>
   \<exists>u. erase_line t = Some u \<and> line_ok u \<and> term_ok u \<and> same_history t u \<and> line_text u = []"
proof (induction n arbitrary: t)
  case 0
  then show ?case by (simp add: erase_line.simps line_text_def)
next
  case (Suc n)
  from line_backspace_spec [OF Suc.prems(1,2)] Suc.prems(3) obtain v where v: "line_backspace t = Some v"
    "line_ok v" "term_ok v" "same_history t v" "input_len v = int n" by auto
  from Suc.IH [OF v(2,3,5)] obtain u where "erase_line v = Some u" "line_ok u" "term_ok u" "same_history v u"
    "line_text u = []" by blast
  with v Suc.prems(3) same_history_trans show ?case by (auto simp: erase_line.simps [of t])
qed

lemma history_entry:
  assumes ok: "line_ok t" and i: "0 \<le> history_idx t" "history_idx t < history_count t"
  shows "arr_get (history t) (history_idx t) = Some (history t ! nat (history_idx t))"
    and "cstr (history t ! nat (history_idx t)) = history_text t ! nat (history_idx t)"
    and "length (cstr (history t ! nat (history_idx t))) \<le> 120"
proof -
  have b: "nat (history_idx t) < length (history t)" "nat (history_idx t) < nat (history_count t)"
  proof -
    have "length (history t) = 10" "history_count t \<le> 10" using ok by (simp_all add: line_ok_def)
    with i show "nat (history_idx t) < length (history t)" "nat (history_idx t) < nat (history_count t)"
      by linarith+
  qed
  then show "arr_get (history t) (history_idx t) = Some (history t ! nat (history_idx t))"
    using i by (simp add: arr_get_def)
  show e: "cstr (history t ! nat (history_idx t)) = history_text t ! nat (history_idx t)"
    using b by (simp add: history_text_def)
  have "history_text t ! nat (history_idx t) \<in> set (history_text t)"
    using b by (intro nth_mem) (simp add: history_text_def)
  then show "length (cstr (history t ! nat (history_idx t))) \<le> 120"
    using ok unfolding e line_ok_def by blast
qed

lemma line_ok_idx: "line_ok t \<Longrightarrow> 0 \<le> i \<Longrightarrow> i \<le> history_count t \<Longrightarrow> line_ok (t\<lparr>history_idx := i\<rparr>)"
  by (simp add: line_ok_def line_text_def history_text_def)

text \<open>Erasing the line and typing the history entry the index stands at.\<close>

lemma recall_spec:
  assumes ok: "line_ok t" and t: "term_ok t" and i: "0 \<le> history_idx t" "history_idx t < history_count t"
  shows "\<exists>u v. erase_line t = Some u \<and> history_idx u = history_idx t \<and> history_count u = history_count t
    \<and> arr_get (history u) (history_idx u) = Some (history t ! nat (history_idx t))
    \<and> type_string (cstr (history t ! nat (history_idx t))) u = Some v
    \<and> line_ok v \<and> term_ok v \<and> same_history t v \<and> line_text v = history_text t ! nat (history_idx t)"
proof -
  from ok obtain n where "input_len t = int n" by (rule line_okE)
  from erase_line_spec [OF ok t this] obtain u where u: "erase_line t = Some u" "line_ok u" "term_ok u"
    "same_history t u" "line_text u = []" by blast
  note h = history_entry [OF ok i]
  have "c_string (cstr (history t ! nat (history_idx t)))" by (simp add: c_string_def)
  from type_string_spec [OF u(2,3) this] u(5) h(3) obtain v where v: "type_string (cstr (history t ! nat (history_idx t))) u = Some v"
    "line_ok v" "term_ok v" "same_history u v" "line_text v = cstr (history t ! nat (history_idx t))" by auto
  with u h same_history_trans [OF u(4) v(4)] show ?thesis by (auto simp: same_history_def)
qed

section \<open>Properties\<close>

text \<open>What a key does to the line and the place in the history, on strings.\<close>

definition line_step :: "int \<Rightarrow> char \<Rightarrow> string list \<Rightarrow> string \<times> int \<Rightarrow> string \<times> int" where
  "line_step scancode ascii hist x =
     (let (line, idx) = x in
      if scancode = 0x0E then (butlast line, idx)
      else if scancode = 0x48 then
        (if hist \<noteq> [] then (hist ! nat (max 0 (idx - 1)), max 0 (idx - 1)) else x)
      else if scancode = 0x50 then
        (if idx < int (length hist) then (if idx + 1 < int (length hist) then hist ! nat (idx + 1) else [], idx + 1) else x)
      else if ascii \<noteq> NUL \<and> length line < 120 then (line @ [ascii], idx)
      else x)"

lemma history_length:
  assumes "line_ok t"
  shows "int (length (history_text t)) = history_count t"
proof -
  have "length (history t) = 10" "0 \<le> history_count t" "history_count t \<le> 10"
    using assms by (simp_all add: line_ok_def)
  then show ?thesis by (simp add: history_text_def min_def) linarith
qed

text \<open>The input array as a C string.\<close>

lemma input_padded:
  assumes "line_ok t"
  shows "cstr (input t) = line_text t" "terminated (input t)"
proof -
  from assms obtain k where k: "k \<le> 120" "length (input t) = 128" "line_text t = take k (input t)"
    "c_string (take k (input t))" "\<forall>c \<in> set (drop k (input t)). c = NUL" by (rule line_okE)
  have "drop k (input t) = replicate (128 - k) NUL"
    using replicate_length_same [OF k(5)] k(2) by simp
  then have i: "input t = line_text t @ replicate (128 - k) NUL" using k(3) by (metis append_take_drop_id)
  then show "cstr (input t) = line_text t" using k(3,4) by (metis cstr_append_NULs cstr_c_string)
  show "terminated (input t)" unfolding i using k(1) by (simp add: terminated_def)
qed

lemma same_history_text: "same_history t u \<Longrightarrow> history_text u = history_text t"
  by (simp add: same_history_def history_text_def)

lemma history_up_spec:
  assumes ok: "line_ok t" and t: "term_ok t"
  shows "\<exists>u. history_up t = Some u \<and> line_ok u \<and> term_ok u \<and> history_text u = history_text t \<and> mode u = mode t
    \<and> (line_text u, history_idx u) = line_step 0x48 c (history_text t) (line_text t, history_idx t)"
proof (cases "0 < history_count t")
  case False
  then have "history_text t = []" using history_length [OF ok] ok by (auto simp: line_ok_def history_text_def)
  then show ?thesis using False ok t by (simp add: history_up_def line_step_def)
next
  case True
  define i where "i = max 0 (history_idx t - 1)"
  define t1 where "t1 = t\<lparr>history_idx := i\<rparr>"
  have i: "0 \<le> i" "i < history_count t" using True ok by (auto simp: i_def line_ok_def)
  have t1: "(if 0 < history_idx t then t\<lparr>history_idx := history_idx t - 1\<rparr> else t) = t1"
    using ok by (auto simp: t1_def i_def line_ok_def)
  have ok1: "line_ok t1" "term_ok t1" using line_ok_idx [OF ok, of i] i t by (simp_all add: t1_def term_ok_def)
  have h1: "history_text t1 = history_text t" "history_idx t1 = i" "history_count t1 = history_count t" "mode t1 = mode t"
    by (simp_all add: t1_def history_text_def)
  from recall_spec [OF ok1] i h1 obtain u v where u: "erase_line t1 = Some u" "history_idx u = i"
    "arr_get (history u) i = Some (history t1 ! nat i)" "type_string (cstr (history t1 ! nat i)) u = Some v"
    and v: "line_ok v" "term_ok v" "same_history t1 v" "line_text v = history_text t ! nat i" by auto
  have "history_up t = Some v" using True t1 u by (simp add: history_up_def)
  moreover have "history_text v = history_text t" "history_idx v = i" "mode v = mode t"
    using same_history_text [OF v(3)] v(3) h1 by (simp_all add: same_history_def)
  moreover have "history_text t \<noteq> []" using True history_length [OF ok] by auto
  ultimately show ?thesis using v by (simp add: line_step_def i_def)
qed

lemma history_down_spec:
  assumes ok: "line_ok t" and t: "term_ok t"
  shows "\<exists>u. history_down t = Some u \<and> line_ok u \<and> term_ok u \<and> history_text u = history_text t \<and> mode u = mode t
    \<and> (line_text u, history_idx u) = line_step 0x50 c (history_text t) (line_text t, history_idx t)"
proof (cases "history_idx t < history_count t")
  case False
  then show ?thesis using ok t history_length [OF ok] by (simp add: history_down_def line_step_def)
next
  case True
  define i where "i = history_idx t + 1"
  define t1 where "t1 = t\<lparr>history_idx := i\<rparr>"
  have i: "0 \<le> i" "i \<le> history_count t" using True ok by (auto simp: i_def line_ok_def)
  have ok1: "line_ok t1" "term_ok t1" using line_ok_idx [OF ok i] t by (simp_all add: t1_def term_ok_def)
  have h1: "history_text t1 = history_text t" "history_idx t1 = i" "history_count t1 = history_count t" "mode t1 = mode t"
    by (simp_all add: t1_def history_text_def)
  show ?thesis
  proof (cases "i < history_count t")
    case lt: True
    from recall_spec [OF ok1] i lt h1 obtain u v where u: "erase_line t1 = Some u" "history_idx u = i" "history_count u = history_count t"
      "arr_get (history u) i = Some (history t1 ! nat i)" "type_string (cstr (history t1 ! nat i)) u = Some v"
      and v: "line_ok v" "term_ok v" "same_history t1 v" "line_text v = history_text t ! nat i" by auto
    have "history_down t = Some v" using True u lt by (simp add: history_down_def t1_def [symmetric] i_def [symmetric])
    moreover have "history_text v = history_text t" "history_idx v = i" "mode v = mode t"
      using same_history_text [OF v(3)] v(3) h1 by (simp_all add: same_history_def)
    ultimately show ?thesis using v lt True history_length [OF ok] by (simp add: line_step_def i_def)
  next
    case ge: False
    from ok1(1) obtain n where "input_len t1 = int n" by (rule line_okE)
    from erase_line_spec [OF ok1 this] obtain u where u: "erase_line t1 = Some u" "line_ok u" "term_ok u"
      "same_history t1 u" "line_text u = []" by blast
    have f: "history_text u = history_text t" "history_idx u = i" "history_count u = history_count t" "mode u = mode t"
      using same_history_text [OF u(4)] u(4) h1 by (simp_all add: same_history_def)
    then have "history_down t = Some u" using True u(1) ge by (simp add: history_down_def t1_def [symmetric] i_def [symmetric])
    then show ?thesis using u f ge True history_length [OF ok] by (simp add: line_step_def i_def)
  qed
qed

lemma TW_OnKeyDown_line:
  assumes ok: "line_ok (sh_tm s)" and t: "term_ok (sh_tm s)" and m: "mode (sh_tm s) = SHELL"
    and key: "scancode \<noteq> 0x0F" "scancode \<noteq> 0x1C"
  shows "\<exists>u. TW_OnKeyDown n ctrl scancode ascii s = Some (s\<lparr>sh_tm := u\<rparr>) \<and> line_ok u \<and> term_ok u
    \<and> history_text u = history_text (sh_tm s) \<and> mode u = SHELL
    \<and> (line_text u, history_idx u) =
        line_step scancode ascii (history_text (sh_tm s)) (line_text (sh_tm s), history_idx (sh_tm s))"
proof -
  note defs = TW_OnKeyDown_def on_tm_def m key
  consider "scancode = 0x0E" | "scancode = 0x48" | "scancode = 0x50" | "scancode \<notin> {0x0E, 0x48, 0x50}" by blast
  then show ?thesis
  proof cases
    case 1
    from line_backspace_spec [OF ok t] obtain u where u: "line_backspace (sh_tm s) = Some u" "line_ok u" "term_ok u"
      "same_history (sh_tm s) u" "line_text u = butlast (line_text (sh_tm s))" by blast
    with 1 have "TW_OnKeyDown n ctrl scancode ascii s = Some (s\<lparr>sh_tm := u\<rparr>)" by (simp add: defs)
    with 1 u same_history_text [OF u(4)] show ?thesis
      by (intro exI [of _ u]) (simp add: line_step_def same_history_def m)
  next
    case 2
    from history_up_spec [OF ok t, of ascii, unfolded m] obtain u where u: "history_up (sh_tm s) = Some u" "line_ok u" "term_ok u"
      "history_text u = history_text (sh_tm s)" "mode u = SHELL"
      "(line_text u, history_idx u) = line_step 0x48 ascii (history_text (sh_tm s)) (line_text (sh_tm s), history_idx (sh_tm s))" by blast
    with 2 have "TW_OnKeyDown n ctrl scancode ascii s = Some (s\<lparr>sh_tm := u\<rparr>)" by (simp add: defs)
    with 2 u show ?thesis by blast
  next
    case 3
    from history_down_spec [OF ok t, of ascii, unfolded m] obtain u where u: "history_down (sh_tm s) = Some u" "line_ok u" "term_ok u"
      "history_text u = history_text (sh_tm s)" "mode u = SHELL"
      "(line_text u, history_idx u) = line_step 0x50 ascii (history_text (sh_tm s)) (line_text (sh_tm s), history_idx (sh_tm s))" by blast
    with 3 have "TW_OnKeyDown n ctrl scancode ascii s = Some (s\<lparr>sh_tm := u\<rparr>)" by (simp add: defs)
    with 3 u show ?thesis by blast
  next
    case 4
    from line_char_spec [OF ok t, of ascii] obtain u where u: "line_char ascii (sh_tm s) = Some u" "line_ok u" "term_ok u"
      "same_history (sh_tm s) u"
      "line_text u = (if ascii \<noteq> NUL \<and> length (line_text (sh_tm s)) < 120 then line_text (sh_tm s) @ [ascii] else line_text (sh_tm s))"
      by blast
    with 4 have "TW_OnKeyDown n ctrl scancode ascii s = Some (s\<lparr>sh_tm := u\<rparr>)" by (simp add: defs)
    with 4 u same_history_text [OF u(4)] show ?thesis
      by (intro exI [of _ u]) (simp add: line_step_def same_history_def m)
  qed
qed

text \<open>C13: in shell mode, every key but Tab and Enter acts on the input line and the history index as
  \<open>line_step\<close> says: backspace drops the last character, the up and down arrows replace the line by
  the neighbouring history entry (below the newest one by the empty line), a character is appended
  while the line has fewer than 120. The call always returns (its erasing loops end), no array is
  left, and the history does not change.\<close>

theorem keys_edit_line:
  assumes ok: "line_ok (sh_tm s)" and t: "term_ok (sh_tm s)" and m: "mode (sh_tm s) = SHELL"
    and key: "scancode \<noteq> 0x0F" "scancode \<noteq> 0x1C"
  shows "\<exists>u. TW_OnKeyDown n ctrl scancode ascii s = Some (s\<lparr>sh_tm := u\<rparr>) \<and> line_ok u \<and> term_ok u
    \<and> history_text u = history_text (sh_tm s)
    \<and> (line_text u, history_idx u) =
        line_step scancode ascii (history_text (sh_tm s)) (line_text (sh_tm s), history_idx (sh_tm s))"
  using TW_OnKeyDown_line [OF assms] by blast

lemma blank_line_ok: "line_ok blank_terminal"
  by (simp add: line_ok_def blank_terminal_def line_text_def history_text_def c_string_def)

theorem keys_edit_line_witness:
  "\<exists>u. TW_OnKeyDown 2 False 0x26 CHR ''l'' demo_shell = Some (demo_shell\<lparr>sh_tm := u\<rparr>) \<and> line_text u = ''l''"
proof -
  have d: "sh_tm demo_shell = blank_terminal" "mode blank_terminal = SHELL" "line_text blank_terminal = []"
    by (simp_all add: demo_shell_def blank_terminal_def line_text_def)
  have "line_ok (sh_tm demo_shell)" "term_ok (sh_tm demo_shell)" "mode (sh_tm demo_shell) = SHELL"
    using blank_line_ok blank_terminal_ok d by simp_all
  from keys_edit_line [OF this, of "0x26" 2 False "CHR ''l''"] d show ?thesis by (auto simp: line_step_def)
qed

text \<open>The history after a line: at most ten lines, the oldest one goes.\<close>

lemma push_history_spec:
  assumes ok: "line_ok t"
  shows "\<exists>u. push_history t = Some u \<and> line_ok u \<and> line_text u = line_text t \<and> history_idx u = history_count u
    \<and> history_text u = (if length (history_text t) < 10 then history_text t @ [line_text t]
        else drop 1 (history_text t) @ [line_text t])
    \<and> same_input (t\<lparr>history := history u, history_count := history_count u, history_idx := history_idx u\<rparr>) u
    \<and> (term_ok t \<longrightarrow> term_ok u)"
proof -
  from ok obtain k where k: "input_len t = int k" "input_cursor t = int k" "k \<le> 120" "length (input t) = 128"
    "line_text t = take k (input t)" "c_string (take k (input t))" "\<forall>c \<in> set (drop k (input t)). c = NUL" by (rule line_okE)
  note line = input_padded(1) [OF ok]
  obtain n where n: "history_count t = int n" "n \<le> 10" "length (history t) = 10"
  proof -
    have "0 \<le> history_count t" "history_count t \<le> 10" "length (history t) = 10" using ok by (simp_all add: line_ok_def)
    with that [of "nat (history_count t)"] show thesis by simp
  qed
  have len: "length (line_text t) \<le> 120" using k by simp
  show ?thesis
  proof (cases "n < 10")
    case True
    define h where "h = (history t)[n := input t]"
    define u where "u = t\<lparr>history := h, history_count := int (n + 1), history_idx := int (n + 1)\<rparr>"
    have p: "push_history t = Some u" using True n by (simp add: push_history_def arr_set_def h_def u_def)
    have ht: "history_text u = history_text t @ [line_text t]"
      using True n line by (simp add: history_text_def u_def h_def take_Suc_conv_app_nth nat_add_distrib)
    have "length (history_text t) < 10" using True n by (simp add: history_text_def)
    moreover have "line_ok u"
      using ok k n True ht len unfolding line_ok_def by (auto simp: u_def h_def line_text_def)
    ultimately show ?thesis using p ht by (simp add: u_def line_text_def same_input_def term_ok_def)
  next
    case False
    then have n10: "n = 10" using n by simp
    define u where "u = t\<lparr>history := drop 1 (history t) @ [input t], history_idx := 10\<rparr>"
    have p: "push_history t = Some u" using n n10 by (simp add: push_history_def u_def)
    have ht: "history_text u = drop 1 (history_text t) @ [line_text t]"
      using n n10 line by (simp add: history_text_def u_def drop_map)
    have "\<not> length (history_text t) < 10" using n n10 by (simp add: history_text_def)
    moreover have "line_ok u"
      using ok k n n10 ht len unfolding line_ok_def by (auto simp: u_def line_text_def dest: in_set_dropD)
    ultimately show ?thesis using p ht n n10 by (simp add: u_def line_text_def same_input_def term_ok_def)
  qed
qed

text \<open>C14: Enter on a non-empty line records it as the newest of at most ten history lines, hands exactly
  the text of the line to the shell, and when the command returns prompts and empties the line.\<close>

theorem enter_runs_line:
  assumes ok: "line_ok (sh_tm s)" and t: "term_ok (sh_tm s)" and line: "line_text (sh_tm s) \<noteq> []"
  shows "\<exists>u. line_ok u \<and> term_ok u \<and> line_text u = line_text (sh_tm s) \<and> history_idx u = history_count u
    \<and> history_text u = (let h = history_text (sh_tm s) in (if length h < 10 then h else drop 1 h) @ [line_text (sh_tm s)])
    \<and> TW_Execute n s = Shell_Execute n (line_text (sh_tm s)) (s\<lparr>sh_tm := u\<rparr>) \<bind> (\<lambda>s3. on_tm TW_Prompt s3 \<bind>
        on_tm (\<lambda>t. do { inp \<leftarrow> arr_set (input t) 0 NUL; Some (t\<lparr>input_len := 0, input_cursor := 0, input := inp\<rparr>) }))"
proof -
  from PutChar_safe [OF t] obtain t1 where t1: "TW_PutChar NL (sh_tm s) = Some t1" "term_ok t1" "same_input (sh_tm s) t1" by blast
  have ok1: "line_ok t1" "line_text t1 = line_text (sh_tm s)" "history_text t1 = history_text (sh_tm s)"
    using ok t1(3) by (simp_all add: line_ok_def same_input_def line_text_def history_text_def)
  from push_history_spec [OF ok1(1)] obtain u where u: "push_history t1 = Some u" "line_ok u" "line_text u = line_text t1"
    "history_idx u = history_count u"
    "history_text u = (if length (history_text t1) < 10 then history_text t1 @ [line_text t1] else drop 1 (history_text t1) @ [line_text t1])"
    "term_ok u" using t1(2) by blast
  note cstr = input_padded(1) [OF u(2)]
  have "terminated (input u)" by (rule input_padded(2) [OF u(2)])
  moreover have "input_len t1 \<noteq> 0" using line ok1(2) by (auto simp: line_text_def)
  ultimately have "TW_Execute n s = Shell_Execute n (line_text (sh_tm s)) (s\<lparr>sh_tm := u\<rparr>) \<bind> (\<lambda>s3. on_tm TW_Prompt s3 \<bind>
        on_tm (\<lambda>t. do { inp \<leftarrow> arr_set (input t) 0 NUL; Some (t\<lparr>input_len := 0, input_cursor := 0, input := inp\<rparr>) }))"
    using t1(1) u(1,3) ok1(2) cstr by (simp add: TW_Execute_def on_tm_def)
  with u ok1 show ?thesis by (intro exI [of _ u]) (simp add: Let_def)
qed

theorem enter_runs_line_witness:
  "\<exists>u. TW_Execute 2 (demo_shell\<lparr>sh_tm := blank_terminal\<lparr>input := ''pwd'' @ replicate 125 NUL, input_len := 3, input_cursor := 3\<rparr>\<rparr>)
      = Shell_Execute 2 ''pwd'' (demo_shell\<lparr>sh_tm := u\<rparr>) \<bind> (\<lambda>s3. on_tm TW_Prompt s3 \<bind>
        on_tm (\<lambda>t. do { inp \<leftarrow> arr_set (input t) 0 NUL; Some (t\<lparr>input_len := 0, input_cursor := 0, input := inp\<rparr>) }))
    \<and> history_text u = [''pwd'']"
proof -
  let ?t = "blank_terminal\<lparr>input := ''pwd'' @ replicate 125 NUL, input_len := 3, input_cursor := 3\<rparr>"
  let ?s = "demo_shell\<lparr>sh_tm := ?t\<rparr>"
  have t: "line_ok ?t" "term_ok ?t" "line_text ?t = ''pwd''" "history_text ?t = []"
    using blank_terminal_ok by (simp_all add: line_ok_def blank_terminal_def line_text_def history_text_def c_string_def term_ok_def)
  then have "line_ok (sh_tm ?s)" "term_ok (sh_tm ?s)" "line_text (sh_tm ?s) \<noteq> []" by simp_all
  from enter_runs_line [OF this, of 2] t show ?thesis by (auto simp: Let_def)
qed

end
