(* ===== verification/InputDrivers.thy ===== *)
theory InputDrivers
  imports PortIO
begin

text \<open>
  The keyboard driver (src/drivers/keyboard.cpp) and the PS/2 mouse driver (src/drivers/mouse.cpp).
  The calls the mouse driver makes into the desktop are returned as a list, in order; theory
  Desktop gives them their meaning.
\<close>

section \<open>Keyboard\<close>

text \<open>The chain of tests, in the order of the source (0x39 is tested twice there, the second test is
  never reached with a match).\<close>

definition ScancodeToAscii :: "u8 \<Rightarrow> char" where
  "ScancodeToAscii scancode =
    (if scancode = 0x1E then CHR ''a'' else if scancode = 0x30 then CHR ''b''
     else if scancode = 0x2E then CHR ''c'' else if scancode = 0x20 then CHR ''d''
     else if scancode = 0x12 then CHR ''e'' else if scancode = 0x21 then CHR ''f''
     else if scancode = 0x22 then CHR ''g'' else if scancode = 0x23 then CHR ''h''
     else if scancode = 0x17 then CHR ''i'' else if scancode = 0x24 then CHR ''j''
     else if scancode = 0x25 then CHR ''k'' else if scancode = 0x26 then CHR ''l''
     else if scancode = 0x32 then CHR ''m'' else if scancode = 0x31 then CHR ''n''
     else if scancode = 0x18 then CHR ''o'' else if scancode = 0x19 then CHR ''p''
     else if scancode = 0x10 then CHR ''q'' else if scancode = 0x13 then CHR ''r''
     else if scancode = 0x1F then CHR ''s'' else if scancode = 0x14 then CHR ''t''
     else if scancode = 0x16 then CHR ''u'' else if scancode = 0x2F then CHR ''v''
     else if scancode = 0x11 then CHR ''w'' else if scancode = 0x2D then CHR ''x''
     else if scancode = 0x15 then CHR ''y'' else if scancode = 0x2C then CHR ''z''
     else if scancode = 0x39 then CHR '' '' else if scancode = 0x1C then NL
     else if scancode = 0x0E then CHR 0x08
     else if scancode = 0x33 then CHR '','' else if scancode = 0x34 then CHR ''.''
     else if scancode = 0x35 then CHR ''/'' else if scancode = 0x39 then CHR '' ''
     else if scancode = 0x48 then NUL else if scancode = 0x50 then NUL
     else if scancode = 0x4B then NUL else if scancode = 0x4D then NUL
     else NUL)"

text \<open>\<open>GetChar\<close> on the variable \<open>lastKey\<close>: the key and the cleared variable.\<close>

definition Keyboard_GetChar :: "char \<Rightarrow> char \<times> char" where
  "Keyboard_GetChar lastKey = (lastKey, NUL)"

definition keyboard_scancodes :: "u8 list" where
  "keyboard_scancodes =
     [0x1E, 0x30, 0x2E, 0x20, 0x12, 0x21, 0x22, 0x23, 0x17, 0x24, 0x25, 0x26, 0x32, 0x31, 0x18, 0x19,
      0x10, 0x13, 0x1F, 0x14, 0x16, 0x2F, 0x11, 0x2D, 0x15, 0x2C, 0x39, 0x1C, 0x0E, 0x33, 0x34, 0x35]"

definition keyboard_chars :: string where
  "keyboard_chars = ''abcdefghijklmnopqrstuvwxyz '' @ [NL, CHR 0x08] @ '',./''"

lemma map_ScancodeToAscii: "map ScancodeToAscii keyboard_scancodes = keyboard_chars"
  by (simp add: keyboard_scancodes_def keyboard_chars_def ScancodeToAscii_def)

lemma ScancodeToAscii_other: "s \<notin> set keyboard_scancodes \<Longrightarrow> ScancodeToAscii s = NUL"
  by (simp add: keyboard_scancodes_def ScancodeToAscii_def)

text \<open>Exactly the 32 keys of the table have a character; two keys never share one, and the
  characters are the lower-case letters, space, newline, backspace, comma, full stop and slash.
  No scancode with the release bit set has one.\<close>

theorem ScancodeToAscii_table:
  "{s. ScancodeToAscii s \<noteq> NUL} = set keyboard_scancodes
   \<and> inj_on ScancodeToAscii {s. ScancodeToAscii s \<noteq> NUL}
   \<and> ScancodeToAscii ` {s. ScancodeToAscii s \<noteq> NUL} = set keyboard_chars
   \<and> (\<forall>s \<in> set keyboard_scancodes. s AND 0x80 = 0)"
proof -
  have img: "ScancodeToAscii ` set keyboard_scancodes = set keyboard_chars"
    by (simp only: map_ScancodeToAscii [symmetric] list.set_map)
  have "NUL \<notin> set keyboard_chars" by (simp add: keyboard_chars_def)
  with img have "ScancodeToAscii s \<noteq> NUL" if "s \<in> set keyboard_scancodes" for s
    using that by (metis imageI)
  then have set: "{s. ScancodeToAscii s \<noteq> NUL} = set keyboard_scancodes"
    using ScancodeToAscii_other by blast
  have "distinct (map ScancodeToAscii keyboard_scancodes)"
    unfolding map_ScancodeToAscii by (simp add: keyboard_chars_def)
  then have "inj_on ScancodeToAscii (set keyboard_scancodes)" by (simp add: distinct_map)
  moreover note img
  moreover have "\<forall>s \<in> set keyboard_scancodes. s AND 0x80 = 0"
    by (simp add: keyboard_scancodes_def)
  ultimately show ?thesis by (simp only: set simp_thms)
qed

section \<open>Mouse: talking to the controller\<close>

definition DATA_PORT :: u16 where "DATA_PORT = 0x60"
definition CMD_PORT :: u16 where "CMD_PORT = 0x64"

text \<open>\<open>while (timeout--)\<close>: at most \<open>timeout\<close> polls, and the caller goes on either way.\<close>

fun wait_write :: "nat \<Rightarrow> io \<Rightarrow> io option" where
  "wait_write 0 io = Some io"
| "wait_write (Suc timeout) io = do {
     (v, io1) \<leftarrow> ReadPort CMD_PORT io;
     if v AND 2 = 0 then Some io1 else wait_write timeout io1
   }"

fun wait_read :: "nat \<Rightarrow> io \<Rightarrow> io option" where
  "wait_read 0 io = Some io"
| "wait_read (Suc timeout) io = do {
     (v, io1) \<leftarrow> ReadPort CMD_PORT io;
     if v AND 1 = 1 then Some io1 else wait_read timeout io1
   }"

definition Mouse_WaitWrite :: "io \<Rightarrow> io option" where "Mouse_WaitWrite = wait_write 100000"
definition Mouse_WaitRead :: "io \<Rightarrow> io option" where "Mouse_WaitRead = wait_read 100000"

definition Mouse_Write :: "u8 \<Rightarrow> io \<Rightarrow> io option" where
  "Mouse_Write data io = do {
     io1 \<leftarrow> Mouse_WaitWrite io;
     io2 \<leftarrow> Mouse_WaitWrite (WritePort CMD_PORT 0xD4 io1);
     Some (WritePort DATA_PORT data io2)
   }"

definition Mouse_Read :: "io \<Rightarrow> (u8 \<times> io) option" where
  "Mouse_Read io = do {
     io1 \<leftarrow> Mouse_WaitRead io;
     ReadPort DATA_PORT io1
   }"

text \<open>\<open>Mouse::Init\<close> up to its closing message.\<close>

definition Mouse_Init :: "io \<Rightarrow> io option" where
  "Mouse_Init io = do {
     io \<leftarrow> Mouse_WaitWrite io;
     io \<leftarrow> Mouse_WaitWrite (WritePort CMD_PORT 0xA8 io);
     io \<leftarrow> Mouse_WaitRead (WritePort CMD_PORT 0x20 io);
     (status, io) \<leftarrow> ReadPort DATA_PORT io;
     let status = (status OR 2) AND NOT 0x20;
     io \<leftarrow> Mouse_WaitWrite io;
     io \<leftarrow> Mouse_WaitWrite (WritePort CMD_PORT 0x60 io);
     io \<leftarrow> Mouse_Write 0xF6 (WritePort DATA_PORT status io);
     (_, io) \<leftarrow> Mouse_Read io;
     io \<leftarrow> Mouse_Write 0xF4 io;
     (_, io) \<leftarrow> Mouse_Read io;
     Some io
   }"

section \<open>Mouse: the packet decoder\<close>

datatype desktop_call = MouseMove int int | MouseDown int | MouseUp int

text \<open>\<open>packet[3]\<close> as three fields, and the position the function keeps in statics.\<close>

record mouse =
  cycle :: nat
  packet0 :: u8
  packet1 :: u8
  packet2 :: u8
  mouse_x :: int
  mouse_y :: int

definition mouse_start :: mouse where
  "mouse_start = \<lparr>cycle = 0, packet0 = 0, packet1 = 0, packet2 = 0, mouse_x = 400, mouse_y = 300\<rparr>"

text \<open>The four clamping tests in their order.\<close>

definition clamp_x :: "int \<Rightarrow> int" where
  "clamp_x x = (let x = (if x < 0 then 0 else x) in if 799 \<le> x then 799 else x)"

definition clamp_y :: "int \<Rightarrow> int" where
  "clamp_y y = (let y = (if y < 0 then 0 else y) in if 599 \<le> y then 599 else y)"

text \<open>\<open>int8_t x_rel = packet[1]\<close>, and \<open>y_rel = -y_rel\<close> stored back in 8 bits.\<close>

definition rel_x :: "u8 \<Rightarrow> int" where "rel_x b = sint b"
definition rel_y :: "u8 \<Rightarrow> int" where "rel_y b = sint (- b)"

definition mouse_data :: "u8 \<Rightarrow> mouse \<Rightarrow> mouse \<times> desktop_call list" where
  "mouse_data data m =
     (if cycle m = 0
      then if data AND 0x08 = 0 then (m, []) else (m\<lparr>packet0 := data, cycle := 1\<rparr>, [])
      else if cycle m = 1 then (m\<lparr>packet1 := data, cycle := 2\<rparr>, [])
      else let x = clamp_x (mouse_x m + rel_x (packet1 m));
               y = clamp_y (mouse_y m + rel_y data);
               left_button = (packet0 m AND 1 \<noteq> 0)
           in (m\<lparr>packet2 := data, cycle := 0, mouse_x := x, mouse_y := y\<rparr>,
               [MouseMove x y, if left_button then MouseDown 1 else MouseUp 1]))"

definition Mouse_HandleInterrupt :: "mouse \<Rightarrow> io \<Rightarrow> (mouse \<times> desktop_call list \<times> io) option" where
  "Mouse_HandleInterrupt m io = do {
     (status, io1) \<leftarrow> ReadPort CMD_PORT io;
     if status AND 0x20 = 0 then Some (m, [], io1)
     else do {
       (data, io2) \<leftarrow> ReadPort DATA_PORT io1;
       let (m', calls) = mouse_data data m;
       Some (m', calls, io2)
     }
   }"

fun mouse_run :: "u8 list \<Rightarrow> mouse \<Rightarrow> mouse \<times> desktop_call list" where
  "mouse_run [] m = (m, [])"
| "mouse_run (d # ds) m =
     (let (m1, c1) = mouse_data d m; (m2, c2) = mouse_run ds m1 in (m2, c1 @ c2))"

definition mouse_ok :: "mouse \<Rightarrow> bool" where
  "mouse_ok m \<longleftrightarrow> cycle m \<le> 2 \<and> 0 \<le> mouse_x m \<and> mouse_x m \<le> 799 \<and> 0 \<le> mouse_y m \<and> mouse_y m \<le> 599
     \<and> (cycle m \<noteq> 0 \<longrightarrow> packet0 m AND 0x08 \<noteq> 0)"

lemma clamp_x_range [simp]: "0 \<le> clamp_x x" "clamp_x x \<le> 799"
  by (auto simp: clamp_x_def Let_def)

lemma clamp_y_range [simp]: "0 \<le> clamp_y y" "clamp_y y \<le> 599"
  by (auto simp: clamp_y_def Let_def)

lemma mouse_data_ok: "mouse_ok m \<Longrightarrow> mouse_ok (fst (mouse_data d m))"
  by (auto simp: mouse_ok_def mouse_data_def Let_def)

lemma clamp_x_minmax: "clamp_x x = max 0 (min 799 x)"
  by (simp add: clamp_x_def Let_def)

lemma clamp_y_minmax: "clamp_y y = max 0 (min 599 y)"
  by (simp add: clamp_y_def Let_def)

definition call_ok :: "desktop_call \<Rightarrow> bool" where
  "call_ok c = (case c of MouseMove x y \<Rightarrow> 0 \<le> x \<and> x \<le> 799 \<and> 0 \<le> y \<and> y \<le> 599
     | MouseDown b \<Rightarrow> b = 1 | MouseUp b \<Rightarrow> b = 1)"

lemma mouse_data_calls: "\<forall>c \<in> set (snd (mouse_data d m)). call_ok c"
  by (auto simp: mouse_data_def call_ok_def Let_def)

lemma mouse_run_append:
  "mouse_run (as @ bs) m =
     (let (m1, c1) = mouse_run as m; (m2, c2) = mouse_run bs m1 in (m2, c1 @ c2))"
  by (induction as arbitrary: m) (auto simp: Let_def split: prod.splits)

lemma mouse_run_skip:
  "cycle m = 0 \<Longrightarrow> \<forall>d \<in> set junk. d AND 0x08 = 0 \<Longrightarrow> mouse_run (junk @ ds) m = mouse_run ds m"
  by (induction junk) (simp_all add: mouse_data_def)

text \<open>Whatever bytes arrive, the decoder stays in one of its three phases with a synchronised
  first byte, the position stays on the 800 by 600 screen, and every call it makes into the
  desktop carries a position on the screen or the left button.\<close>

theorem mouse_run_invariant:
  assumes "mouse_ok m"
  shows "mouse_ok (fst (mouse_run ds m)) \<and> (\<forall>c \<in> set (snd (mouse_run ds m)). call_ok c)"
  using assms
proof (induction ds arbitrary: m)
  case Nil
  then show ?case by simp
next
  case (Cons d ds)
  have "mouse_ok (fst (mouse_data d m))" by (rule mouse_data_ok [OF Cons.prems])
  from Cons.IH [OF this] mouse_data_calls [of d m] show ?case
    by (auto simp: Let_def split: prod.splits)
qed

theorem mouse_run_invariant_witness:
  "mouse_ok (fst (mouse_run [0x09, 0xFF, 0x05, 0x01, 0x08, 0x7F] mouse_start))"
proof -
  have "mouse_ok mouse_start" by (simp add: mouse_ok_def mouse_start_def)
  from mouse_run_invariant [OF this] show ?thesis by blast
qed

text \<open>Between packets, bytes without the sync bit are skipped; the next three bytes are one
  packet: the position moves by the signed deltas (right, and up for a positive y), clamped to the
  screen, and the desktop gets the move and then the state of the left button. This is right for
  every y byte but 0x80.\<close>

theorem mouse_packet_decoded:
  assumes "cycle m = 0" and "\<forall>d \<in> set junk. d AND 0x08 = 0" and "b0 AND 0x08 \<noteq> 0" and "b2 \<noteq> 0x80"
  shows "mouse_run (junk @ [b0, b1, b2]) m =
    (let x = max 0 (min 799 (mouse_x m + sint b1)); y = max 0 (min 599 (mouse_y m - sint b2))
     in (m\<lparr>packet0 := b0, packet1 := b1, packet2 := b2, cycle := 0, mouse_x := x, mouse_y := y\<rparr>,
         [MouseMove x y, if b0 AND 1 \<noteq> 0 then MouseDown 1 else MouseUp 1]))"
  using assms sint_u8_uminus [OF assms(4)]
  by (simp add: mouse_run_skip mouse_data_def Let_def clamp_x_minmax clamp_y_minmax rel_x_def rel_y_def)

theorem mouse_packet_decoded_witness:
  "snd (mouse_run [0x00, 0x09, 0xFE, 0x03] mouse_start) = [MouseMove 398 297, MouseDown 1]"
  using mouse_packet_decoded [of mouse_start "[0x00]" "0x09" "0x03" "0xFE"]
  by (simp add: mouse_start_def Let_def)

text \<open>The y delta 0x80 (-128, downwards) is negated in 8 bits, which gives -128 again: the
  pointer moves 128 pixels up where the packet says 128 down.\<close>

theorem mouse_delta_minus_128:
  assumes "cycle m = 0" and "b0 AND 0x08 \<noteq> 0"
  shows "sint (0x80 :: u8) = - 128
    \<and> mouse_y (fst (mouse_run [b0, b1, 0x80] m)) = max 0 (min 599 (mouse_y m - 128))"
  using assms by (simp add: mouse_data_def Let_def clamp_y_minmax rel_y_def)

theorem mouse_delta_minus_128_witness:
  "mouse_y (fst (mouse_run [0x08, 0, 0x80] mouse_start)) = 172"
  using mouse_delta_minus_128 [of mouse_start "0x08" 0] by (simp add: mouse_start_def)

end
