(* ===== verification/Desktop.thy ===== *)
theory Desktop
  imports Console LineEditor InputDrivers
begin

text \<open>
  The desktop, src/core/gui/desktop.cpp and window.h, and the drawing half of TerminalWindow.cpp:
  the list of windows, focus, dragging, the Start menu, the keys it hands to the active window, and
  \<open>Draw\<close>, which repaints everything. A window pointer is an index into the list of window objects;
  a window is plain or a terminal with its shell. The kernel's statics that the window code also
  uses (the file system with the heap, the ports, the registry) are the desktop's, and are handed
  to the shell for the time of a call.
\<close>

section \<open>Windows\<close>

record window =
  win_x :: int
  win_y :: int
  win_width :: int
  win_height :: int
  win_title :: "char list"
  win_shell :: "shell option"

text \<open>\<open>for (i = 0; i < 31 && t[i]; i++) title[i] = t[i]; title[31] = 0\<close> on the 32 bytes \<open>raw\<close> that
  the new object's memory held.\<close>

definition init_title :: "char list \<Rightarrow> string \<Rightarrow> char list" where
  "init_title raw t = (let n = min 31 (length t) in (take n t @ drop n raw)[31 := NUL])"

definition new_window :: "char list \<Rightarrow> int \<Rightarrow> int \<Rightarrow> int \<Rightarrow> int \<Rightarrow> string \<Rightarrow> window" where
  "new_window raw x y w h t = \<lparr>win_x = x, win_y = y, win_width = w, win_height = h,
     win_title = init_title raw t, win_shell = None\<rparr>"

record desktop =
  objects :: "window list"
  windows :: "nat list"
  active_window :: "nat option"
  dt_mouse_x :: int
  dt_mouse_y :: int
  show_start_menu :: bool
  drag_window :: "nat option"
  drag_offset_x :: int
  drag_offset_y :: int
  ctrl_pressed :: bool
  dt_con :: console
  dt_io :: io
  dt_fs :: ext4
  dt_cmds :: registry

definition get_window :: "desktop \<Rightarrow> nat \<Rightarrow> window option" where
  "get_window d p = arr_get (objects d) (int p)"

definition set_window :: "nat \<Rightarrow> window \<Rightarrow> desktop \<Rightarrow> desktop" where
  "set_window p w d = d\<lparr>objects := (objects d)[p := w]\<rparr>"

section \<open>Drawing\<close>

definition DrawRect :: "int \<Rightarrow> int \<Rightarrow> int \<Rightarrow> int \<Rightarrow> u32 \<Rightarrow> console \<Rightarrow> console option" where
  "DrawRect x y w h col = for_loop (nat h) (\<lambda>j. for_loop (nat w) (\<lambda>i. PutPixel (x + int i) (y + int j) col))"

definition DrawButton :: "int \<Rightarrow> int \<Rightarrow> int \<Rightarrow> int \<Rightarrow> string \<Rightarrow> bool \<Rightarrow> console \<Rightarrow> console option" where
  "DrawButton x y w h t pressed c =
     (let (light, shadow) = (if pressed then (0x404040, 0xFFFFFF) else (0xFFFFFF, 0x404040)) in
      DrawRect x y w h 0xC0C0C0 c \<bind> DrawRect x y (w - 1) 1 light \<bind> DrawRect x y 1 (h - 1) light
        \<bind> DrawRect x (y + h - 1) w 1 shadow \<bind> DrawRect (x + w - 1) y 1 h shadow
        \<bind> PutStringAt t (x + 10) (y + 8) 0x000000)"

text \<open>\<open>Window::DrawContent\<close> and \<open>TerminalWindow::DrawContent\<close>.\<close>

definition draw_plain :: "window \<Rightarrow> console \<Rightarrow> console option" where
  "draw_plain w = for_loop (nat (win_height w - 20)) (\<lambda>j. for_loop (nat (win_width w)) (\<lambda>i.
     PutPixel (win_x w + int i) (win_y w + 20 + int j) 0xFFFFFF))"

definition draw_cell :: "window \<Rightarrow> terminal \<Rightarrow> nat \<Rightarrow> nat \<Rightarrow> console \<Rightarrow> console option" where
  "draw_cell w t r k c = do {
     row \<leftarrow> arr_get (buffer t) (int r); ch \<leftarrow> arr_get row (int k);
     colours \<leftarrow> arr_get (color_buffer t) (int r); col \<leftarrow> arr_get colours (int k);
     Console_PutChar (if ch = NUL then CHR '' '' else ch) col
       (word_of_int (win_x w + 5 + int k * 8)) (word_of_int (win_y w + 25 + int r * 10)) c
   }"

definition draw_terminal :: "window \<Rightarrow> terminal \<Rightarrow> console \<Rightarrow> console option" where
  "draw_terminal w t c = do {
     c1 \<leftarrow> for_loop 25 (\<lambda>r. for_loop 60 (draw_cell w t r)) c;
     let cx = win_x w + 5 + cursor_col t * 8;
     let cy = win_y w + 25 + cursor_row t * 10;
     for_loop 10 (\<lambda>h. PutPixel cx (cy + int h) 0x000000) c1
   }"

definition draw_content :: "window \<Rightarrow> console \<Rightarrow> console option" where
  "draw_content w = (case win_shell w of None \<Rightarrow> draw_plain w | Some s \<Rightarrow> draw_terminal w (sh_tm s))"

definition draw_window :: "bool \<Rightarrow> window \<Rightarrow> console \<Rightarrow> console option" where
  "draw_window active w c =
     DrawRect (win_x w - 1) (win_y w - 1) (win_width w + 2) (win_height w + 2) 0xC0C0C0 c
     \<bind> DrawRect (win_x w) (win_y w) (win_width w) 20 (if active then 0x000080 else 0x808080)
     \<bind> Console_PutChar CHR ''X'' 0xFFFFFF (word_of_int (win_x w + win_width w - 15)) (word_of_int (win_y w + 5))
     \<bind> PutStringAt (cstr (win_title w)) (win_x w + 5) (win_y w + 6) 0xFFFFFF
     \<bind> DrawRect (win_x w) (win_y w + 20) (win_width w) (win_height w - 20) 0xFFFFFF
     \<bind> draw_content w"

fun draw_windows :: "nat list \<Rightarrow> desktop \<Rightarrow> console \<Rightarrow> console option" where
  "draw_windows [] d c = Some c"
| "draw_windows (p # ps) d c = do {
     w \<leftarrow> get_window d p;
     c1 \<leftarrow> draw_window (active_window d = Some p) w c;
     draw_windows ps d c1
   }"

definition taskbar_y :: int where "taskbar_y = 600 - 40"

definition draw_taskbar :: "bool \<Rightarrow> console \<Rightarrow> console option" where
  "draw_taskbar menu c =
     DrawRect 0 taskbar_y 800 40 0xC0C0C0 c \<bind> DrawRect 0 taskbar_y 800 2 0xFFFFFF
       \<bind> DrawButton 5 (taskbar_y + 5) 80 30 ''Start'' menu"

definition draw_clock :: "u8 \<Rightarrow> u8 \<Rightarrow> console \<Rightarrow> console option" where
  "draw_clock h m c =
     DrawRect (800 - 80) (taskbar_y + 5) 70 30 0x000000 c
       \<bind> PutStringAt (two_digits h @ '':'' @ two_digits m) (800 - 70) (taskbar_y + 11) 0x00FF00"

definition draw_menu :: "bool \<Rightarrow> console \<Rightarrow> console option" where
  "draw_menu menu c =
     (if menu then
        (let menu_y = taskbar_y - 150 in
         DrawRect 0 menu_y 150 150 0xC0C0C0 c \<bind> DrawRect 2 (menu_y + 2) 146 146 0xFFFFFF
           \<bind> DrawRect 2 (menu_y + 2) 20 146 0x000080 \<bind> PutStringAt ''Shutdown'' 30 (menu_y + 120) 0x000000)
      else Some c)"

definition Desktop_Draw :: "desktop \<Rightarrow> desktop option" where
  "Desktop_Draw d = do {
     c \<leftarrow> Console_Clear 0x008080 (dt_con d);
     c \<leftarrow> draw_windows (windows d) d c;
     c \<leftarrow> draw_taskbar (show_start_menu d) c;
     (h, io1) \<leftarrow> RTC_GetHour (dt_io d);
     (m, io2) \<leftarrow> RTC_GetMinute io1;
     c \<leftarrow> draw_clock h m c;
     c \<leftarrow> draw_menu (show_start_menu d) c;
     c \<leftarrow> DrawCursor (dt_mouse_x d) (dt_mouse_y d) c;
     c \<leftarrow> Swap c;
     Some (d\<lparr>dt_con := c, dt_io := io2\<rparr>)
   }"

section \<open>Windows and the mouse\<close>

definition AddWindow :: "nat \<Rightarrow> desktop \<Rightarrow> desktop" where
  "AddWindow p d =
     (let d1 = (if length (windows d) < 10 then d\<lparr>windows := windows d @ [p]\<rparr> else d)
      in d1\<lparr>active_window := Some p\<rparr>)"

definition window_hit :: "int \<Rightarrow> int \<Rightarrow> window \<Rightarrow> bool" where
  "window_hit mx my w \<longleftrightarrow> win_x w \<le> mx \<and> mx < win_x w + win_width w \<and> win_y w \<le> my \<and> my < win_y w + win_height w"

text \<open>The loop over the windows, from the last one down; \<open>ps\<close> is the list in that order.\<close>

fun hit_scan :: "nat list \<Rightarrow> desktop \<Rightarrow> (nat \<times> window) option option" where
  "hit_scan [] d = Some None"
| "hit_scan (p # ps) d = do {
     w \<leftarrow> get_window d p;
     if window_hit (dt_mouse_x d) (dt_mouse_y d) w then Some (Some (p, w)) else hit_scan ps d
   }"

definition OnMouseDown :: "int \<Rightarrow> desktop \<Rightarrow> desktop option" where
  "OnMouseDown btn d =
     (if btn = 1 then
        if 560 < dt_mouse_y d \<and> dt_mouse_x d < 90 then Desktop_Draw (d\<lparr>show_start_menu := \<not> show_start_menu d\<rparr>)
        else do {
          r \<leftarrow> hit_scan (rev (windows d)) d;
          case r of
            None \<Rightarrow> Some d
          | Some (p, w) \<Rightarrow>
              (let d1 = d\<lparr>active_window := Some p\<rparr>;
                   d2 = (if dt_mouse_y d < win_y w + 20
                         then d1\<lparr>drag_window := Some p, drag_offset_x := dt_mouse_x d - win_x w,
                                drag_offset_y := dt_mouse_y d - win_y w\<rparr>
                         else d1)
               in Desktop_Draw d2)
        }
      else Some d)"

definition OnMouseUp :: "int \<Rightarrow> desktop \<Rightarrow> desktop" where
  "OnMouseUp btn d = d\<lparr>drag_window := None\<rparr>"

definition OnMouseMove :: "int \<Rightarrow> int \<Rightarrow> desktop \<Rightarrow> desktop option" where
  "OnMouseMove x y d =
     (let d1 = d\<lparr>dt_mouse_x := x, dt_mouse_y := y\<rparr> in
      case drag_window d1 of
        Some p \<Rightarrow> do {
          w \<leftarrow> get_window d1 p;
          Desktop_Draw (set_window p (w\<lparr>win_x := x - drag_offset_x d1, win_y := y - drag_offset_y d1\<rparr>) d1)
        }
      | None \<Rightarrow> Desktop_Draw d1)"

section \<open>Keys\<close>

definition IsCtrlPressed :: "desktop \<Rightarrow> bool" where
  "IsCtrlPressed d = ctrl_pressed d"

definition OnKeyUp :: "int \<Rightarrow> desktop \<Rightarrow> desktop" where
  "OnKeyUp scancode d = (if scancode = 0x1D then d\<lparr>ctrl_pressed := False\<rparr> else d)"

text \<open>The active window's virtual \<open>OnKeyDown\<close>: a plain window ignores the key. What the file system
  printed meanwhile goes to the console.\<close>

definition lend :: "desktop \<Rightarrow> shell \<Rightarrow> shell" where
  "lend d s = s\<lparr>sh_fs := dt_fs d, sh_io := dt_io d, cmds := dt_cmds d\<rparr>"

definition take_back :: "nat \<Rightarrow> window \<Rightarrow> shell \<Rightarrow> desktop \<Rightarrow> desktop option" where
  "take_back p w s d = do {
     c \<leftarrow> Console_Print (concat (drop (length (e_log (dt_fs d))) (e_log (sh_fs s)))) (dt_con d);
     Some (set_window p (w\<lparr>win_shell := Some s\<rparr>) (d\<lparr>dt_con := c, dt_fs := sh_fs s, dt_io := sh_io s, dt_cmds := cmds s\<rparr>))
   }"

definition window_key :: "nat \<Rightarrow> nat \<Rightarrow> int \<Rightarrow> char \<Rightarrow> desktop \<Rightarrow> desktop option" where
  "window_key n p scancode ascii d = do {
     w \<leftarrow> get_window d p;
     case win_shell w of
       None \<Rightarrow> Some d
     | Some s \<Rightarrow> do {
         s' \<leftarrow> TW_OnKeyDown n (IsCtrlPressed d) scancode ascii (lend d s);
         take_back p w s' d
       }
   }"

definition OnKeyDown :: "nat \<Rightarrow> int \<Rightarrow> desktop \<Rightarrow> desktop option" where
  "OnKeyDown n scancode d =
     (if scancode = 0x1D then Some (d\<lparr>ctrl_pressed := True\<rparr>)
      else case active_window d of
        None \<Rightarrow> Some d
      | Some p \<Rightarrow> window_key n p scancode (ScancodeToAscii (word_of_int scancode)) d \<bind> Desktop_Draw)"

section \<open>Starting\<close>

text \<open>\<open>sizes\<close> are \<open>sizeof(TerminalWindow)\<close> and \<open>sizeof(Shell)\<close>, which the compiler's layout decides;
  the \<open>raw\<close> arguments are what the memory of the new blocks held.\<close>

definition Desktop_Init :: "u32 \<times> u32 \<Rightarrow> u32 list \<Rightarrow> char list \<Rightarrow> terminal \<Rightarrow> string \<Rightarrow> string \<Rightarrow> desktop \<Rightarrow> desktop option" where
  "Desktop_Init sizes raw_buffer raw_title raw_terminal date time d = do {
     let (c, h) = InitDoubleBuffer raw_buffer (e_heap (dt_fs d)) (dt_con d);
     let d = d\<lparr>dt_con := c, windows := [], active_window := None\<rparr>;
     f \<leftarrow> ext4_alloc (fst sizes) ((dt_fs d)\<lparr>e_heap := h\<rparr>);
     let w = new_window raw_title 150 100 400 300 ''Terminal'';
     f \<leftarrow> ext4_alloc (snd sizes) f;
     s \<leftarrow> new_terminal_window raw_terminal f (dt_io d) date time;
     let p = length (objects d);
     let d = d\<lparr>objects := objects d @ [w\<lparr>win_shell := Some s\<rparr>], dt_fs := sh_fs s, dt_io := sh_io s, dt_cmds := cmds s\<rparr>;
     Desktop_Draw (AddWindow p d)
   }"

section \<open>The painter's model\<close>

definition rect_picture :: "int \<Rightarrow> int \<Rightarrow> int \<Rightarrow> int \<Rightarrow> u32 \<Rightarrow> picture" where
  "rect_picture x y w h col = boxed x y w h (\<lambda>j i. Some col)"

lemma boxed_nat: "boxed x y (int (nat w)) (int (nat h)) f = boxed x y w h f"
  by (auto simp: boxed_def fun_eq_iff)

lemma paints_DrawRect [intro!]: "paints c0 (DrawRect x y w h col) (rect_picture x y w h col)"
proof -
  have "paints c0 (DrawRect x y w h col) (boxed x y (int (nat w)) (int (nat h)) (\<lambda>j i. Some col))"
    unfolding DrawRect_def by (rule paints_box) (simp add: paints_PutPixel)
  then show ?thesis by (simp only: boxed_nat rect_picture_def)
qed

definition near :: "int \<Rightarrow> bool" where
  "near x \<longleftrightarrow> - (2 ^ 22) \<le> x \<and> x \<le> 2 ^ 22"

lemma paints_text [intro]:
  "near x \<Longrightarrow> near y \<Longrightarrow> length s < 1000 \<Longrightarrow> paints c0 (PutStringAt s x y col) (string_picture s col x y)"
  by (rule paints_PutStringAt) (auto simp: near_def)

lemma paints_glyph [intro]:
  "near x \<Longrightarrow> near y \<Longrightarrow> paints c0 (Console_PutChar ch col (word_of_int x) (word_of_int y)) (glyph_picture ch col x y)"
  by (rule paints_PutChar) (auto simp: near_def)

definition button_picture :: "int \<Rightarrow> int \<Rightarrow> int \<Rightarrow> int \<Rightarrow> string \<Rightarrow> bool \<Rightarrow> picture" where
  "button_picture x y w h t pressed =
     (let (light, shadow) = (if pressed then (0x404040, 0xFFFFFF) else (0xFFFFFF, 0x404040)) in
      rect_picture x y w h 0xC0C0C0 ++ rect_picture x y (w - 1) 1 light ++ rect_picture x y 1 (h - 1) light
        ++ rect_picture x (y + h - 1) w 1 shadow ++ rect_picture (x + w - 1) y 1 h shadow
        ++ string_picture t 0x000000 (x + 10) (y + 8))"

lemma paints_DrawButton:
  "near (x + 10) \<Longrightarrow> near (y + 8) \<Longrightarrow> length t < 1000 \<Longrightarrow>
   paints c0 (DrawButton x y w h t pressed) (button_picture x y w h t pressed)"
  unfolding DrawButton_def [abs_def] button_picture_def
  by (cases pressed) (simp_all only: if_True if_False Let_def prod.case, (intro paints_bind paints_DrawRect paints_text; assumption)+)

definition plain_picture :: "window \<Rightarrow> picture" where
  "plain_picture w = rect_picture (win_x w) (win_y w + 20) (win_width w) (win_height w - 20) 0xFFFFFF"

lemma paints_draw_plain: "paints c0 (draw_plain w) (plain_picture w)"
proof -
  have "draw_plain w = DrawRect (win_x w) (win_y w + 20) (win_width w) (win_height w - 20) 0xFFFFFF"
    by (simp add: draw_plain_def DrawRect_def)
  then show ?thesis by (simp only: plain_picture_def) (rule paints_DrawRect)
qed

text \<open>The text of a terminal, cell by cell, and its cursor bar.\<close>

definition cell_picture :: "window \<Rightarrow> terminal \<Rightarrow> nat \<Rightarrow> nat \<Rightarrow> picture" where
  "cell_picture w t r k = (let ch = buffer t ! r ! k in
     glyph_picture (if ch = NUL then CHR '' '' else ch) (color_buffer t ! r ! k)
       (win_x w + 5 + int k * 8) (win_y w + 25 + int r * 10))"

definition terminal_picture :: "window \<Rightarrow> terminal \<Rightarrow> picture" where
  "terminal_picture w t = layers 25 (\<lambda>r. layers 60 (cell_picture w t r))
     ++ layers 10 (\<lambda>h. [(win_x w + 5 + cursor_col t * 8, win_y w + 25 + cursor_row t * 10 + int h) \<mapsto> 0x000000])"

definition window_near :: "window \<Rightarrow> bool" where
  "window_near w \<longleftrightarrow> - (2 ^ 20) \<le> win_x w \<and> win_x w \<le> 2 ^ 20 \<and> - (2 ^ 20) \<le> win_y w \<and> win_y w \<le> 2 ^ 20
     \<and> 0 \<le> win_width w \<and> win_width w \<le> 2 ^ 20 \<and> 0 \<le> win_height w \<and> win_height w \<le> 2 ^ 20"

lemma paints_draw_terminal:
  assumes "window_near w" "term_ok t"
  shows "paints c0 (draw_terminal w t) (terminal_picture w t)"
proof -
  have cell: "paints c0 (draw_cell w t r k) (cell_picture w t r k)" if "r < 25" "k < 60" for r k
  proof -
    have "arr_get (buffer t) (int r) = Some (buffer t ! r)" "arr_get (color_buffer t) (int r) = Some (color_buffer t ! r)"
      using assms(2) that by (simp_all add: term_ok_def arr_get_def)
    moreover have "arr_get (buffer t ! r) (int k) = Some (buffer t ! r ! k)"
      "arr_get (color_buffer t ! r) (int k) = Some (color_buffer t ! r ! k)"
      using assms(2) that by (simp_all add: term_ok_def arr_get_def)
    ultimately have "draw_cell w t r k = Console_PutChar (if buffer t ! r ! k = NUL then CHR '' '' else buffer t ! r ! k)
        (color_buffer t ! r ! k) (word_of_int (win_x w + 5 + int k * 8)) (word_of_int (win_y w + 25 + int r * 10))"
      by (intro ext) (simp add: draw_cell_def)
    moreover have "near (win_x w + 5 + int k * 8)" "near (win_y w + 25 + int r * 10)"
      using assms(1) that by (auto simp: window_near_def near_def)
    ultimately show ?thesis unfolding cell_picture_def Let_def by (simp only: ) (rule paints_glyph)
  qed
  have "paints c0 (for_loop 25 (\<lambda>r. for_loop 60 (draw_cell w t r))) (layers 25 (\<lambda>r. layers 60 (cell_picture w t r)))"
    by (intro paints_for_loop) (rule cell)
  moreover have "paints c0 (for_loop 10 (\<lambda>h. PutPixel (win_x w + 5 + cursor_col t * 8) (win_y w + 25 + cursor_row t * 10 + int h) 0x000000))
      (layers 10 (\<lambda>h. [(win_x w + 5 + cursor_col t * 8, win_y w + 25 + cursor_row t * 10 + int h) \<mapsto> 0x000000]))"
    by (intro paints_for_loop paints_PutPixel)
  ultimately show ?thesis unfolding draw_terminal_def [abs_def] terminal_picture_def Let_def by (rule paints_bind)
qed

definition content_picture :: "window \<Rightarrow> picture" where
  "content_picture w = (case win_shell w of None \<Rightarrow> plain_picture w | Some s \<Rightarrow> terminal_picture w (sh_tm s))"

definition window_picture :: "bool \<Rightarrow> window \<Rightarrow> picture" where
  "window_picture active w =
     rect_picture (win_x w - 1) (win_y w - 1) (win_width w + 2) (win_height w + 2) 0xC0C0C0
     ++ rect_picture (win_x w) (win_y w) (win_width w) 20 (if active then 0x000080 else 0x808080)
     ++ glyph_picture CHR ''X'' 0xFFFFFF (win_x w + win_width w - 15) (win_y w + 5)
     ++ string_picture (cstr (win_title w)) 0xFFFFFF (win_x w + 5) (win_y w + 6)
     ++ rect_picture (win_x w) (win_y w + 20) (win_width w) (win_height w - 20) 0xFFFFFF
     ++ content_picture w"

definition window_ok :: "window \<Rightarrow> bool" where
  "window_ok w \<longleftrightarrow> window_near w \<and> length (win_title w) = 32
     \<and> (case win_shell w of None \<Rightarrow> True | Some s \<Rightarrow> term_ok (sh_tm s))"

lemma paints_draw_window:
  assumes "window_ok w"
  shows "paints c0 (draw_window active w) (window_picture active w)"
proof -
  have "paints c0 (draw_content w) (content_picture w)"
  proof (cases "win_shell w")
    case None
    then have "draw_content w = draw_plain w" by (simp add: draw_content_def)
    then show ?thesis using None by (simp only: content_picture_def option.case paints_draw_plain)
  next
    case (Some s)
    then have "draw_content w = draw_terminal w (sh_tm s)" by (simp add: draw_content_def)
    then show ?thesis using Some assms by (simp add: content_picture_def window_ok_def paints_draw_terminal)
  qed
  moreover have "near (win_x w + win_width w - 15)" "near (win_y w + 5)" "near (win_x w + 5)" "near (win_y w + 6)"
    using assms by (auto simp: window_ok_def window_near_def near_def)
  moreover have "length (cstr (win_title w)) < 1000"
    using cstr_length_le [of "win_title w"] assms by (simp add: window_ok_def)
  ultimately show ?thesis
    unfolding draw_window_def [abs_def] window_picture_def
    by (intro paints_bind paints_DrawRect paints_glyph paints_text)
qed

text \<open>The scene: the windows in the order of the list, then the task bar, the clock and the menu.\<close>

fun windows_picture :: "nat list \<Rightarrow> desktop \<Rightarrow> picture" where
  "windows_picture [] d = Map.empty"
| "windows_picture (p # ps) d = window_picture (active_window d = Some p) (objects d ! p) ++ windows_picture ps d"

definition taskbar_picture :: "bool \<Rightarrow> picture" where
  "taskbar_picture menu = rect_picture 0 taskbar_y 800 40 0xC0C0C0 ++ rect_picture 0 taskbar_y 800 2 0xFFFFFF
     ++ button_picture 5 (taskbar_y + 5) 80 30 ''Start'' menu"

definition clock_picture :: "u8 \<Rightarrow> u8 \<Rightarrow> picture" where
  "clock_picture h m = rect_picture (800 - 80) (taskbar_y + 5) 70 30 0x000000
     ++ string_picture (two_digits h @ '':'' @ two_digits m) 0x00FF00 (800 - 70) (taskbar_y + 11)"

definition menu_picture :: "bool \<Rightarrow> picture" where
  "menu_picture menu = (if menu then
     rect_picture 0 (taskbar_y - 150) 150 150 0xC0C0C0 ++ rect_picture 2 (taskbar_y - 150 + 2) 146 146 0xFFFFFF
       ++ rect_picture 2 (taskbar_y - 150 + 2) 20 146 0x000080
       ++ string_picture ''Shutdown'' 0x000000 30 (taskbar_y - 150 + 120) else Map.empty)"

definition scene :: "desktop \<Rightarrow> u8 \<Rightarrow> u8 \<Rightarrow> picture" where
  "scene d h m = windows_picture (windows d) d ++ taskbar_picture (show_start_menu d) ++ clock_picture h m
     ++ menu_picture (show_start_menu d)"

lemma paints_draw_windows:
  "(\<forall>p \<in> set ps. p < length (objects d) \<and> window_ok (objects d ! p)) \<Longrightarrow>
   paints c0 (draw_windows ps d) (windows_picture ps d)"
proof (induction ps)
  case Nil
  have "draw_windows [] d = Some" by (rule ext) simp
  then show ?case by (simp add: paints_none)
next
  case (Cons p ps)
  then have w: "get_window d p = Some (objects d ! p)" "window_ok (objects d ! p)"
    by (simp_all add: get_window_def arr_get_def)
  then have eq: "draw_windows (p # ps) d
      = (\<lambda>c. draw_window (active_window d = Some p) (objects d ! p) c \<bind> draw_windows ps d)"
    by (intro ext) simp
  show ?case unfolding eq windows_picture.simps
    using Cons w(2) by (intro paints_bind paints_draw_window Cons.IH) simp_all
qed

lemma near_numerals: "near 30" "near (taskbar_y + 5 + 8)" "near (5 + 10)" "near (800 - 70)" "near (taskbar_y + 11)"
  "near (taskbar_y - 150 + 120)"
  by (simp_all add: near_def taskbar_y_def)

lemma paints_draw_taskbar: "paints c0 (draw_taskbar menu) (taskbar_picture menu)"
  unfolding draw_taskbar_def [abs_def] taskbar_picture_def
  by (intro paints_bind paints_DrawRect paints_DrawButton near_numerals) simp

lemma paints_draw_clock: "paints c0 (draw_clock h m) (clock_picture h m)"
  unfolding draw_clock_def [abs_def] clock_picture_def
  by (intro paints_bind paints_DrawRect paints_text near_numerals) (simp add: two_digits_def)

lemma paints_draw_menu: "paints c0 (draw_menu menu) (menu_picture menu)"
proof (cases menu)
  case True
  have "paints c0 (\<lambda>c. DrawRect 0 (taskbar_y - 150) 150 150 0xC0C0C0 c \<bind> DrawRect 2 (taskbar_y - 150 + 2) 146 146 0xFFFFFF
           \<bind> DrawRect 2 (taskbar_y - 150 + 2) 20 146 0x000080 \<bind> PutStringAt ''Shutdown'' 30 (taskbar_y - 150 + 120) 0x000000)
     (rect_picture 0 (taskbar_y - 150) 150 150 0xC0C0C0 ++ rect_picture 2 (taskbar_y - 150 + 2) 146 146 0xFFFFFF
       ++ rect_picture 2 (taskbar_y - 150 + 2) 20 146 0x000080 ++ string_picture ''Shutdown'' 0x000000 30 (taskbar_y - 150 + 120))"
    by (intro paints_bind paints_DrawRect paints_text near_numerals) simp
  then show ?thesis using True by (simp add: draw_menu_def [abs_def] menu_picture_def Let_def)
next
  case False
  then show ?thesis by (simp add: draw_menu_def [abs_def] menu_picture_def paints_none)
qed

section \<open>Invariant\<close>

definition desktop_ok :: "desktop \<Rightarrow> bool" where
  "desktop_ok d \<longleftrightarrow> con_ok (dt_con d) \<and> unat (screen_size (dt_con d)) \<le> length (framebuffer (dt_con d))
     \<and> length (windows d) \<le> 10 \<and> (\<forall>p \<in> set (windows d). p < length (objects d))
     \<and> (\<forall>w \<in> set (objects d). window_ok w)
     \<and> (\<forall>p. active_window d = Some p \<longrightarrow> p < length (objects d))
     \<and> (\<forall>p. drag_window d = Some p \<longrightarrow> p < length (objects d))
     \<and> 0 \<le> dt_mouse_x d \<and> dt_mouse_x d \<le> 799 \<and> 0 \<le> dt_mouse_y d \<and> dt_mouse_y d \<le> 599
     \<and> 0 \<le> drag_offset_x d \<and> drag_offset_x d < 2 ^ 20 \<and> 0 \<le> drag_offset_y d \<and> drag_offset_y d < 2 ^ 20"

text \<open>Everything of the desktop that \<open>Draw\<close> does not touch: all but the console and the ports.\<close>

definition same_desktop :: "desktop \<Rightarrow> desktop \<Rightarrow> bool" where
  "same_desktop d e \<longleftrightarrow> e = d\<lparr>dt_con := dt_con e, dt_io := dt_io e\<rparr>"

text \<open>The frame: what the monitor is to show after the painter's model, where the pixels saved under
  the old pointer come back between the scene and the new pointer.\<close>

definition frame_pixel :: "desktop \<Rightarrow> u8 \<Rightarrow> u8 \<Rightarrow> int \<times> int \<Rightarrow> u32" where
  "frame_pixel d h m p = the (([p \<mapsto> 0x008080] ++ scene d h m ++ saved_picture (dt_con d)
     ++ pointer_picture (dt_mouse_x d) (dt_mouse_y d)) p)"

lemma map_add_case: "(f ++ g) p = (case g p of Some v \<Rightarrow> Some v | None \<Rightarrow> f p)"
  by (simp add: map_add_def split: option.split)

lemma Draw_spec:
  assumes ok: "desktop_ok d" and h: "RTC_GetHour (dt_io d) = Some (h, io1)" and m: "RTC_GetMinute io1 = Some (m, io2)"
  shows "\<exists>e. Desktop_Draw d = Some e \<and> desktop_ok e \<and> same_desktop d e \<and> dt_io e = io2
    \<and> (\<forall>p. on_screen (dt_con d) p \<longrightarrow> monitor (dt_con e) p = frame_pixel d h m p)"
proof -
  let ?c = "dt_con d"
  have okc: "con_ok ?c" using ok by (simp add: desktop_ok_def)
  obtain c1 where c1: "Console_Clear 0x008080 ?c = Some c1" "drawn (?c\<lparr>cursor_x := 0, cursor_y := 0\<rparr>) c1"
    "\<forall>p. on_screen ?c p \<longrightarrow> screen c1 p = 0x008080" using Clear_spec [OF okc] by blast
  define draw where "draw = (\<lambda>c. draw_windows (windows d) d c \<bind> draw_taskbar (show_start_menu d)
    \<bind> draw_clock h m \<bind> draw_menu (show_start_menu d))"
  have wok: "\<forall>p \<in> set (windows d). p < length (objects d) \<and> window_ok (objects d ! p)"
    using ok by (auto simp: desktop_ok_def)
  have "paints c1 draw (scene d h m)" unfolding draw_def scene_def
    by (intro paints_bind paints_draw_windows paints_draw_taskbar paints_draw_clock paints_draw_menu wok)
  from paintsE [OF this drawn_refl [OF drawn_ok [OF c1(2)]]] obtain c2 where c2: "draw c1 = Some c2" "drawn c1 c2"
    "\<And>p. on_screen c1 p \<Longrightarrow> screen c2 p = (case scene d h m p of Some v \<Rightarrow> v | None \<Rightarrow> screen c1 p)" by blast
  from DrawCursor_spec [OF drawn_ok [OF c2(2)], of "dt_mouse_x d" "dt_mouse_y d"] obtain c3 where
    c3: "DrawCursor (dt_mouse_x d) (dt_mouse_y d) c2 = Some c3" "con_ok c3" "same_frame c2 c3"
    "\<forall>p. on_screen c2 p \<longrightarrow> screen c3 p = (case pointer_picture (dt_mouse_x d) (dt_mouse_y d) p of Some v \<Rightarrow> v | None \<Rightarrow> background c2 p)"
    by blast
  have frame: "same_frame (?c\<lparr>cursor_x := 0, cursor_y := 0\<rparr>) c3"
    using c1(2) c2(2) c3(3) by (auto simp: drawn_def same_frame_def)
  have dims: "screen_width c3 = screen_width ?c" "screen_height c3 = screen_height ?c"
    "back_buf c3 = Front \<longleftrightarrow> back_buf ?c = Front" "back_buf ?c \<noteq> Front \<Longrightarrow> framebuffer c3 = framebuffer ?c"
    using frame by (simp_all add: same_frame_def)
  have on: "on_screen c1 p = on_screen ?c p" "on_screen c2 p = on_screen ?c p" "on_screen c3 p = on_screen ?c p" for p
    using c1(2) c2(2) dims(1,2) by (cases p; simp add: on_screen_def drawn_def)+
  have fb: "unat (screen_size c3) \<le> length (framebuffer c3)"
  proof (cases "back_buf c3 = Front")
    case True
    then have "draw_buffer c3 = Some (framebuffer c3)" by (simp add: draw_buffer_def)
    with c3(2) show ?thesis by (auto simp: con_ok_def unat_le_int screen_size_uint [OF c3(2)])
  next
    case False
    then show ?thesis using ok dims by (simp add: desktop_ok_def screen_size_def)
  qed
  from Swap_spec [OF c3(2) fb] obtain c4 f where c4: "Swap c3 = Some c4" "con_ok c4"
    "\<forall>p. on_screen c3 p \<longrightarrow> monitor c4 p = screen c3 p \<and> screen c4 p = screen c3 p"
    "c4 = c3\<lparr>framebuffer := f\<rparr>" "length f = length (framebuffer c3)" by blast
  from c2(1) obtain a1 a2 a3 where a: "draw_windows (windows d) d c1 = Some a1" "draw_taskbar (show_start_menu d) a1 = Some a2"
    "draw_clock h m a2 = Some a3" "draw_menu (show_start_menu d) a3 = Some c2"
    by (auto simp: draw_def bind_eq_Some_conv)
  define e where "e = d\<lparr>dt_con := c4, dt_io := io2\<rparr>"
  have call: "Desktop_Draw d = Some e"
    using c1(1) a h m c3(1) c4(1) by (simp add: Desktop_Draw_def e_def)
  have oke: "desktop_ok e"
    using ok c4(2,4,5) fb by (simp add: desktop_ok_def e_def screen_size_def)
  have "monitor (dt_con e) p = frame_pixel d h m p" if p: "on_screen ?c p" for p
  proof -
    have s1: "screen c1 p = 0x008080" by (rule c1(3) [rule_format, OF p])
    have s2: "screen c2 p = (case scene d h m p of Some v \<Rightarrow> v | None \<Rightarrow> 0x008080)"
      using c2(3) [of p] p on s1 by (simp split: option.split)
    have saved: "saved_picture c2 = saved_picture ?c"
      using c1(2) c2(2) by (simp add: saved_picture_def drawn_def)
    have "monitor (dt_con e) p = screen c3 p" using c4(3) [rule_format, of p] p on by (simp add: e_def)
    also have "\<dots> = (case pointer_picture (dt_mouse_x d) (dt_mouse_y d) p of Some v \<Rightarrow> v | None \<Rightarrow> background c2 p)"
      using c3(4) [rule_format, of p] p on by simp
    also have "\<dots> = frame_pixel d h m p"
      by (simp add: frame_pixel_def map_add_case background_def saved s2 split: option.split)
    finally show ?thesis .
  qed
  then show ?thesis using call oke by (auto simp: same_desktop_def e_def)
qed

section \<open>The mouse's calls\<close>

fun do_call :: "desktop_call \<Rightarrow> desktop \<Rightarrow> desktop option" where
  "do_call (MouseMove x y) d = OnMouseMove x y d"
| "do_call (MouseDown b) d = OnMouseDown b d"
| "do_call (MouseUp b) d = Some (OnMouseUp b d)"

fun run_calls :: "desktop_call list \<Rightarrow> desktop \<Rightarrow> desktop option" where
  "run_calls [] d = Some d"
| "run_calls (c # cs) d = do_call c d \<bind> run_calls cs"

lemma run_calls_append: "run_calls (cs @ ds) d = run_calls cs d \<bind> run_calls ds"
proof (induction cs arbitrary: d)
  case (Cons c cs)
  then show ?case by (cases "do_call c d") simp_all
qed simp

text \<open>The clock answers \<open>Draw\<close> consumes: one for the hour, one for the minute.\<close>

definition ticks :: "desktop \<Rightarrow> nat" where
  "ticks d = length (answers (dt_io d))"

lemma RTC_Read_answers:
  "answers io \<noteq> [] \<Longrightarrow> \<exists>v io'. RTC_Read r io = Some (v, io') \<and> length (answers io') = length (answers io) - 1"
  by (cases "answers io") (simp_all add: RTC_Read_def port_defs)

lemma Draw_ok:
  assumes "desktop_ok d" "2 \<le> ticks d"
  shows "\<exists>e. Desktop_Draw d = Some e \<and> desktop_ok e \<and> same_desktop d e \<and> ticks e = ticks d - 2"
proof -
  have "answers (dt_io d) \<noteq> []" using assms(2) by (auto simp: ticks_def)
  from RTC_Read_answers [OF this, of 4] obtain h io1 where
    h: "RTC_GetHour (dt_io d) = Some (h, io1)" "length (answers io1) = ticks d - 1"
    by (auto simp: RTC_GetHour_def ticks_def)
  have "answers io1 \<noteq> []" using assms(2) h(2) by auto
  from RTC_Read_answers [OF this, of 2] obtain m io2 where
    m: "RTC_GetMinute io1 = Some (m, io2)" "length (answers io2) = ticks d - 2"
    using h(2) by (auto simp: RTC_GetMinute_def)
  from Draw_spec [OF assms(1) h(1) m(1)] m(2) show ?thesis by (auto simp: ticks_def)
qed

lemma same_desktop_fields:
  assumes "same_desktop d e"
  shows "objects e = objects d" "windows e = windows d" "active_window e = active_window d"
    "dt_mouse_x e = dt_mouse_x d" "dt_mouse_y e = dt_mouse_y d" "show_start_menu e = show_start_menu d"
    "drag_window e = drag_window d" "drag_offset_x e = drag_offset_x d" "drag_offset_y e = drag_offset_y d"
    "ctrl_pressed e = ctrl_pressed d" "dt_fs e = dt_fs d" "dt_cmds e = dt_cmds d"
proof -
  have e: "e = d\<lparr>dt_con := dt_con e, dt_io := dt_io e\<rparr>" using assms by (simp add: same_desktop_def)
  show "objects e = objects d" "windows e = windows d" "active_window e = active_window d"
    "dt_mouse_x e = dt_mouse_x d" "dt_mouse_y e = dt_mouse_y d" "show_start_menu e = show_start_menu d"
    "drag_window e = drag_window d" "drag_offset_x e = drag_offset_x d" "drag_offset_y e = drag_offset_y d"
    "ctrl_pressed e = ctrl_pressed d" "dt_fs e = dt_fs d" "dt_cmds e = dt_cmds d"
    by (subst e, simp)+
qed

definition top_hit :: "desktop \<Rightarrow> nat option" where
  "top_hit d = List.find (\<lambda>p. window_hit (dt_mouse_x d) (dt_mouse_y d) (objects d ! p)) (rev (windows d))"

lemma hit_scan_find:
  "(\<forall>p \<in> set ps. p < length (objects d)) \<Longrightarrow>
   hit_scan ps d = Some (map_option (\<lambda>p. (p, objects d ! p))
     (List.find (\<lambda>p. window_hit (dt_mouse_x d) (dt_mouse_y d) (objects d ! p)) ps))"
  by (induction ps) (auto simp: get_window_def arr_get_def)

lemma hit_scan_top:
  "desktop_ok d \<Longrightarrow> hit_scan (rev (windows d)) d = Some (map_option (\<lambda>p. (p, objects d ! p)) (top_hit d))"
  unfolding top_hit_def by (rule hit_scan_find) (auto simp: desktop_ok_def)

lemma top_hitD:
  "top_hit d = Some p \<Longrightarrow> p \<in> set (windows d) \<and> window_hit (dt_mouse_x d) (dt_mouse_y d) (objects d ! p)"
  by (auto simp: top_hit_def find_Some_iff rev_nth)

text \<open>The effect of the three mouse operations on everything but the picture.\<close>

definition on_start_button :: "desktop \<Rightarrow> bool" where
  "on_start_button d \<longleftrightarrow> 560 < dt_mouse_y d \<and> dt_mouse_x d < 90"

definition press :: "desktop \<Rightarrow> desktop" where
  "press d = (if on_start_button d then d\<lparr>show_start_menu := \<not> show_start_menu d\<rparr>
     else case top_hit d of
       None \<Rightarrow> d
     | Some p \<Rightarrow> let w = objects d ! p; d1 = d\<lparr>active_window := Some p\<rparr> in
         if dt_mouse_y d < win_y w + 20
         then d1\<lparr>drag_window := Some p, drag_offset_x := dt_mouse_x d - win_x w, drag_offset_y := dt_mouse_y d - win_y w\<rparr>
         else d1)"

definition move :: "int \<Rightarrow> int \<Rightarrow> desktop \<Rightarrow> desktop" where
  "move x y d = (let d1 = d\<lparr>dt_mouse_x := x, dt_mouse_y := y\<rparr> in case drag_window d of
     None \<Rightarrow> d1
   | Some p \<Rightarrow> set_window p ((objects d ! p)\<lparr>win_x := x - drag_offset_x d, win_y := y - drag_offset_y d\<rparr>) d1)"

lemma press_ok: "desktop_ok d \<Longrightarrow> desktop_ok (press d)"
proof (cases "on_start_button d \<or> top_hit d = None")
  case True
  then show "desktop_ok d \<Longrightarrow> ?thesis" by (auto simp: press_def desktop_ok_def)
next
  case False
  then obtain p where p: "\<not> on_start_button d" "top_hit d = Some p" by auto
  assume ok: "desktop_ok d"
  note hit = top_hitD [OF p(2)]
  have "p < length (objects d)" "window_ok (objects d ! p)" using ok hit by (auto simp: desktop_ok_def)
  moreover from this(2) have "win_width (objects d ! p) \<le> 2 ^ 20" by (simp add: window_ok_def window_near_def)
  moreover have "dt_mouse_x d - win_x (objects d ! p) < 2 ^ 20" "0 \<le> dt_mouse_x d - win_x (objects d ! p)"
    "0 \<le> dt_mouse_y d - win_y (objects d ! p)"
    using hit calculation(3) by (auto simp: window_hit_def)
  ultimately show ?thesis using ok p by (simp add: press_def desktop_ok_def Let_def)
qed

lemma move_ok:
  assumes "desktop_ok d" "0 \<le> x" "x \<le> 799" "0 \<le> y" "y \<le> 599"
  shows "desktop_ok (move x y d)"
proof (cases "drag_window d")
  case None
  then show ?thesis using assms by (simp add: move_def desktop_ok_def)
next
  case (Some p)
  then have "window_ok (objects d ! p)" using assms(1) by (auto simp: desktop_ok_def)
  then have "window_ok ((objects d ! p)\<lparr>win_x := x - drag_offset_x d, win_y := y - drag_offset_y d\<rparr>)"
    using assms by (auto simp: window_ok_def window_near_def desktop_ok_def)
  then show ?thesis using assms Some
    by (auto simp: move_def desktop_ok_def set_window_def Let_def dest!: set_update_subset_insert [THEN subsetD])
qed

lemma OnMouseMove_spec:
  assumes "desktop_ok d" "0 \<le> x" "x \<le> 799" "0 \<le> y" "y \<le> 599" "2 \<le> ticks d"
  shows "\<exists>e. OnMouseMove x y d = Some e \<and> desktop_ok e \<and> same_desktop (move x y d) e \<and> ticks e = ticks d - 2"
proof -
  have t: "ticks (move x y d) = ticks d"
    by (simp add: move_def ticks_def set_window_def Let_def split: option.split)
  have "OnMouseMove x y d = Desktop_Draw (move x y d)"
  proof (cases "drag_window d")
    case (Some p)
    then have "p < length (objects d)" using assms(1) by (simp add: desktop_ok_def)
    then show ?thesis using Some by (simp add: OnMouseMove_def move_def get_window_def arr_get_def Let_def)
  qed (simp add: OnMouseMove_def move_def)
  then show ?thesis using Draw_ok [OF move_ok [OF assms(1-5)]] assms(6) t by simp
qed

lemma OnMouseDown_spec:
  assumes "desktop_ok d" "2 \<le> ticks d"
  shows "\<exists>e. OnMouseDown 1 d = Some e \<and> desktop_ok e \<and> same_desktop (press d) e \<and> ticks d - 2 \<le> ticks e"
proof -
  have t: "ticks (press d) = ticks d"
    by (simp add: press_def ticks_def Let_def split: option.split)
  show ?thesis
  proof (cases "\<not> on_start_button d \<and> top_hit d = None")
    case True
    then have "OnMouseDown 1 d = Some d" "press d = d"
      using hit_scan_top [OF assms(1)] by (auto simp: OnMouseDown_def press_def on_start_button_def)
    then show ?thesis using assms by (simp add: same_desktop_def)
  next
    case False
    then have "OnMouseDown 1 d = Desktop_Draw (press d)"
      using hit_scan_top [OF assms(1)] by (auto simp: OnMouseDown_def press_def on_start_button_def Let_def)
    then show ?thesis using Draw_ok [OF press_ok [OF assms(1)]] assms(2) t by auto
  qed
qed

subsection \<open>The driver and the desktop together\<close>

definition pointer_agrees :: "mouse \<Rightarrow> desktop \<Rightarrow> bool" where
  "pointer_agrees m d \<longleftrightarrow> dt_mouse_x d = mouse_x m \<and> dt_mouse_y d = mouse_y m"

lemma move_fields [simp]:
  "dt_mouse_x (move x y d) = x" "dt_mouse_y (move x y d) = y" "windows (move x y d) = windows d"
  "drag_window (move x y d) = drag_window d" "show_start_menu (move x y d) = show_start_menu d"
  "drag_offset_x (move x y d) = drag_offset_x d" "drag_offset_y (move x y d) = drag_offset_y d"
  "active_window (move x y d) = active_window d"
  by (simp_all add: move_def set_window_def Let_def split: option.split)

lemma press_fields [simp]:
  "dt_mouse_x (press d) = dt_mouse_x d" "dt_mouse_y (press d) = dt_mouse_y d" "windows (press d) = windows d"
  "objects (press d) = objects d"
  by (simp_all add: press_def Let_def split: option.split)

lemma OnMouseUp_ok: "desktop_ok d \<Longrightarrow> desktop_ok (OnMouseUp b d)"
  by (simp add: OnMouseUp_def desktop_ok_def)

lemma OnMouseUp_ticks: "ticks (OnMouseUp b d) = ticks d"
  by (simp add: OnMouseUp_def ticks_def)

lemma mouse_data_desktop:
  assumes "mouse_ok m" "desktop_ok d" "pointer_agrees m d" "4 \<le> ticks d"
  shows "\<exists>e. run_calls (snd (mouse_data b m)) d = Some e \<and> desktop_ok e \<and> pointer_agrees (fst (mouse_data b m)) e
    \<and> ticks d - 4 \<le> ticks e"
proof (cases "cycle m = 0 \<or> cycle m = 1")
  case True
  then show ?thesis using assms by (auto simp: mouse_data_def pointer_agrees_def)
next
  case False
  define x where "x = clamp_x (mouse_x m + rel_x (packet1 m))"
  define y where "y = clamp_y (mouse_y m + rel_y b)"
  have r: "0 \<le> x" "x \<le> 799" "0 \<le> y" "y \<le> 599" by (simp_all add: x_def y_def)
  have m: "mouse_x (fst (mouse_data b m)) = x" "mouse_y (fst (mouse_data b m)) = y"
    "snd (mouse_data b m) = [MouseMove x y, if packet0 m AND 1 \<noteq> 0 then MouseDown 1 else MouseUp 1]"
    using False by (simp_all add: mouse_data_def x_def y_def Let_def)
  obtain e where e: "OnMouseMove x y d = Some e" "desktop_ok e" "same_desktop (move x y d) e" "ticks e = ticks d - 2"
    using OnMouseMove_spec [OF assms(2) r] assms(4) by auto
  have pos: "dt_mouse_x e = x" "dt_mouse_y e = y" using same_desktop_fields [OF e(3)] by simp_all
  have "2 \<le> ticks e" using assms(4) e(4) by simp
  from OnMouseDown_spec [OF e(2) this] obtain f where f: "OnMouseDown 1 e = Some f" "desktop_ok f"
    "same_desktop (press e) f" "ticks e - 2 \<le> ticks f" by blast
  have posf: "dt_mouse_x f = x" "dt_mouse_y f = y" using same_desktop_fields [OF f(3)] pos by simp_all
  show ?thesis
  proof (cases "packet0 m AND 1 \<noteq> 0")
    case True
    then show ?thesis using e f posf by (simp add: m pointer_agrees_def)
  next
    case False
    then show ?thesis using e pos OnMouseUp_ok [OF e(2)] by (simp add: m pointer_agrees_def OnMouseUp_ticks)
      (simp add: OnMouseUp_def)
  qed
qed

text \<open>C25: the mouse cannot break the desktop. Whatever bytes the device sends, the calls the driver
  makes for them run to their end on a desktop in order, given two clock answers per frame drawn
  (at most two frames per byte); the desktop is in order afterwards (at most ten windows, every
  pointer to a window object, positions bounded) and its idea of the pointer is the driver's.\<close>

theorem mouse_drives_desktop:
  assumes "mouse_ok m" and "desktop_ok d" and "pointer_agrees m d" and "4 * length bs \<le> ticks d"
  shows "\<exists>e. run_calls (snd (mouse_run bs m)) d = Some e \<and> desktop_ok e \<and> pointer_agrees (fst (mouse_run bs m)) e"
  using assms
proof (induction bs arbitrary: m d)
  case Nil
  then show ?case by simp
next
  case (Cons b bs)
  obtain e where e: "run_calls (snd (mouse_data b m)) d = Some e" "desktop_ok e"
    "pointer_agrees (fst (mouse_data b m)) e" "ticks d - 4 \<le> ticks e"
    using mouse_data_desktop [OF Cons.prems(1-3), of b] Cons.prems(4) by auto
  have "4 * length bs \<le> ticks e" using e(4) Cons.prems(4) by simp
  from Cons.IH [OF mouse_data_ok [OF Cons.prems(1)] e(2,3) this] e(1) show ?case
    by (auto simp: run_calls_append split: prod.split)
qed

definition demo_window :: window where
  "demo_window = new_window (replicate 32 NUL) 150 100 400 300 ''Terminal''"

definition demo_desktop :: desktop where
  "demo_desktop = \<lparr>objects = [demo_window\<lparr>win_x := 0, win_y := 0\<rparr>, demo_window], windows = [0, 1], active_window = Some 1,
     dt_mouse_x = 400, dt_mouse_y = 300, show_start_menu = False, drag_window = None, drag_offset_x = 0, drag_offset_y = 0,
     ctrl_pressed = False, dt_con = small_screen, dt_io = \<lparr>answers = replicate 100 0x12, events = []\<rparr>,
     dt_fs = empty_vfs, dt_cmds = []\<rparr>"

lemma demo_desktop_ok: "desktop_ok demo_desktop" "ticks demo_desktop = 100"
proof -
  have "length (replicate 1200 (7 :: u32)) = 1200" "length (replicate 100 (0x12 :: u16)) = 100" by (simp_all only: length_replicate)
  then show "desktop_ok demo_desktop" "ticks demo_desktop = 100" using small_screen_ok
    by (simp_all add: desktop_ok_def demo_desktop_def demo_window_def new_window_def init_title_def window_ok_def
      window_near_def ticks_def small_screen_def screen_size_def)
qed

theorem mouse_drives_desktop_witness:
  "\<exists>e. run_calls (snd (mouse_run [0x00, 0x09, 0xFE, 0x03, 0x08, 0x80, 0x80] mouse_start)) demo_desktop = Some e \<and> desktop_ok e"
proof -
  have "mouse_ok mouse_start" "pointer_agrees mouse_start demo_desktop"
    by (simp_all add: mouse_ok_def mouse_start_def pointer_agrees_def demo_desktop_def)
  from mouse_drives_desktop [OF this(1) demo_desktop_ok(1) this(2), of "[0x00, 0x09, 0xFE, 0x03, 0x08, 0x80, 0x80]"]
  show ?thesis by (auto simp: demo_desktop_ok)
qed

subsection \<open>Focus and dragging\<close>

text \<open>A press of the left button away from the Start button focuses the topmost window (the last of
  the list) that contains the pointer and starts a drag exactly when the pointer is in its title bar;
  over no window nothing changes. The order of the windows, the windows themselves and the menu stay.\<close>

theorem OnMouseDown_focuses_top:
  assumes "desktop_ok d" and "2 \<le> ticks d" and "\<not> on_start_button d"
  shows "\<exists>e. OnMouseDown 1 d = Some e \<and> desktop_ok e \<and> windows e = windows d \<and> objects e = objects d
    \<and> show_start_menu e = show_start_menu d
    \<and> (case top_hit d of
        None \<Rightarrow> active_window e = active_window d \<and> drag_window e = drag_window d
      | Some p \<Rightarrow> active_window e = Some p
          \<and> drag_window e = (if dt_mouse_y d < win_y (objects d ! p) + 20 then Some p else drag_window d))"
proof -
  obtain e where e: "OnMouseDown 1 d = Some e" "desktop_ok e" "same_desktop (press d) e"
    using OnMouseDown_spec [OF assms(1,2)] by blast
  note f = same_desktop_fields [OF e(3)]
  show ?thesis
    using e(1,2) assms(3) by (intro exI [of _ e]) (cases "top_hit d"; simp add: f press_def Let_def)
qed

theorem OnMouseDown_focuses_top_witness:
  "\<exists>e. OnMouseDown 1 (demo_desktop\<lparr>dt_mouse_x := 200, dt_mouse_y := 110\<rparr>) = Some e
    \<and> active_window e = Some 1 \<and> drag_window e = Some 1"
proof -
  let ?d = "demo_desktop\<lparr>dt_mouse_x := 200, dt_mouse_y := 110\<rparr>"
  have "desktop_ok ?d" "2 \<le> ticks ?d" using demo_desktop_ok by (simp_all add: desktop_ok_def ticks_def)
  moreover have "\<not> on_start_button ?d" by (simp add: on_start_button_def)
  moreover have "top_hit ?d = Some 1"
    by (simp add: top_hit_def demo_desktop_def demo_window_def new_window_def window_hit_def)
  moreover have "win_y (objects ?d ! 1) = 100" by (simp add: demo_desktop_def demo_window_def new_window_def)
  ultimately show ?thesis using OnMouseDown_focuses_top [of ?d] by auto
qed

text \<open>While the button is held the driver calls \<open>OnMouseMove\<close> and then \<open>OnMouseDown\<close> for every packet.\<close>

fun held_packets :: "(int \<times> int) list \<Rightarrow> desktop_call list" where
  "held_packets [] = []"
| "held_packets ((x, y) # ps) = MouseMove x y # MouseDown 1 # held_packets ps"

definition pointer_place :: "int \<times> int \<Rightarrow> bool" where
  "pointer_place = (\<lambda>(x, y). 0 \<le> x \<and> x \<le> 799 \<and> 0 \<le> y \<and> y \<le> 599 \<and> \<not> (560 < y \<and> x < 90))"

definition dragging :: "nat \<Rightarrow> int \<Rightarrow> int \<Rightarrow> desktop \<Rightarrow> bool" where
  "dragging p ox oy d \<longleftrightarrow> windows d \<noteq> [] \<and> last (windows d) = p \<and> drag_window d = Some p
     \<and> drag_offset_x d = ox \<and> drag_offset_y d = oy \<and> active_window d = Some p
     \<and> 0 \<le> ox \<and> ox < win_width (objects d ! p) \<and> 0 \<le> oy \<and> oy < 20 \<and> oy < win_height (objects d ! p)"

definition placed :: "nat \<Rightarrow> int \<Rightarrow> int \<Rightarrow> window list \<Rightarrow> window list" where
  "placed p x y ws = ws[p := (ws ! p)\<lparr>win_x := x, win_y := y\<rparr>]"

lemma placed_placed [simp]: "placed p x y (placed p u v ws) = placed p x y ws"
  by (cases "p < length ws") (simp_all add: placed_def not_less list_update_beyond)

lemma top_hit_last:
  "windows d \<noteq> [] \<Longrightarrow> window_hit (dt_mouse_x d) (dt_mouse_y d) (objects d ! last (windows d)) \<Longrightarrow>
   top_hit d = Some (last (windows d))"
  by (cases "windows d" rule: rev_cases) (simp_all add: top_hit_def)

lemma drag_move:
  assumes ok: "desktop_ok d" and dr: "dragging p ox oy d" and pl: "pointer_place (x, y)" and t: "2 \<le> ticks d"
  shows "\<exists>e. OnMouseMove x y d = Some e \<and> desktop_ok e \<and> dragging p ox oy e \<and> windows e = windows d
    \<and> objects e = placed p (x - ox) (y - oy) (objects d) \<and> ticks e = ticks d - 2
    \<and> dt_mouse_x e = x \<and> dt_mouse_y e = y"
proof -
  have r: "0 \<le> x" "x \<le> 799" "0 \<le> y" "y \<le> 599" using pl by (simp_all add: pointer_place_def)
  obtain e where e: "OnMouseMove x y d = Some e" "desktop_ok e" "same_desktop (move x y d) e" "ticks e = ticks d - 2"
    using OnMouseMove_spec [OF ok r t] by blast
  note f = same_desktop_fields [OF e(3)]
  have obj: "objects e = placed p (x - ox) (y - oy) (objects d)"
    using dr by (simp add: f(1) move_def dragging_def set_window_def placed_def Let_def)
  have "p < length (objects d)" using ok dr by (simp add: desktop_ok_def dragging_def)
  then have "objects e ! p = (objects d ! p)\<lparr>win_x := x - ox, win_y := y - oy\<rparr>" by (simp add: obj placed_def)
  then have "dragging p ox oy e" using dr f(2,3,7-9) by (simp add: dragging_def)
  with e obj f show ?thesis by simp
qed

lemma drag_packet:
  assumes ok: "desktop_ok d" and dr: "dragging p ox oy d" and pl: "pointer_place (x, y)" and t: "4 \<le> ticks d"
  shows "\<exists>e. run_calls [MouseMove x y, MouseDown 1] d = Some e \<and> desktop_ok e \<and> dragging p ox oy e \<and> windows e = windows d
    \<and> objects e = placed p (x - ox) (y - oy) (objects d) \<and> ticks d - 4 \<le> ticks e"
proof -
  obtain e where e: "OnMouseMove x y d = Some e" "desktop_ok e" "dragging p ox oy e" "windows e = windows d"
    "objects e = placed p (x - ox) (y - oy) (objects d)" "ticks e = ticks d - 2" "dt_mouse_x e = x" "dt_mouse_y e = y"
    using drag_move [OF ok dr pl] t by auto
  have "2 \<le> ticks e" using e(6) t by simp
  from OnMouseDown_spec [OF e(2) this] obtain g where g: "OnMouseDown 1 e = Some g" "desktop_ok g"
    "same_desktop (press e) g" "ticks e - 2 \<le> ticks g" by blast
  note f = same_desktop_fields [OF g(3)]
  have p: "p < length (objects d)" using ok dr by (simp add: desktop_ok_def dragging_def)
  have w: "win_x (objects e ! p) = x - ox" "win_y (objects e ! p) = y - oy"
    using p by (simp_all add: e(5) placed_def)
  have "window_hit (dt_mouse_x e) (dt_mouse_y e) (objects e ! p)"
    using e(3) w by (auto simp: window_hit_def e(7,8) dragging_def)
  then have "top_hit e = Some p" using e(3) top_hit_last [of e] by (simp add: dragging_def)
  then have pr: "press e = e"
    using pl e(3) w by (simp add: press_def on_start_button_def pointer_place_def e(7,8) dragging_def Let_def)
  have "dragging p ox oy g" using e(3) f(1,2,3,7-9) pr by (simp add: dragging_def)
  then show ?thesis using e(1,4,5,6) g f pr by (intro exI [of _ g]) simp
qed

lemma drag_packets:
  "desktop_ok d \<Longrightarrow> dragging p ox oy d \<Longrightarrow> (\<forall>q \<in> set ps. pointer_place q) \<Longrightarrow> 4 * length ps \<le> ticks d \<Longrightarrow>
   \<exists>e. run_calls (held_packets ps) d = Some e \<and> desktop_ok e \<and> dragging p ox oy e \<and> windows e = windows d
     \<and> (\<exists>u v. objects e = placed p u v (objects d)) \<and> ticks d - 4 * length ps \<le> ticks e"
proof (induction ps arbitrary: d)
  case Nil
  have "objects d = placed p (win_x (objects d ! p)) (win_y (objects d ! p)) (objects d)" by (simp add: placed_def)
  then show ?case using Nil by auto
next
  case (Cons q ps)
  obtain x y where q: "q = (x, y)" by (cases q)
  obtain e where e: "run_calls [MouseMove x y, MouseDown 1] d = Some e" "desktop_ok e" "dragging p ox oy e"
    "windows e = windows d" "objects e = placed p (x - ox) (y - oy) (objects d)" "ticks d - 4 \<le> ticks e"
    using drag_packet [OF Cons.prems(1,2), of x y] Cons.prems(3,4) q by auto
  have t: "4 * length ps \<le> ticks e" using e(6) Cons.prems(4) by simp
  from Cons.IH [OF e(2,3) _ t] Cons.prems(3) obtain g where g: "run_calls (held_packets ps) e = Some g" "desktop_ok g"
    "dragging p ox oy g" "windows g = windows e" "\<exists>u v. objects g = placed p u v (objects e)"
    "ticks e - 4 * length ps \<le> ticks g" by auto
  have "run_calls (held_packets (q # ps)) d = run_calls ([MouseMove x y, MouseDown 1] @ held_packets ps) d" by (simp add: q)
  also have "\<dots> = Some g" using e(1) g(1) by (simp only: run_calls_append) simp
  finally show ?case using g e(4-6) by auto
qed

text \<open>C24: dragging moves a window with the pointer. Pressing in the title bar of the last window of the
  list, moving with the button held through any places of the screen outside the Start button, and
  releasing, moves that window by the distance from the press to the release, whatever the way; it has the focus,
  no other window moves and the drag is over.\<close>

theorem drag_moves_window:
  assumes ok: "desktop_ok d" and w: "windows d \<noteq> []" "last (windows d) = p"
    and press: "pointer_place (dt_mouse_x d, dt_mouse_y d)" "window_hit (dt_mouse_x d) (dt_mouse_y d) (objects d ! p)"
      "dt_mouse_y d < win_y (objects d ! p) + 20"
    and way: "\<forall>q \<in> set ps. pointer_place q" "pointer_place (x, y)" and t: "4 * length ps + 4 \<le> ticks d"
  shows "\<exists>e. run_calls (MouseDown 1 # held_packets ps @ [MouseMove x y, MouseUp 1]) d = Some e \<and> desktop_ok e
    \<and> active_window e = Some p \<and> drag_window e = None \<and> windows e = windows d
    \<and> objects e = (objects d)[p := (objects d ! p)\<lparr>win_x := win_x (objects d ! p) + (x - dt_mouse_x d),
        win_y := win_y (objects d ! p) + (y - dt_mouse_y d)\<rparr>]"
proof -
  let ?ox = "dt_mouse_x d - win_x (objects d ! p)" and ?oy = "dt_mouse_y d - win_y (objects d ! p)"
  have "2 \<le> ticks d" using t by simp
  from OnMouseDown_spec [OF ok this] obtain d1 where d1: "OnMouseDown 1 d = Some d1" "desktop_ok d1"
    "same_desktop (press d) d1" "ticks d - 2 \<le> ticks d1" by blast
  note f = same_desktop_fields [OF d1(3)]
  have "top_hit d = Some p" using top_hit_last [OF w(1)] press(2) w(2) by simp
  then have pr: "press d = d\<lparr>active_window := Some p, drag_window := Some p, drag_offset_x := ?ox, drag_offset_y := ?oy\<rparr>"
    using press(1,3) by (auto simp: press_def on_start_button_def pointer_place_def Let_def)
  have dr: "dragging p ?ox ?oy d1"
    using w press(2,3) by (simp add: dragging_def f pr window_hit_def)
  have "4 * length ps \<le> ticks d1" using d1(4) t by simp
  from drag_packets [OF d1(2) dr way(1) this] obtain d2 u v where d2: "run_calls (held_packets ps) d1 = Some d2" "desktop_ok d2"
    "dragging p ?ox ?oy d2" "windows d2 = windows d1" "objects d2 = placed p u v (objects d1)"
    "ticks d1 - 4 * length ps \<le> ticks d2" by blast
  have "2 \<le> ticks d2" using d2(6) d1(4) t by simp
  from drag_move [OF d2(2,3) way(2) this] obtain d3 where d3: "OnMouseMove x y d2 = Some d3" "desktop_ok d3" "dragging p ?ox ?oy d3"
    "windows d3 = windows d2" "objects d3 = placed p (x - ?ox) (y - ?oy) (objects d2)" by blast
  define e where "e = OnMouseUp 1 d3"
  have "run_calls (MouseDown 1 # held_packets ps @ [MouseMove x y, MouseUp 1]) d = Some e"
    using d1(1) d2(1) d3(1) by (simp add: run_calls_append e_def)
  moreover have "objects e = placed p (x - ?ox) (y - ?oy) (objects d)"
    using d3(5) d2(5) by (simp add: e_def OnMouseUp_def f pr)
  moreover have "x - ?ox = win_x (objects d ! p) + (x - dt_mouse_x d)" "y - ?oy = win_y (objects d ! p) + (y - dt_mouse_y d)" by simp_all
  ultimately show ?thesis using OnMouseUp_ok [OF d3(2)] d3(3,4) d2(4) f(2)
    by (intro exI [of _ e]) (simp add: e_def OnMouseUp_def placed_def dragging_def pr)
qed

theorem drag_moves_window_witness:
  "\<exists>e. run_calls (MouseDown 1 # held_packets [(300, 200), (10, 20)] @ [MouseMove 210 115, MouseUp 1])
       (demo_desktop\<lparr>dt_mouse_x := 200, dt_mouse_y := 110\<rparr>) = Some e
    \<and> map win_x (objects e) = [0, 160] \<and> map win_y (objects e) = [0, 105]"
proof -
  let ?d = "demo_desktop\<lparr>dt_mouse_x := 200, dt_mouse_y := 110\<rparr>"
  have ok: "desktop_ok ?d" and t: "4 * length [(300 :: int, 200 :: int), (10, 20)] + 4 \<le> ticks ?d"
    using demo_desktop_ok by (simp_all add: desktop_ok_def ticks_def)
  have w: "windows ?d \<noteq> []" "last (windows ?d) = 1" by (simp_all add: demo_desktop_def)
  have o: "objects ?d = [demo_window\<lparr>win_x := 0, win_y := 0\<rparr>, demo_window]" by (simp add: demo_desktop_def)
  have h: "pointer_place (dt_mouse_x ?d, dt_mouse_y ?d)" "window_hit (dt_mouse_x ?d) (dt_mouse_y ?d) (objects ?d ! 1)"
    "dt_mouse_y ?d < win_y (objects ?d ! 1) + 20"
    by (simp_all add: o demo_window_def new_window_def window_hit_def pointer_place_def)
  have ps: "\<forall>q \<in> set [(300, 200), (10, 20)]. pointer_place q" "pointer_place (210, 115)"
    by (simp_all add: pointer_place_def)
  from drag_moves_window [OF ok w h ps t] show ?thesis
    by (auto simp: o demo_window_def new_window_def)
qed

text \<open>The Start menu flickers. The driver calls \<open>OnMouseDown\<close> for every packet with the button down,
  not only when it goes down, so that holding the button on Start for \<open>n\<close> packets toggles the menu
  \<open>n\<close> times.\<close>

theorem held_Start_toggles:
  assumes "desktop_ok d" and "on_start_button d" and "2 * n \<le> ticks d"
  shows "\<exists>e. run_calls (replicate n (MouseDown 1)) d = Some e \<and> desktop_ok e
    \<and> show_start_menu e = (if even n then show_start_menu d else \<not> show_start_menu d)"
proof -
  have "\<exists>e. run_calls (replicate n (MouseDown 1)) d = Some e \<and> desktop_ok e \<and> on_start_button e
    \<and> show_start_menu e = (if even n then show_start_menu d else \<not> show_start_menu d)"
    using assms
  proof (induction n arbitrary: d)
    case (Suc n)
    have "2 \<le> ticks d" using Suc.prems(3) by simp
    from OnMouseDown_spec [OF Suc.prems(1) this] obtain e where e: "OnMouseDown 1 d = Some e" "desktop_ok e"
      "same_desktop (press d) e" "ticks d - 2 \<le> ticks e" by blast
    note f = same_desktop_fields [OF e(3)]
    have p: "press d = d\<lparr>show_start_menu := \<not> show_start_menu d\<rparr>" using Suc.prems(2) by (simp add: press_def)
    have "on_start_button e" using Suc.prems(2) f by (simp add: on_start_button_def p)
    moreover have "2 * n \<le> ticks e" using e(4) Suc.prems(3) by simp
    ultimately obtain g where g: "run_calls (replicate n (MouseDown 1)) e = Some g" "desktop_ok g" "on_start_button g"
      "show_start_menu g = (if even n then show_start_menu e else \<not> show_start_menu e)"
      using Suc.IH [OF e(2)] by blast
    then show ?case using e(1) f p by (intro exI [of _ g]) simp
  qed simp
  then show ?thesis by blast
qed

theorem held_Start_toggles_witness:
  "\<exists>e. run_calls (replicate 2 (MouseDown 1)) (demo_desktop\<lparr>dt_mouse_x := 20, dt_mouse_y := 580\<rparr>) = Some e
    \<and> \<not> show_start_menu e"
proof -
  let ?d = "demo_desktop\<lparr>dt_mouse_x := 20, dt_mouse_y := 580\<rparr>"
  have "desktop_ok ?d" "2 * 2 \<le> ticks ?d" using demo_desktop_ok by (simp_all add: desktop_ok_def ticks_def)
  moreover have "on_start_button ?d" by (simp add: on_start_button_def)
  ultimately show ?thesis using held_Start_toggles [of ?d 2] by (auto simp: demo_desktop_def)
qed

section \<open>Painting, windows that do not fit, titles\<close>

text \<open>C11: a frame is the painter's picture. On a desktop in order \<open>Draw\<close> returns whenever the clock
  answers, changes nothing but the console and the ports, and then every point of the monitor shows
  the topmost of: the pointer at its position, the pixels saved under the pointer of the previous frame,
  and the scene (menu over clock over task bar over the windows in list order over the wallpaper).\<close>

theorem Draw_paints_scene:
  assumes "desktop_ok d" and "RTC_GetHour (dt_io d) = Some (h, io1)" and "RTC_GetMinute io1 = Some (m, io2)"
  shows "\<exists>e. Desktop_Draw d = Some e \<and> desktop_ok e \<and> same_desktop d e \<and> dt_io e = io2
    \<and> (\<forall>p. on_screen (dt_con d) p \<longrightarrow> monitor (dt_con e) p = frame_pixel d h m p)"
  by (rule Draw_spec [OF assms])

lemma above: "v < y \<Longrightarrow> rect_picture x y w h col (u, v) = None" "v < y \<Longrightarrow> string_picture s col x y (u, v) = None"
  "v < y \<Longrightarrow> glyph_picture ch col x y (u, v) = None"
proof -
  show "v < y \<Longrightarrow> glyph_picture ch col x y (u, v) = None" by (simp add: glyph_picture_def boxed_def)
  show "v < y \<Longrightarrow> rect_picture x y w h col (u, v) = None" by (simp add: rect_picture_def boxed_def)
  show "v < y \<Longrightarrow> string_picture s col x y (u, v) = None"
    by (induction s arbitrary: x) (simp_all add: glyph_picture_def boxed_def)
qed

theorem Draw_paints_scene_witness:
  "\<exists>e. Desktop_Draw (demo_desktop\<lparr>windows := []\<rparr>) = Some e \<and> monitor (dt_con e) (39, 29) = 0x008080"
proof -
  let ?d = "demo_desktop\<lparr>windows := []\<rparr>"
  have ok: "desktop_ok ?d" using demo_desktop_ok by (simp add: desktop_ok_def)
  obtain rest where a: "answers (dt_io ?d) = 0x12 # 0x12 # rest"
    by (simp add: demo_desktop_def numeral_eq_Suc)
  then have "\<exists>h io1. RTC_GetHour (dt_io ?d) = Some (h, io1) \<and> answers io1 = 0x12 # rest"
    by (simp add: RTC_GetHour_def RTC_Read_def port_defs)
  then obtain h io1 where h: "RTC_GetHour (dt_io ?d) = Some (h, io1)" "answers io1 = 0x12 # rest" by blast
  then have "\<exists>m io2. RTC_GetMinute io1 = Some (m, io2)"
    by (simp add: RTC_GetMinute_def RTC_Read_def port_defs)
  then obtain m io2 where m: "RTC_GetMinute io1 = Some (m, io2)" by blast
  have c: "dt_con ?d = small_screen" "show_start_menu ?d = False" "dt_mouse_x ?d = 400" "dt_mouse_y ?d = 300" "windows ?d = []"
    by (simp_all add: demo_desktop_def)
  have "scene ?d h m (39, 29) = None" "saved_picture (dt_con ?d) (39, 29) = None"
    "pointer_picture (dt_mouse_x ?d) (dt_mouse_y ?d) (39, 29) = None"
    by (simp_all add: scene_def c taskbar_picture_def clock_picture_def menu_picture_def button_picture_def
      taskbar_y_def above saved_picture_def small_screen_def pointer_picture_def boxed_def)
  then have "frame_pixel ?d h m (39, 29) = 0x008080" by (simp add: frame_pixel_def map_add_def)
  moreover have "on_screen (dt_con ?d) (39, 29)" by (simp add: c on_screen_def small_screen_def)
  ultimately show ?thesis using Draw_paints_scene [OF ok h(1) m] by auto
qed

text \<open>An eleventh window takes the keyboard and is never seen: on a full list \<open>AddWindow\<close> gives the
  focus to a window that is not in the list, so no press of the mouse can focus it and \<open>Draw\<close> does not paint it.\<close>

theorem AddWindow_eleventh:
  assumes "length (windows d) = 10" and "p \<notin> set (windows d)"
  shows "windows (AddWindow p d) = windows d \<and> active_window (AddWindow p d) = Some p
    \<and> top_hit (AddWindow p d) \<noteq> Some p
    \<and> windows_picture (windows (AddWindow p d)) (AddWindow p d)
      = windows_picture (windows d) (d\<lparr>active_window := None\<rparr>)"
proof -
  have "windows_picture ps (d\<lparr>active_window := Some p\<rparr>) = windows_picture ps (d\<lparr>active_window := None\<rparr>)"
    if "p \<notin> set ps" for ps
    using that by (induction ps) auto
  moreover have "AddWindow p d = d\<lparr>active_window := Some p\<rparr>" using assms(1) by (simp add: AddWindow_def)
  moreover have "top_hit (AddWindow p d) \<noteq> Some p" using top_hitD [of "AddWindow p d" p] assms(2) calculation(2) by auto
  ultimately show ?thesis using assms(2) by simp
qed

theorem AddWindow_eleventh_witness:
  "active_window (AddWindow 10 (demo_desktop\<lparr>windows := [0, 1, 2, 3, 4, 5, 6, 7, 8, 9]\<rparr>)) = Some 10
   \<and> top_hit (AddWindow 10 (demo_desktop\<lparr>windows := [0, 1, 2, 3, 4, 5, 6, 7, 8, 9]\<rparr>)) \<noteq> Some 10"
proof -
  have "length (windows (demo_desktop\<lparr>windows := [0, 1, 2, 3, 4, 5, 6, 7, 8, 9]\<rparr>)) = 10"
    "10 \<notin> set (windows (demo_desktop\<lparr>windows := [0, 1, 2, 3, 4, 5, 6, 7, 8, 9]\<rparr>))" by simp_all
  from AddWindow_eleventh [OF this] show ?thesis by blast
qed

text \<open>A title shorter than 31 characters is not terminated by the constructor: what the memory of the
  new object held after the copied characters is read as part of the title, so that the title is the
  given text only if the byte right after it happened to be zero.\<close>

theorem title_not_terminated:
  assumes "length raw = 32" and "c_string t" and "length t < 31"
  shows "cstr (init_title raw t) = t @ cstr (take (31 - length t) (drop (length t) raw) @ [NUL])
    \<and> (cstr (init_title raw t) = t \<longleftrightarrow> raw ! length t = NUL)"
proof -
  have rest: "drop (length t) raw = raw ! length t # drop (Suc (length t)) raw" using assms by (simp add: Cons_nth_drop_Suc)
  have "(take (length t) t @ drop (length t) raw)[31 := NUL] = t @ take (31 - length t) (drop (length t) raw) @ [NUL]"
  proof (rule nth_equalityI)
    show "length ((take (length t) t @ drop (length t) raw)[31 := NUL])
      = length (t @ take (31 - length t) (drop (length t) raw) @ [NUL])" using assms by simp
  next
    fix i assume "i < length ((take (length t) t @ drop (length t) raw)[31 := NUL])"
    then show "(take (length t) t @ drop (length t) raw)[31 := NUL] ! i
      = (t @ take (31 - length t) (drop (length t) raw) @ [NUL]) ! i"
      using assms by (auto simp: nth_list_update nth_append)
  qed
  then have eq: "init_title raw t = t @ take (31 - length t) (drop (length t) raw) @ [NUL]"
    using assms(3) by (simp add: init_title_def Let_def)
  have cs: "cstr (t @ m) = t @ cstr m" for m
    using assms(2) by (simp add: c_string_def cstr_def takeWhile_append)
  have "cstr (take (31 - length t) (drop (length t) raw) @ [NUL]) = [] \<longleftrightarrow> raw ! length t = NUL"
    using assms(3) by (simp add: rest take_Cons')
  then show ?thesis by (simp add: eq cs)
qed

theorem title_not_terminated_witness:
  "cstr (init_title (replicate 32 CHR ''?'') ''Snake'') \<noteq> ''Snake''"
  using title_not_terminated [of "replicate 32 CHR ''?''" "''Snake''"] by (simp add: c_string_def)

end
