(* ===== verification/Gdt.thy ===== *)
theory Gdt
  imports Prelude
begin

text \<open>
  Segment descriptors and the global descriptor table, src/core/gdt.cpp, gdt.h and tss.h.
  A descriptor is its eight bytes; \<open>seg_base\<close> and \<open>seg_limit\<close> are the decoders
  \<open>Base()\<close> and \<open>Limit()\<close>. The TSS is the array of 26 words the constructor clears.
\<close>

section \<open>Segment descriptors\<close>

definition seg_descriptor :: "u32 \<Rightarrow> u32 \<Rightarrow> u8 \<Rightarrow> u8 list" where
  "seg_descriptor base limit type =
     (let (flags, limit) =
        (if limit \<le> 65536 then (0x40 :: u8, limit)
         else (0xC0, if limit AND 0xFFF \<noteq> 0xFFF then drop_bit 12 limit - 1 else drop_bit 12 limit))
      in [ucast (limit AND 0xFF), ucast (drop_bit 8 limit AND 0xFF),
          ucast (base AND 0xFF), ucast (drop_bit 8 base AND 0xFF), ucast (drop_bit 16 base AND 0xFF),
          type, flags OR ucast (drop_bit 16 limit AND 0xF), ucast (drop_bit 24 base AND 0xFF)])"

definition seg_base :: "u8 list \<Rightarrow> u32" where
  "seg_base t = (let r = ucast (t ! 7); r = push_bit 8 r + ucast (t ! 4);
     r = push_bit 8 r + ucast (t ! 3); r = push_bit 8 r + ucast (t ! 2) in r)"

definition seg_limit :: "u8 list \<Rightarrow> u32" where
  "seg_limit t = (let r = ucast (t ! 6 AND 0xF); r = push_bit 8 r + ucast (t ! 1);
     r = push_bit 8 r + ucast (t ! 0)
     in if t ! 6 AND 0xC0 = 0xC0 then push_bit 12 r OR 0xFFF else r)"

lemma seg_base_descriptor: "seg_base (seg_descriptor b l t) = b"
proof -
  have "seg_base (seg_descriptor b l t) = le32 (byte_at 0 b) (byte_at 1 b) (byte_at 2 b) (byte_at 3 b)"
    unfolding seg_base_def seg_descriptor_def Let_def byte_at_def
    by (simp add: horner_le32 split: prod.split)
  then show ?thesis by (simp add: word_facts)
qed

lemma bits_0x40: "bit (0x40 :: u8) n \<longleftrightarrow> n = 6"
proof -
  have "(0x40 :: u8) = push_bit 6 1" by simp
  then show ?thesis by (simp only: bit_simps) auto
qed

lemma bits_0xC0: "bit (0xC0 :: u8) n \<longleftrightarrow> n = 6 \<or> n = 7"
proof -
  have "(0xC0 :: u8) = push_bit 6 1 OR push_bit 7 1" by simp
  then show ?thesis by (simp only: bit_simps) auto
qed

lemma and_0xF: "(x :: u8) AND 0xF = take_bit 4 x" "(y :: u32) AND 0xF = take_bit 4 y"
  by (simp_all add: take_bit_eq_mask mask_eq_exp_minus_1)

text \<open>The flag byte: its low nibble is the nibble put in, its top two bits tell the granularity.\<close>

lemma flag_nibble:
  fixes x :: u32
  shows "(0x40 OR ucast (x AND 0xF) :: u8) AND 0xF = ucast (x AND 0xF)"
    and "(0xC0 OR ucast (x AND 0xF) :: u8) AND 0xF = ucast (x AND 0xF)"
  by (rule bit_word_eqI, force simp: and_0xF bit_simps bits_0x40 bits_0xC0)+

lemma flag_granularity:
  fixes x :: u32
  shows "(0x40 OR ucast (x AND 0xF) :: u8) AND 0xC0 \<noteq> 0xC0"
    and "(0xC0 OR ucast (x AND 0xF) :: u8) AND 0xC0 = 0xC0"
proof -
  have "\<not> bit ((0x40 OR ucast (x AND 0xF) :: u8) AND 0xC0) 7"
    by (simp add: and_0xF bit_simps bits_0x40 bits_0xC0)
  moreover have "bit (0xC0 :: u8) 7" by (simp add: bits_0xC0)
  ultimately show "(0x40 OR ucast (x AND 0xF) :: u8) AND 0xC0 \<noteq> 0xC0" by metis
  show "(0xC0 OR ucast (x AND 0xF) :: u8) AND 0xC0 = 0xC0"
    by (rule bit_word_eqI) (auto simp: bit_simps bits_0xC0)
qed

lemma limit_bytes:
  fixes l :: u32
  shows "push_bit 8 (push_bit 8 (ucast (ucast (drop_bit 16 l AND 0xF) :: u8))
      + ucast (ucast (drop_bit 8 l) :: u8)) + ucast (ucast l :: u8) = take_bit 20 l"
  unfolding push8_plus and_0xF
  apply (rule bit_word_eqI)
  subgoal for n by (cases n rule: u32_bit_range) (auto simp: bit_simps less_diff_conv2)
  done

lemma push12_or_unat:
  fixes k :: u32
  assumes "unat k < 2 ^ 20"
  shows "unat (push_bit 12 k OR 0xFFF) = unat k * 4096 + 4095"
proof -
  have m: "(0xFFF :: u32) = mask 12" by (simp add: mask_eq_exp_minus_1)
  have "push_bit 12 k + mask 12 = push_bit 12 k OR mask 12"
    by (rule disjunctive_add) (auto simp: bit_simps)
  then have "push_bit 12 k OR 0xFFF = push_bit 12 k + 0xFFF" by (simp add: m)
  also have "\<dots> = k * 4096 + 0xFFF" by (simp add: push_bit_eq_mult)
  finally show ?thesis
    using assms by (simp add: unat_word_ariths)
qed

text \<open>The encoded limit: exact up to 64 KB; above, the largest page-granular limit
  \<open>4096 k - 1\<close> that does not exceed the request.\<close>

definition granular_limit :: "u32 \<Rightarrow> nat" where
  "granular_limit l = (if unat l \<le> 65536 then unat l else (unat l + 1) div 4096 * 4096 - 1)"

lemma granular_arith:
  assumes "65536 < (n :: nat)"
  shows "(n + 1) div 4096 * 4096 - 1 =
    (if n mod 4096 = 4095 then n div 4096 else n div 4096 - 1) * 4096 + 4095"
proof -
  define q r where "q = n div 4096" and "r = n mod 4096"
  have n: "n = 4096 * q + r" "r < 4096" unfolding q_def r_def by simp_all
  have "1 \<le> q" using assms unfolding q_def by simp
  have "(n + 1) div 4096 = (if r = 4095 then q + 1 else q)"
    using n(2) unfolding n(1) by (auto intro!: div_nat_eqI)
  with \<open>1 \<le> q\<close> show ?thesis unfolding q_def [symmetric] r_def [symmetric]
    by (cases q) simp_all
qed

lemma seg_limit_descriptor: "unat (seg_limit (seg_descriptor b l t)) = granular_limit l"
proof (cases "l \<le> 65536")
  case True
  then have "take_bit 20 l = l"
    by (simp add: take_bit_eq_mod u32_le_nat unat_mod word_unat_eq_iff)
  with True show ?thesis
    by (simp add: seg_limit_def seg_descriptor_def flag_nibble flag_granularity limit_bytes
        granular_limit_def u32_le_nat)
next
  case False
  define k where "k = (if l AND 0xFFF \<noteq> 0xFFF then drop_bit 12 l - 1 else drop_bit 12 l)"
  have l: "65536 < unat l" "unat l < 4294967296" using False unat_u32_less [of l] by (simp_all add: u32_le_nat)
  have full: "l AND 0xFFF = 0xFFF \<longleftrightarrow> unat l mod 4096 = 4095"
    using and_fff_unat [of l] by (simp add: word_unat_eq_iff)
  have k: "unat k = (if unat l mod 4096 = 4095 then unat l div 4096 else unat l div 4096 - 1)"
  proof -
    have "unat (drop_bit 12 l - 1) = unat l div 4096 - 1"
      using l by (subst unat_sub) (simp_all add: u32_le_nat word_facts)
    then show ?thesis by (simp add: k_def full word_facts)
  qed
  have "unat l div 4096 < 1048576" using l by (simp add: less_mult_imp_div_less)
  then have "unat k < 2 ^ 20" by (simp add: k less_imp_diff_less)
  then have "take_bit 20 k = k"
    by (simp add: take_bit_eq_mod unat_mod word_unat_eq_iff)
  with False have "seg_limit (seg_descriptor b l t) = push_bit 12 k OR 0xFFF"
    by (simp add: seg_limit_def seg_descriptor_def flag_nibble flag_granularity limit_bytes
        flip: k_def)
  with push12_or_unat [OF \<open>unat k < 2 ^ 20\<close>] show ?thesis
    using k l granular_arith [of "unat l"] by (simp add: granular_limit_def)
qed


section \<open>The table\<close>

text \<open>\<open>GlobalDescriptorTable\<close>: six descriptors and the TSS, packed. The TSS words in
  order are link, esp0, ss0, esp1, \<dots>, gs, ldt, and the half words trap and iomap_base.\<close>

record gdt =
  nullSegmentSelector :: "u8 list"
  codeSegmentSelector :: "u8 list"
  dataSegmentSelector :: "u8 list"
  userCodeSegmentSelector :: "u8 list"
  userDataSegmentSelector :: "u8 list"
  tssSegmentSelector :: "u8 list"
  tss :: "u32 list"

definition tss_words :: nat where "tss_words = 26"
definition tss_esp0 :: nat where "tss_esp0 = 1"
definition tss_ss0 :: nat where "tss_ss0 = 2"

text \<open>The table the constructor builds; \<open>tss_addr\<close> is the address of the member \<open>tss\<close>.\<close>

definition gdt_init :: "u32 \<Rightarrow> gdt" where
  "gdt_init tss_addr =
     \<lparr>nullSegmentSelector = seg_descriptor 0 0 0,
      codeSegmentSelector = seg_descriptor 0 (64 * 1024 * 1024) 0x9A,
      dataSegmentSelector = seg_descriptor 0 (64 * 1024 * 1024) 0x92,
      userCodeSegmentSelector = seg_descriptor 0 (64 * 1024 * 1024) 0xFA,
      userDataSegmentSelector = seg_descriptor 0 (64 * 1024 * 1024) 0xF2,
      tssSegmentSelector = seg_descriptor tss_addr (4 * of_nat tss_words) 0x89,
      tss = (replicate tss_words 0)[tss_ss0 := 0x10, tss_esp0 := 0]\<rparr>"

text \<open>The table as the processor sees it: the descriptors' bytes one after the other. A selector is
  the byte offset of the descriptor in it, with the privilege level or-ed in.\<close>

definition gdt_bytes :: "gdt \<Rightarrow> u8 list" where
  "gdt_bytes g = nullSegmentSelector g @ codeSegmentSelector g @ dataSegmentSelector g
     @ userCodeSegmentSelector g @ userDataSegmentSelector g @ tssSegmentSelector g"

definition CodeSegmentSelector :: "gdt \<Rightarrow> u16" where
  "CodeSegmentSelector g = of_nat (length (nullSegmentSelector g))"

definition DataSegmentSelector :: "gdt \<Rightarrow> u16" where
  "DataSegmentSelector g = of_nat (length (nullSegmentSelector g @ codeSegmentSelector g))"

definition UserCodeSegmentSelector :: "gdt \<Rightarrow> u16" where
  "UserCodeSegmentSelector g =
     of_nat (length (nullSegmentSelector g @ codeSegmentSelector g @ dataSegmentSelector g)) OR 3"

definition UserDataSegmentSelector :: "gdt \<Rightarrow> u16" where
  "UserDataSegmentSelector g =
     of_nat (length (nullSegmentSelector g @ codeSegmentSelector g @ dataSegmentSelector g
       @ userCodeSegmentSelector g)) OR 3"

text \<open>The processor's registers the kernel loads; the constructor here sets the GDTR, the segment registers and the task
  register. The object is packed: the TSS follows the six descriptors, and the limit covers both.\<close>

record cpu =
  gdtr_limit :: u16
  gdtr_base :: u32
  cpu_cs :: u16
  cpu_data :: "u16 list"
  cpu_tr :: u16
  idtr_limit :: u16
  idtr_base :: u32
  interrupts_on :: bool

definition sizeof_gdt :: "gdt \<Rightarrow> nat" where
  "sizeof_gdt g = length (gdt_bytes g) + 4 * length (tss g)"

definition gdt_load :: "u32 \<Rightarrow> gdt \<Rightarrow> cpu \<Rightarrow> cpu" where
  "gdt_load this g c = c\<lparr>gdtr_limit := of_nat (sizeof_gdt g - 1), gdtr_base := this,
     cpu_cs := 0x08, cpu_data := replicate 5 0x10, cpu_tr := 0x28\<rparr>"

text \<open>What the processor finds under a selector: the descriptor at its index (bits 3 and up).\<close>

definition select_descriptor :: "u8 list \<Rightarrow> u16 \<Rightarrow> u8 list" where
  "select_descriptor bs s = take 8 (drop (8 * (unat s div 8)) bs)"

lemma length_seg_descriptor [simp]: "length (seg_descriptor b l t) = 8"
  by (simp add: seg_descriptor_def Let_def split: prod.split)

lemma seg_descriptor_type: "seg_descriptor b l t ! 5 = t"
  by (simp add: seg_descriptor_def Let_def split: prod.split)

text \<open>A descriptor built by the constructor decodes, by \<open>Base()\<close> and \<open>Limit()\<close>, to the base
  it was given and to the limit it was given up to 64 KB, and above that to the largest limit of
  whole pages that does not exceed it; the access byte is stored as given.\<close>

theorem seg_descriptor_roundtrip:
  "seg_base (seg_descriptor base limit type) = base
   \<and> unat (seg_limit (seg_descriptor base limit type)) =
       (if unat limit \<le> 65536 then unat limit else (unat limit + 1) div 4096 * 4096 - 1)
   \<and> seg_descriptor base limit type ! 5 = type"
  using seg_base_descriptor [of base limit type] seg_limit_descriptor [of base limit type]
    seg_descriptor_type [of base limit type]
  by (simp add: granular_limit_def)

text \<open>The four selectors the kernel loads are 0x08, 0x10, 0x1B and 0x23, and the descriptor the
  processor finds under each is the one meant: ring 0 code and data, ring 3 code and data, all
  based at 0 with the limit 64 MB - 1; the TSS descriptor at 0x28 covers the TSS.\<close>

theorem gdt_selectors:
  "let g = gdt_init a; bs = gdt_bytes g in
   CodeSegmentSelector g = 0x08 \<and> DataSegmentSelector g = 0x10 \<and>
   UserCodeSegmentSelector g = 0x1B \<and> UserDataSegmentSelector g = 0x23 \<and>
   map (\<lambda>s. let d = select_descriptor bs s in (seg_base d, seg_limit d, d ! 5))
     [0x08, 0x10, 0x1B, 0x23, 0x28] =
     [(0, 0x3FFFFFF, 0x9A), (0, 0x3FFFFFF, 0x92), (0, 0x3FFFFFF, 0xFA), (0, 0x3FFFFFF, 0xF2),
      (a, 104, 0x89)] \<and>
   tss g ! tss_ss0 = 0x10 \<and> tss g ! tss_esp0 = 0"
proof -
  let ?k = "\<lambda>t. seg_descriptor 0 (64 * 1024 * 1024) t"
  let ?t = "seg_descriptor a 104 0x89"
  have l: "seg_limit (?k t) = 0x3FFFFFF" for t
    using seg_limit_descriptor [of 0 "64 * 1024 * 1024" t]
    by (simp add: granular_limit_def word_unat_eq_iff)
  have lt: "seg_limit ?t = 104"
    using seg_limit_descriptor [of a 104 "0x89"] by (simp add: granular_limit_def word_unat_eq_iff)
  have "gdt_bytes (gdt_init a) = concat [seg_descriptor 0 0 0, ?k 0x9A, ?k 0x92, ?k 0xFA, ?k 0xF2, ?t]"
    by (simp add: gdt_bytes_def gdt_init_def tss_words_def)
  then have "map (select_descriptor (gdt_bytes (gdt_init a))) [0x08, 0x10, 0x1B, 0x23, 0x28]
      = [?k 0x9A, ?k 0x92, ?k 0xFA, ?k 0xF2, ?t]"
    by (simp add: select_descriptor_def)
  then show ?thesis
    using l lt seg_base_descriptor seg_descriptor_type
    by (simp add: Let_def CodeSegmentSelector_def DataSegmentSelector_def UserCodeSegmentSelector_def
        UserDataSegmentSelector_def gdt_init_def tss_words_def tss_ss0_def tss_esp0_def)
qed

text \<open>Every register loaded names a whole descriptor inside the limit: the code segment, the data segment in DS, ES, FS, GS and
  SS, and the TSS, which lies behind the descriptors at the address its descriptor gives.\<close>

lemma gdt_load_selects:
  fixes this :: u32 and c0 :: cpu
  defines "g \<equiv> gdt_init (this + 48)"
  defines "c \<equiv> gdt_load this g c0"
  shows "gdtr_base c = this" "\<forall>s \<in> set (cpu_cs c # cpu_tr c # cpu_data c). unat s + 7 \<le> unat (gdtr_limit c)"
    "cpu_cs c = CodeSegmentSelector g" "set (cpu_data c) = {DataSegmentSelector g}"
    "seg_base (select_descriptor (gdt_bytes g) (cpu_tr c)) = this + of_nat (length (gdt_bytes g))"
  using gdt_selectors [of "this + 48"]
  by (simp_all add: c_def g_def gdt_load_def sizeof_gdt_def gdt_bytes_def gdt_init_def tss_words_def Let_def)

end
