(* ===== verification/Interrupts.thy ===== *)
theory Interrupts
  imports Desktop Gdt "HOL-Library.Sublist"
begin

text \<open>
  Interrupts and system calls, src/core/interrupts.cpp and interrupts.h: the gates of the descriptor
  table, and \<open>HandleInterrupt\<close>, where the drivers, the desktop, the console and the user program's
  break meet. The assembly stubs push the eight registers of the interrupted program and pass their
  address; here the handler takes and returns those eight words.
\<close>

section \<open>Gates\<close>

record gate =
  handlerAddressLowBits :: u16
  gdt_codeSegmentSelector :: u16
  gate_reserved :: u8
  gate_access :: u8
  handlerAddressHighBits :: u16

type_synonym idt = "gate list"

definition SetGate :: "u8 \<Rightarrow> u16 \<Rightarrow> u32 \<Rightarrow> u8 \<Rightarrow> u8 \<Rightarrow> idt \<Rightarrow> idt" where
  "SetGate interrupt selector handler dpl type idt =
     idt[unat interrupt := \<lparr>handlerAddressLowBits = ucast (handler AND 0xFFFF), gdt_codeSegmentSelector = selector,
       gate_reserved = 0, gate_access = 0x80 OR push_bit 5 (dpl AND 3) OR type,
       handlerAddressHighBits = ucast (drop_bit 16 handler AND 0xFFFF)\<rparr>]"

text \<open>The addresses of the assembly stubs.\<close>

record stubs =
  stub_ignore :: u32
  stub_timer :: u32
  stub_keyboard :: u32
  stub_mouse :: u32
  stub_syscall :: u32
  stub_page_fault :: u32

fun init_gates :: "nat \<Rightarrow> u16 \<Rightarrow> u32 \<Rightarrow> idt \<Rightarrow> idt" where
  "init_gates 0 sel h idt = idt"
| "init_gates (Suc n) sel h idt = SetGate (of_nat n) sel h 0 0xE (init_gates n sel h idt)"

definition InterruptManager_init :: "stubs \<Rightarrow> gdt \<Rightarrow> idt \<Rightarrow> io \<Rightarrow> idt \<times> io" where
  "InterruptManager_init st g idt io =
     (let sel = CodeSegmentSelector g;
          idt = init_gates 256 sel (stub_ignore st) idt;
          io = RemapPIC io;
          idt = SetGate 0x20 sel (stub_timer st) 0 0xE idt;
          idt = SetGate 0x21 sel (stub_keyboard st) 0 0xE idt;
          idt = SetGate 0x2C sel (stub_mouse st) 0 0xE idt;
          idt = SetGate 0x80 sel (stub_syscall st) 3 0xE idt;
          idt = SetGate 14 sel (stub_page_fault st) 0 0xE idt
      in (idt, io))"

text \<open>The end of the constructor (\<open>lidt\<close>) and \<open>Activate\<close> (\<open>sti\<close>). A gate takes eight bytes.\<close>

definition idt_load :: "u32 \<Rightarrow> cpu \<Rightarrow> cpu" where
  "idt_load table c = c\<lparr>idtr_limit := 256 * 8 - 1, idtr_base := table\<rparr>"

definition Activate :: "cpu \<Rightarrow> cpu" where
  "Activate c = c\<lparr>interrupts_on := True\<rparr>"

text \<open>What the processor reads from a gate.\<close>

definition gate_handler :: "gate \<Rightarrow> u32" where
  "gate_handler g = ucast (handlerAddressLowBits g) OR push_bit 16 (ucast (handlerAddressHighBits g))"

definition gate_present :: "gate \<Rightarrow> bool" where "gate_present g = bit (gate_access g) 7"
definition gate_dpl :: "gate \<Rightarrow> u8" where "gate_dpl g = drop_bit 5 (gate_access g) AND 3"
definition gate_type :: "gate \<Rightarrow> u8" where "gate_type g = gate_access g AND 0xF"

section \<open>System calls\<close>

text \<open>\<open>brk\<close>: the break moves by the argument, in 32 bits, unless it would reach 128 MB.\<close>

definition sys_brk :: "u32 \<Rightarrow> u32 \<Rightarrow> u32 \<times> u32" where
  "sys_brk ebx user_heap_end =
     (let old_break = user_heap_end; new_break = user_heap_end + ebx in
      if 128 * 1024 * 1024 \<le> new_break then (0, old_break) else (old_break, new_break))"

text \<open>\<open>k_mem\<close> is the memory by physical address, byte by byte, and \<open>k_pages\<close> the translation of the page tables in
  force: no value is a page that is not present. The objects of the kernel and the framebuffer are the other fields, not
  bytes of \<open>k_mem\<close>.\<close>

record kernel =
  k_desktop :: desktop
  k_mouse :: mouse
  lastKey :: char
  user_heap_end :: u32
  k_mem :: "u32 \<Rightarrow> u8"
  k_pages :: "u32 \<Rightarrow> u32 option"

definition on_desktop :: "(desktop \<Rightarrow> desktop option) \<Rightarrow> kernel \<Rightarrow> kernel option" where
  "on_desktop f k = map_option (\<lambda>d. k\<lparr>k_desktop := d\<rparr>) (f (k_desktop k))"

definition on_console :: "(console \<Rightarrow> console option) \<Rightarrow> kernel \<Rightarrow> kernel option" where
  "on_console f = on_desktop (\<lambda>d. map_option (\<lambda>c. d\<lparr>dt_con := c\<rparr>) (f (dt_con d)))"

definition k_io :: "kernel \<Rightarrow> io" where "k_io k = dt_io (k_desktop k)"

definition set_io :: "io \<Rightarrow> kernel \<Rightarrow> kernel" where
  "set_io io k = k\<lparr>k_desktop := (k_desktop k)\<lparr>dt_io := io\<rparr>\<rparr>"

text \<open>\<open>str[i]\<close> of a string of the user program.\<close>

definition user_byte :: "u32 \<Rightarrow> kernel \<Rightarrow> u8 option" where
  "user_byte a k = map_option (k_mem k) (k_pages k a)"

text \<open>\<open>write\<close>: one call of \<open>Console::Print\<close> per byte, on a buffer of the byte and a zero. Reading from a page
  that is not present ends it: \<open>Inl\<close> is the address of the page fault.\<close>

fun write_bytes :: "nat \<Rightarrow> u32 \<Rightarrow> kernel \<Rightarrow> (u32 + kernel) option" where
  "write_bytes 0 str k = Some (Inr k)"
| "write_bytes (Suc m) str k =
     (case user_byte str k of None \<Rightarrow> Some (Inl str)
      | Some b \<Rightarrow> on_console (Console_Print (cstr [char_of_byte b, NUL])) k \<bind> write_bytes m (str + 1))"

definition sys_write :: "u32 \<Rightarrow> u32 \<Rightarrow> kernel \<Rightarrow> (u32 + kernel) option" where
  "sys_write str count k = write_bytes (unat count) str k"

section \<open>The keyboard\<close>

text \<open>The branch of vector 0x21; \<open>n\<close> bounds the calls of \<open>WriteFile\<close> in the shell.\<close>

definition keyboard_scancode :: "nat \<Rightarrow> u8 \<Rightarrow> kernel \<Rightarrow> kernel option" where
  "keyboard_scancode n scancode k =
     (if scancode AND 0x80 \<noteq> 0
      then on_desktop (\<lambda>d. Some (OnKeyUp (uint (scancode AND 0x7F)) d)) k
      else let k1 = (if scancode < 0x80
                     then let c = ScancodeToAscii scancode in (if c \<noteq> NUL then k\<lparr>lastKey := c\<rparr> else k)
                     else k)
           in on_desktop (OnKeyDown n (uint scancode)) k1)"

definition keyboard_interrupt :: "nat \<Rightarrow> kernel \<Rightarrow> kernel option" where
  "keyboard_interrupt n k = do {
     (scancode, io) \<leftarrow> ReadPort 0x60 (k_io k);
     keyboard_scancode n scancode (set_io io k)
   }"

definition acknowledge_k :: "u8 \<Rightarrow> kernel \<Rightarrow> kernel" where
  "acknowledge_k v k = set_io (acknowledge v (k_io k)) k"

text \<open>The branch of vector 0x2C, and what the handler does for the vectors of the devices: the keyboard, the mouse,
  and for every other line the acknowledgement only.\<close>

definition mouse_interrupt :: "kernel \<Rightarrow> kernel option" where
  "mouse_interrupt k = do {
     (m, calls, io) \<leftarrow> Mouse_HandleInterrupt (k_mouse k) (k_io k);
     on_desktop (run_calls calls) (set_io io (k\<lparr>k_mouse := m\<rparr>))
   }"

definition device_interrupt :: "nat \<Rightarrow> u8 \<Rightarrow> kernel \<Rightarrow> kernel option" where
  "device_interrupt n v k = map_option (acknowledge_k v)
     (if v = 0x21 then keyboard_interrupt n k else if v = 0x2C then mouse_interrupt k else Some k)"

text \<open>\<open>read\<close>: with interrupts enabled, call \<open>GetChar\<close> until it gives a character. \<open>GetChar\<close> is two accesses to
  \<open>lastKey\<close>, the load into a register and the store of zero, and an interrupt may come before either. What
  happens is a list of these accesses and of interrupts; the register is empty before the load. No value is a
  call that still waits at the end of the list.\<close>

datatype wait_event = Access | Irq u8

fun read_loop :: "nat \<Rightarrow> char option \<Rightarrow> wait_event list \<Rightarrow> kernel \<Rightarrow> (char \<times> wait_event list \<times> kernel) option" where
  "read_loop n r [] k = None"
| "read_loop n None (Access # es) k = read_loop n (Some (lastKey k)) es k"
| "read_loop n (Some c) (Access # es) k =
     (let k1 = k\<lparr>lastKey := NUL\<rparr> in if c = NUL then read_loop n None es k1 else Some (c, es, k1))"
| "read_loop n r (Irq v # es) k = device_interrupt n v k \<bind> read_loop n r es"

definition sys_read :: "nat \<Rightarrow> wait_event list \<Rightarrow> kernel \<Rightarrow> (char \<times> wait_event list \<times> kernel) option" where
  "sys_read n es k = read_loop n None es k"

text \<open>\<open>reboot\<close>: wait for the controller's input buffer, then pulse the reset line.\<close>

function wait_controller :: "io \<Rightarrow> io option" where
  "wait_controller io = (case ReadPort 0x64 io of None \<Rightarrow> None
     | Some (good, io1) \<Rightarrow> if good AND 0x02 \<noteq> 0 then wait_controller io1 else Some io1)"
  by auto
termination
  by (relation "measure (\<lambda>io. length (answers io))") (auto dest: ReadPort_shrinks)

declare wait_controller.simps [simp del]

definition sys_reboot :: "kernel \<Rightarrow> kernel option" where
  "sys_reboot k = map_option (\<lambda>io. set_io (WritePort 0x64 0xFE io) k) (wait_controller (k_io k))"

section \<open>The page fault screen\<close>

text \<open>The 16-bit cells of the text screen that the panic writes before it stops for good.\<close>

definition panic_message :: string where
  "panic_message = ''PANIC: PAGE FAULT ADDR: 0x''"

definition hex_digits :: string where
  "hex_digits = ''0123456789ABCDEF''"

definition panic_cell :: "char \<Rightarrow> u16" where
  "panic_cell c = 0x4F00 OR of_nat (of_char c)"

definition panic_screen :: "u32 \<Rightarrow> u16 list" where
  "panic_screen cr2 = map panic_cell panic_message
     @ map (\<lambda>i. panic_cell (hex_digits ! unat (drop_bit ((7 - i) * 4) cr2 AND 0xF))) [0..<8]"

section \<open>The handler\<close>

text \<open>\<open>Returned\<close> carries the registers back, in the order of \<open>pushad\<close> (EAX is word 7, EBX 4, ECX 6,
  EDX 5); \<open>Stopped\<close> is the endless loop of the panic with what the screen shows.\<close>

datatype outcome = Returned kernel "u32 list" | Stopped "u16 list"

definition syscall :: "nat \<Rightarrow> wait_event list \<Rightarrow> u32 list \<Rightarrow> kernel \<Rightarrow> (u32 + kernel \<times> u32 list) option" where
  "syscall n waits regs k = do {
     eax \<leftarrow> arr_get regs 7; ebx \<leftarrow> arr_get regs 4; ecx \<leftarrow> arr_get regs 6; edx \<leftarrow> arr_get regs 5;
     if eax = 4 then map_option (map_sum id (\<lambda>k. (k, regs))) (sys_write ecx edx k)
     else if eax = 3 then do {
       (c, _, k1) \<leftarrow> sys_read n waits k;
       Some (Inr (k1, regs[7 := scast (of_nat (of_char c) :: u8)]))
     }
     else if eax = 45 then
       (let (r, e) = sys_brk ebx (user_heap_end k) in Some (Inr (k\<lparr>user_heap_end := e\<rparr>, regs[7 := r])))
     else if eax = 88 then map_option (\<lambda>k. Inr (k, regs)) (sys_reboot k)
     else Some (Inr (k, regs))
   }"

text \<open>A page fault in the middle of a system call is vector 14, entered with the address in CR2.\<close>

definition HandleInterrupt :: "nat \<Rightarrow> wait_event list \<Rightarrow> u32 \<Rightarrow> u8 \<Rightarrow> u32 list \<Rightarrow> kernel \<Rightarrow> outcome option" where
  "HandleInterrupt n waits cr2 interrupt regs k =
     (if interrupt = 14 then Some (Stopped (panic_screen cr2))
      else do {
        r \<leftarrow>
          (if interrupt = 0x80 then syscall n waits regs k
           else if interrupt = 0x21 then map_option (\<lambda>k. Inr (k, regs)) (keyboard_interrupt n k)
           else if interrupt = 0x2C then map_option (\<lambda>k. Inr (k, regs)) (mouse_interrupt k)
           else Some (Inr (k, regs)));
        Some (case r of Inl a \<Rightarrow> Stopped (panic_screen a)
          | Inr (k1, regs1) \<Rightarrow> Returned (acknowledge_k interrupt k1) regs1)
      })"

lemma HandleInterrupt_device:
  "v \<noteq> 14 \<Longrightarrow> v \<noteq> 0x80 \<Longrightarrow>
   HandleInterrupt n waits cr2 v regs k = map_option (\<lambda>k. Returned k regs) (device_interrupt n v k)"
  by (cases "keyboard_interrupt n k"; cases "mouse_interrupt k") (simp_all add: HandleInterrupt_def device_interrupt_def)

section \<open>The descriptor table\<close>

lemma gate_handler_halves:
  "gate_handler \<lparr>handlerAddressLowBits = ucast (h AND 0xFFFF), gdt_codeSegmentSelector = s, gate_reserved = r,
     gate_access = a, handlerAddressHighBits = ucast (drop_bit 16 h AND 0xFFFF)\<rparr> = h"
proof -
  have m: "(0xFFFF :: u32) = mask 16" by (simp add: mask_eq_exp_minus_1)
  show ?thesis unfolding gate_handler_def m
  proof (rule bit_word_eqI)
    fix n assume n: "n < LENGTH(32)"
    show "bit (ucast (handlerAddressLowBits \<lparr>handlerAddressLowBits = ucast (h AND mask 16), gdt_codeSegmentSelector = s,
        gate_reserved = r, gate_access = a, handlerAddressHighBits = ucast (drop_bit 16 h AND mask 16)\<rparr>)
      OR push_bit 16 (ucast (handlerAddressHighBits \<lparr>handlerAddressLowBits = ucast (h AND mask 16), gdt_codeSegmentSelector = s,
        gate_reserved = r, gate_access = a, handlerAddressHighBits = ucast (drop_bit 16 h AND mask 16)\<rparr>)) :: u32) n = bit h n"
      using n by (cases "n < 16") (auto simp: bit_simps)
  qed
qed

lemma gate_access_bits:
  assumes "dpl \<in> {0, 3 :: u8}"
  shows "bit (0x80 OR push_bit 5 (dpl AND 3) OR 0xE :: u8) 7" "drop_bit 5 (0x80 OR push_bit 5 (dpl AND 3) OR 0xE :: u8) AND 3 = dpl"
    "(0x80 OR push_bit 5 (dpl AND 3) OR 0xE :: u8) AND 0xF = 0xE"
  using assms by auto

definition gate_is :: "u32 \<Rightarrow> u16 \<Rightarrow> u8 \<Rightarrow> gate \<Rightarrow> bool" where
  "gate_is h sel dpl g \<longleftrightarrow> gate_handler g = h \<and> gdt_codeSegmentSelector g = sel \<and> gate_present g
     \<and> gate_dpl g = dpl \<and> gate_type g = 0xE"

lemma SetGate_nth:
  assumes "dpl \<in> {0, 3 :: u8}" "length idt = 256" "i < 256"
  shows "if i = unat v then gate_is h sel dpl (SetGate v sel h dpl 0xE idt ! i) else SetGate v sel h dpl 0xE idt ! i = idt ! i"
proof (cases "i = unat v")
  case True
  then show ?thesis using assms(2,3) gate_access_bits [OF assms(1)]
    by (simp add: SetGate_def gate_is_def gate_handler_halves gate_present_def gate_dpl_def gate_type_def)
qed (simp add: SetGate_def)

lemma SetGate_length [simp]: "length (SetGate v sel h dpl t idt) = length idt"
  by (simp add: SetGate_def)

lemma init_gates_nth:
  "n \<le> 256 \<Longrightarrow> length idt = 256 \<Longrightarrow> length (init_gates n sel h idt) = 256 \<and> (\<forall>i < n. gate_is h sel 0 (init_gates n sel h idt ! i))"
proof (induction n)
  case (Suc n)
  have u: "unat (of_nat n :: u8) = n" using Suc.prems(1) by (simp add: unat_of_nat)
  have IH: "length (init_gates n sel h idt) = 256" "\<forall>i < n. gate_is h sel 0 (init_gates n sel h idt ! i)"
    using Suc by simp_all
  have "gate_is h sel 0 (init_gates (Suc n) sel h idt ! i)" if "i < Suc n" for i
    using SetGate_nth [of 0 "init_gates n sel h idt" i "of_nat n" h sel] IH that Suc.prems(1) u
    by (cases "i = n") (auto split: if_splits)
  with IH(1) show ?case by simp
qed simp

lemma InterruptManager_gates:
  assumes "length idt = 256" and "InterruptManager_init st g idt io = (idt', io')" and "i < 256"
  shows "gate_is (if i = 0x20 then stub_timer st else if i = 0x21 then stub_keyboard st else if i = 0x2C then stub_mouse st
      else if i = 0x80 then stub_syscall st else if i = 14 then stub_page_fault st else stub_ignore st)
    (CodeSegmentSelector g) (if i = 0x80 then 3 else 0) (idt' ! i)"
proof -
  let ?sel = "CodeSegmentSelector g"
  define t0 where "t0 = init_gates 256 ?sel (stub_ignore st) idt"
  define t1 where "t1 = SetGate 0x20 ?sel (stub_timer st) 0 0xE t0"
  define t2 where "t2 = SetGate 0x21 ?sel (stub_keyboard st) 0 0xE t1"
  define t3 where "t3 = SetGate 0x2C ?sel (stub_mouse st) 0 0xE t2"
  define t4 where "t4 = SetGate 0x80 ?sel (stub_syscall st) 3 0xE t3"
  have t5: "idt' = SetGate 14 ?sel (stub_page_fault st) 0 0xE t4"
    using assms(2) by (simp add: InterruptManager_init_def Let_def t0_def t1_def t2_def t3_def t4_def)
  have l0: "length t0 = 256" and g0: "gate_is (stub_ignore st) ?sel 0 (t0 ! i)"
    using init_gates_nth [of 256 idt] assms by (simp_all add: t0_def)
  then have l: "length t1 = 256" "length t2 = 256" "length t3 = 256" "length t4 = 256"
    by (simp_all add: t1_def t2_def t3_def t4_def)
  have u: "unat (0x20 :: u8) = 0x20" "unat (0x21 :: u8) = 0x21" "unat (0x2C :: u8) = 0x2C"
    "unat (0x80 :: u8) = 0x80" "unat (14 :: u8) = 14" by simp_all
  have z: "(0 :: u8) \<in> {0, 3}" "(3 :: u8) \<in> {0, 3}" by simp_all
  note s1 = SetGate_nth [OF z(1) l0 assms(3), of "0x20" "stub_timer st" ?sel, folded t1_def, unfolded u]
  note s2 = SetGate_nth [OF z(1) l(1) assms(3), of "0x21" "stub_keyboard st" ?sel, folded t2_def, unfolded u]
  note s3 = SetGate_nth [OF z(1) l(2) assms(3), of "0x2C" "stub_mouse st" ?sel, folded t3_def, unfolded u]
  note s4 = SetGate_nth [OF z(2) l(3) assms(3), of "0x80" "stub_syscall st" ?sel, folded t4_def, unfolded u]
  note s5 = SetGate_nth [OF z(1) l(4) assms(3), of 14 "stub_page_fault st" ?sel, folded t5, unfolded u]
  show ?thesis using s1 s2 s3 s4 s5 g0 by (auto split: if_splits)
qed

text \<open>C29: the descriptor table. Whatever the 256 entries held, the constructor leaves every one a present
  32-bit interrupt gate to the kernel's code segment; the vectors 14, 0x20, 0x21, 0x2C and 0x80 go to
  their own stubs and every other to the ignoring one; and 0x80 is the only gate a program in ring 3 may call.\<close>

theorem interrupt_gates:
  assumes "length idt = 256" and "InterruptManager_init st g idt io = (idt', io')" and "i < 256"
  shows "gate_is (if i = 0x20 then stub_timer st else if i = 0x21 then stub_keyboard st else if i = 0x2C then stub_mouse st
      else if i = 0x80 then stub_syscall st else if i = 14 then stub_page_fault st else stub_ignore st)
    (CodeSegmentSelector g) (if i = 0x80 then 3 else 0) (idt' ! i)"
  by (rule InterruptManager_gates [OF assms])

theorem interrupt_gates_witness:
  "\<exists>idt' io'. InterruptManager_init \<lparr>stub_ignore = 0x100000, stub_timer = 0x100010, stub_keyboard = 0x100020,
       stub_mouse = 0x100030, stub_syscall = 0x100040, stub_page_fault = 0x100050\<rparr> (gdt_init 0)
       (replicate 256 \<lparr>handlerAddressLowBits = 0, gdt_codeSegmentSelector = 0, gate_reserved = 0, gate_access = 0,
         handlerAddressHighBits = 0\<rparr>) \<lparr>answers = [], events = []\<rparr> = (idt', io')
    \<and> gate_is 0x100040 8 3 (idt' ! 0x80)"
proof -
  let ?st = "\<lparr>stub_ignore = 0x100000, stub_timer = 0x100010, stub_keyboard = 0x100020,
       stub_mouse = 0x100030, stub_syscall = 0x100040, stub_page_fault = 0x100050\<rparr>"
  let ?idt = "replicate 256 \<lparr>handlerAddressLowBits = 0, gdt_codeSegmentSelector = 0, gate_reserved = 0, gate_access = 0,
         handlerAddressHighBits = 0\<rparr>"
  obtain idt' io' where r: "InterruptManager_init ?st (gdt_init 0) ?idt \<lparr>answers = [], events = []\<rparr> = (idt', io')"
    by (cases "InterruptManager_init ?st (gdt_init 0) ?idt \<lparr>answers = [], events = []\<rparr>")
  have "CodeSegmentSelector (gdt_init 0) = 8" by (simp add: CodeSegmentSelector_def gdt_init_def)
  moreover have "length ?idt = 256" by (simp only: length_replicate)
  ultimately show ?thesis using interrupt_gates [OF _ r, of "0x80"] r by (intro exI [of _ idt'] exI [of _ io']) simp
qed

section \<open>The break\<close>

definition brk_ok :: "u32 \<Rightarrow> bool" where
  "brk_ok e \<longleftrightarrow> 0x800000 \<le> unat e \<and> unat e < 128 * 1024 * 1024"

lemma sys_brk_grow:
  assumes "brk_ok e" "unat n < 2 ^ 31" "sys_brk n e = (p, e')"
  shows "brk_ok e' \<and> unat e \<le> unat e' \<and> (p \<noteq> 0 \<longrightarrow> p = e \<and> unat e' = unat e + unat n)
    \<and> (p = 0 \<longrightarrow> e' = e \<and> 128 * 1024 * 1024 \<le> unat e + unat n)"
proof -
  have w: "unat (e + n) = unat e + unat n" using assms(1,2) by (intro unat_plus_no_wrap) (simp add: brk_ok_def)
  show ?thesis
  proof (cases "128 * 1024 * 1024 \<le> e + n")
    case True
    then show ?thesis using assms w by (simp add: sys_brk_def word_le_nat_alt)
  next
    case False
    then have "p = e" "e' = e + n" using assms(3) by (auto simp: sys_brk_def)
    moreover have "unat e + unat n < 128 * 1024 * 1024" using False w by (simp add: word_le_nat_alt)
    moreover have "e \<noteq> 0" using assms(1) by (auto simp: brk_ok_def)
    ultimately show ?thesis using assms(1) w by (simp add: brk_ok_def)
  qed
qed

interpretation ub: bump_region sys_brk unat "\<lambda>e. 128 * 1024 * 1024" brk_ok
proof unfold_locales
  fix h n p h' :: u32
  obtain q e where r: "sys_brk n h = (q, e)" by (cases "sys_brk n h")
  show "brk_ok h \<Longrightarrow> unat n < 2 ^ 31 \<Longrightarrow> brk_ok (snd (sys_brk n h))" using sys_brk_grow [OF _ _ r] by (simp add: r)
  show "128 * 1024 * 1024 = (128 * 1024 * 1024 :: nat)" by simp
  show "brk_ok h \<Longrightarrow> unat n < 2 ^ 31 \<Longrightarrow> unat h \<le> unat (snd (sys_brk n h))" using sys_brk_grow [OF _ _ r] by (simp add: r)
  show "brk_ok h \<Longrightarrow> unat n < 2 ^ 31 \<Longrightarrow> sys_brk n h = (p, h') \<Longrightarrow> p \<noteq> 0 \<Longrightarrow>
      unat h \<le> unat p \<and> unat p + unat n \<le> unat h' \<and> unat p + unat n \<le> 128 * 1024 * 1024"
    using sys_brk_grow [of h n p h'] by (auto simp: brk_ok_def)
qed

text \<open>C30: the break. For increments below 2 GB, whatever the sequence of calls, the blocks the program
  gets are pairwise disjoint, start at 8 MB or above and end at 128 MB or below, and the break never
  moves down.\<close>

theorem brk_blocks_disjoint:
  assumes "brk_ok e" and "\<forall>n \<in> set ns. unat n < 2 ^ 31" and "alloc_all sys_brk ns e = (bs, e')"
  shows "sorted_wrt disjoint_blocks bs \<and> brk_ok e' \<and> unat e \<le> unat e'
    \<and> (\<forall>b \<in> set bs. unat e \<le> fst b \<and> fst b + snd b \<le> 128 * 1024 * 1024)"
  using ub.alloc_all_disjoint [OF assms] ub.alloc_all_region [OF assms] by auto

theorem brk_blocks_disjoint_witness:
  "alloc_all sys_brk [62, 0x7FFFFFFF, 100] 0x800000 = ([(0x800000, 62), (0x80003E, 100)], 0x8000A2)
   \<and> sorted_wrt disjoint_blocks [(0x800000, 62), (0x80003E :: nat, 100)]"
proof -
  have r: "alloc_all sys_brk [62, 0x7FFFFFFF, 100] 0x800000 = ([(0x800000, 62), (0x80003E, 100)], 0x8000A2)"
    by (simp add: sys_brk_def)
  have "brk_ok 0x800000" "\<forall>n \<in> set [62, 0x7FFFFFFF, 100 :: u32]. unat n < 2 ^ 31" by (simp_all add: brk_ok_def)
  from brk_blocks_disjoint [OF this r] r show ?thesis by blast
qed

text \<open>The break is not confined. Two calls with ordinary increments get the program a block inside the
  kernel's own heap, and a negative increment moves the break down over the kernel's image at 1 MB.\<close>

theorem brk_reaches_kernel:
  "(let (p1, e1) = sys_brk 0x200000 0x800000; (p2, e2) = sys_brk 4096 e1
    in p1 = 0x800000 \<and> p2 = heap_start boot_heap \<and> p2 + 4096 < heap_end boot_heap)
   \<and> (let (p1, e1) = sys_brk (- 0x700000) 0x800000; (p2, e2) = sys_brk 4096 e1 in p1 \<noteq> 0 \<and> p2 = 0x100000)"
  by (simp add: sys_brk_def boot_heap_def kheap_init_def)

section \<open>Writing\<close>

lemma Console_Print_append: "Console_Print (s @ t) c = Console_Print s c \<bind> Console_Print t"
proof (induction s arbitrary: c)
  case (Cons ch s)
  then show ?case by (cases "print_char ch c") simp_all
qed simp

text \<open>The text a call of \<open>write\<close> names, through the page tables; no value when a byte lies in a page not present.\<close>

definition user_text :: "u32 \<Rightarrow> u32 \<Rightarrow> kernel \<Rightarrow> string option" where
  "user_text str count k = those (map (\<lambda>i. map_option char_of_byte (user_byte (str + of_nat i) k)) [0..<unat count])"

lemma user_byte_console [simp]: "user_byte a (k\<lparr>k_desktop := d\<rparr>) = user_byte a k"
  by (simp add: user_byte_def)

definition with_console :: "console \<Rightarrow> kernel \<Rightarrow> kernel" where
  "with_console c k = k\<lparr>k_desktop := (k_desktop k)\<lparr>dt_con := c\<rparr>\<rparr>"

lemma with_console_simps [simp]:
  "with_console c (with_console d k) = with_console c k" "dt_con (k_desktop (with_console c k)) = c"
  "user_byte a (with_console c k) = user_byte a k" "with_console (dt_con (k_desktop k)) k = k"
  by (simp_all add: with_console_def)

lemma on_console_eq: "on_console f k = map_option (\<lambda>c. with_console c k) (f (dt_con (k_desktop k)))"
  by (cases "f (dt_con (k_desktop k))") (simp_all add: on_console_def on_desktop_def with_console_def)

lemma print_byte: "Console_Print (cstr [ch, NUL]) c = Console_Print (filter (\<lambda>ch. ch \<noteq> NUL) [ch]) c"
  by simp

lemma write_bytes_present:
  assumes "\<And>i. i < m \<Longrightarrow> user_byte (str + of_nat i) k \<noteq> None"
  shows "write_bytes m str k = map_option (\<lambda>c. Inr (with_console c k))
    (Console_Print (filter (\<lambda>ch. ch \<noteq> NUL) (map (\<lambda>i. char_of_byte (the (user_byte (str + of_nat i) k))) [0..<m])) (dt_con (k_desktop k)))"
  using assms
proof (induction m arbitrary: str k)
  case (Suc m)
  obtain b where b: "user_byte str k = Some b" using Suc.prems [of 0] by auto
  let ?text = "map (\<lambda>i. char_of_byte (the (user_byte (str + 1 + of_nat i) k))) [0..<m]"
  have IH: "write_bytes m (str + 1) (with_console c k) = map_option (\<lambda>c. Inr (with_console c k))
    (Console_Print (filter (\<lambda>ch. ch \<noteq> NUL) ?text) c)" for c
    using Suc.IH [of "str + 1" "with_console c k"] Suc.prems [of "Suc _"] by (simp add: add.assoc)
  have "map (\<lambda>i. char_of_byte (the (user_byte (str + of_nat i) k))) [0..<Suc m] = [char_of_byte b] @ ?text"
    using b by (simp add: upt_conv_Cons map_Suc_upt [symmetric] add.assoc del: upt_Suc)
  then have f: "filter (\<lambda>ch. ch \<noteq> NUL) (map (\<lambda>i. char_of_byte (the (user_byte (str + of_nat i) k))) [0..<Suc m])
      = filter (\<lambda>ch. ch \<noteq> NUL) [char_of_byte b] @ filter (\<lambda>ch. ch \<noteq> NUL) ?text"
    by (simp only: filter_append)
  show ?case
    unfolding f Console_Print_append write_bytes.simps b option.case on_console_eq print_byte
    by (cases "Console_Print (filter (\<lambda>ch. ch \<noteq> NUL) [char_of_byte b]) (dt_con (k_desktop k))")
      (simp_all only: IH option.map Option.bind.simps)
qed simp

lemma write_bytes_fault:
  assumes "con_ok (dt_con (k_desktop k))" and "i < m" and "user_byte (str + of_nat i) k = None"
    and "\<And>j. j < i \<Longrightarrow> user_byte (str + of_nat j) k \<noteq> None"
  shows "write_bytes m str k = Some (Inl (str + of_nat i))"
  using assms
proof (induction m arbitrary: str k i)
  case (Suc m)
  show ?case
  proof (cases i)
    case 0
    then show ?thesis using Suc.prems(3) by simp
  next
    case (Suc j)
    obtain b where b: "user_byte str k = Some b" using Suc.prems(4) [of 0] Suc by auto
    obtain c where c: "Console_Print (cstr [char_of_byte b, NUL]) (dt_con (k_desktop k)) = Some c" "con_ok c"
      using Print_total [OF Suc.prems(1)] by blast
    have "write_bytes m (str + 1) (with_console c k) = Some (Inl (str + 1 + of_nat j))"
      using Suc.prems(2-3) Suc.prems(4) [of "Suc _"] Suc c(2)
      by (intro Suc.IH) (simp_all add: add.assoc)
    then show ?thesis using b c(1) Suc by (simp add: on_console_eq add.assoc)
  qed
qed simp

lemma those_map: "(\<forall>x \<in> set xs. f x \<noteq> None) \<Longrightarrow> those (map f xs) = Some (map (the \<circ> f) xs)"
  by (induction xs) auto

lemma sys_write_text:
  assumes "user_text str count k = Some t"
  shows "sys_write str count k
    = map_option (\<lambda>c. Inr (with_console c k)) (Console_Print (filter (\<lambda>ch. ch \<noteq> NUL) t) (dt_con (k_desktop k)))"
proof -
  let ?f = "\<lambda>i. map_option char_of_byte (user_byte (str + of_nat i) k)"
  have "those xs = Some ys \<Longrightarrow> None \<notin> set xs" for xs and ys :: string
    by (induction xs arbitrary: ys) (auto split: option.splits)
  from this [OF assms [unfolded user_text_def]] have p: "user_byte (str + of_nat i) k \<noteq> None" if "i < unat count" for i
    using that by force
  then have "those (map ?f [0..<unat count]) = Some (map (the \<circ> ?f) [0..<unat count])" by (intro those_map) auto
  then have "t = map (the \<circ> ?f) [0..<unat count]" using assms by (simp add: user_text_def)
  also have "\<dots> = map (\<lambda>i. char_of_byte (the (user_byte (str + of_nat i) k))) [0..<unat count]"
    using p by (auto simp: option.map_sel)
  finally show ?thesis using write_bytes_present [OF p] by (simp add: sys_write_def)
qed

text \<open>C31: \<open>write\<close> prints the count of bytes it is given, zero bytes dropped. On a console in order, for a buffer
  in memory that drawing does not change: when every byte lies in a page that is present, printing byte by byte through two-byte buffers is one call of \<open>Console::Print\<close> on the whole text without
  its zeros, so that a zero does not end the output, and the call returns to the program with its registers, wherever
  the text cursor is; of the kernel's state only the console changes. When one lies in a page that is not present,
  the machine stops in the panic screen of the first such address.\<close>

theorem sys_write_prints:
  assumes "con_ok (dt_con (k_desktop k))" and "length regs = 8" and "regs ! 7 = 4"
  shows "case user_text (regs ! 6) (regs ! 5) k of
      Some t \<Rightarrow> (\<exists>c. HandleInterrupt n waits cr2 0x80 regs k = Some (Returned (with_console c k) regs) \<and> con_ok c
        \<and> Console_Print (filter (\<lambda>ch. ch \<noteq> NUL) t) (dt_con (k_desktop k)) = Some c)
    | None \<Rightarrow> (\<exists>i < unat (regs ! 5). user_byte (regs ! 6 + of_nat i) k = None
        \<and> (\<forall>j < i. user_byte (regs ! 6 + of_nat j) k \<noteq> None)
        \<and> HandleInterrupt n waits cr2 0x80 regs k = Some (Stopped (panic_screen (regs ! 6 + of_nat i))))"
proof -
  have sc: "syscall n waits regs k = map_option (map_sum id (\<lambda>k. (k, regs))) (sys_write (regs ! 6) (regs ! 5) k)"
    using assms(2,3) by (simp add: syscall_def arr_get_def)
  have ack: "acknowledge_k 0x80 k = k" for k by (simp add: acknowledge_k_def set_io_def acknowledge_def k_io_def)
  show ?thesis
  proof (cases "user_text (regs ! 6) (regs ! 5) k")
    case (Some t)
    obtain c where "Console_Print (filter (\<lambda>ch. ch \<noteq> NUL) t) (dt_con (k_desktop k)) = Some c" "con_ok c"
      using Print_total [OF assms(1)] by blast
    then show ?thesis using Some by (simp add: HandleInterrupt_def sc sys_write_text ack)
  next
    case None
    let ?P = "\<lambda>i. i < unat (regs ! 5) \<and> user_byte (regs ! 6 + of_nat i) k = None"
    have "\<exists>i. ?P i"
    proof (rule ccontr)
      assume "\<not> ?thesis"
      then have "user_text (regs ! 6) (regs ! 5) k \<noteq> None" unfolding user_text_def by (subst those_map) auto
      then show False using None by simp
    qed
    define i where "i = (LEAST i. ?P i)"
    have i: "?P i" unfolding i_def by (rule LeastI_ex) fact
    have j: "user_byte (regs ! 6 + of_nat j) k \<noteq> None" if "j < i" for j
      using not_less_Least [of j ?P] that i unfolding i_def [symmetric] by auto
    have "sys_write (regs ! 6) (regs ! 5) k = Some (Inl (regs ! 6 + of_nat i))"
      unfolding sys_write_def using i j by (intro write_bytes_fault [OF assms(1)]) auto
    then show ?thesis using None i j by (auto simp: HandleInterrupt_def sc)
  qed
qed

definition demo_kernel :: kernel where
  "demo_kernel = \<lparr>k_desktop = demo_desktop\<lparr>active_window := None, dt_io := \<lparr>answers = [0x1E, 0x9E, 0x30], events = []\<rparr>\<rparr>,
     k_mouse = mouse_start, lastKey = NUL, user_heap_end = 0x800000,
     k_mem = (\<lambda>a. if a = 0x400000 then 0x68 else if a = 0x400002 then 0x69 else 0),
     k_pages = (\<lambda>a. if a < 0x8000000 then Some a else None)\<rparr>"

theorem sys_write_prints_witness:
  "\<exists>c. HandleInterrupt 1 [] 0 0x80 [0, 0, 0, 0, 1, 3, 0x400000, 4] demo_kernel
      = Some (Returned (with_console c demo_kernel) [0, 0, 0, 0, 1, 3, 0x400000, 4])
    \<and> Console_Print ''hi'' small_screen = Some c"
proof -
  have con: "dt_con (k_desktop demo_kernel) = small_screen" by (simp add: demo_kernel_def demo_desktop_def)
  have "[0..<unat (3 :: u32)] = [0, 1, 2]" by (simp add: upt_rec)
  then have t: "user_text 0x400000 3 demo_kernel = Some [CHR ''h'', NUL, CHR ''i'']"
    by (simp add: user_text_def user_byte_def demo_kernel_def char_of_byte_def char_of_def bit_Suc_0_iff)
  show ?thesis
    using sys_write_prints [of demo_kernel "[0, 0, 0, 0, 1, 3, 0x400000, 4]" 1 "[]" 0] small_screen_ok
    by (auto simp: con t)
qed

section \<open>Reading: a mailbox of one key\<close>

lemma no_release_bit:
  fixes s :: u8
  assumes "s AND 0x80 = 0"
  shows "s < 0x80"
proof -
  have m: "(0x80 :: u8) = push_bit 7 1" by simp
  have "bit (s AND push_bit 7 1) 7 = bit s 7" by (simp add: bit_simps)
  then have "\<not> bit s 7" using assms unfolding m by simp
  then have "take_bit 7 s = s" by (intro bit_word_eqI) (auto simp: bit_simps less_Suc_eq numeral_eq_Suc)
  then have "unat s = take_bit 7 (unat s)" by (metis unsigned_take_bit_eq)
  then have "unat s < 2 ^ 7" by (metis take_bit_nat_less_exp)
  then show ?thesis by (simp add: word_less_nat_alt)
qed

lemma keyboard_interrupt_lastKey:
  assumes "keyboard_interrupt n k = Some k'"
  shows "\<exists>a as. answers (k_io k) = a # as
    \<and> lastKey k' = (if ScancodeToAscii (ucast a) \<noteq> NUL then ScancodeToAscii (ucast a) else lastKey k)"
proof -
  obtain a as where a: "answers (k_io k) = a # as"
    using assms by (auto simp: keyboard_interrupt_def ReadPort_def split: list.splits)
  define s :: u8 where "s = ucast a"
  obtain k1 where k1: "keyboard_scancode n s k1 = Some k'" "lastKey k1 = lastKey k"
    using assms a by (auto simp: keyboard_interrupt_def ReadPort_def s_def set_io_def)
  have "lastKey k' = (if ScancodeToAscii s \<noteq> NUL then ScancodeToAscii s else lastKey k)"
  proof (cases "s AND 0x80 = 0")
    case True
    then have "s < 0x80" by (rule no_release_bit)
    then show ?thesis using k1 True
      by (auto simp: keyboard_scancode_def on_desktop_def Let_def split: if_splits)
  next
    case False
    then have "s \<notin> set keyboard_scancodes" by (auto simp: keyboard_scancodes_def)
    then have "ScancodeToAscii s = NUL" by (rule ScancodeToAscii_other)
    then show ?thesis using k1 False by (auto simp: keyboard_scancode_def on_desktop_def)
  qed
  then show ?thesis using a by (simp add: s_def)
qed

text \<open>The scancodes of the keyboard interrupts of a wait, when every interrupt runs to its end. Only the accesses
  of the loop touch \<open>lastKey\<close> in between; whether the next one is the store is the second argument.\<close>

fun irq_codes :: "nat \<Rightarrow> bool \<Rightarrow> wait_event list \<Rightarrow> kernel \<Rightarrow> u8 list option" where
  "irq_codes n loaded [] k = Some []"
| "irq_codes n loaded (Access # es) k = irq_codes n (\<not> loaded) es (if loaded then k\<lparr>lastKey := NUL\<rparr> else k)"
| "irq_codes n loaded (Irq v # es) k = do {
     k1 \<leftarrow> device_interrupt n v k;
     ss \<leftarrow> irq_codes n loaded es k1;
     Some (if v = 0x21 then ucast (hd (answers (k_io k))) # ss else ss)
   }"

text \<open>The abstract wait: a mailbox that holds at most one character, and a register. Fetching is two steps, and a
  character that arrives between them is gone.\<close>

definition post_key :: "u8 \<Rightarrow> char \<Rightarrow> char" where
  "post_key s c = (if ScancodeToAscii s \<noteq> NUL then ScancodeToAscii s else c)"

fun mailbox :: "char \<Rightarrow> char option \<Rightarrow> u8 list \<Rightarrow> wait_event list \<Rightarrow> (char \<times> wait_event list) option" where
  "mailbox c r ss [] = None"
| "mailbox c None ss (Access # es) = mailbox c (Some c) ss es"
| "mailbox c (Some d) ss (Access # es) = (if d = NUL then mailbox NUL None ss es else Some (d, es))"
| "mailbox c r ss (Irq v # es) =
     (if v \<noteq> 0x21 then mailbox c r ss es else case ss of [] \<Rightarrow> None | s # ss' \<Rightarrow> mailbox (post_key s c) r ss' es)"

lemma acknowledge_k_lastKey [simp]: "lastKey (acknowledge_k v k) = lastKey k"
  by (simp add: acknowledge_k_def set_io_def)

lemma mouse_interrupt_lastKey: "mouse_interrupt k = Some k' \<Longrightarrow> lastKey k' = lastKey k"
  by (auto simp: mouse_interrupt_def on_desktop_def set_io_def bind_eq_Some_conv)

lemma device_interrupt_lastKey:
  assumes "device_interrupt n v k = Some k'"
  shows "lastKey k' = (if v = 0x21 then post_key (ucast (hd (answers (k_io k)))) (lastKey k) else lastKey k)"
  using assms by (auto simp: device_interrupt_def post_key_def dest: mouse_interrupt_lastKey keyboard_interrupt_lastKey split: if_splits)

lemma irq_codes_length: "irq_codes n b es k = Some ss \<Longrightarrow> length ss = count_list es (Irq 0x21)"
  by (induction n b es k arbitrary: ss rule: irq_codes.induct) (auto simp: bind_eq_Some_conv)

lemma read_loop_refines:
  "irq_codes n (r \<noteq> None) es k = Some ss \<Longrightarrow>
   map_option (\<lambda>(c, rest, k'). (c, rest)) (read_loop n r es k) = mailbox (lastKey k) r ss es"
proof (induction es arbitrary: k r ss)
  case (Cons e es)
  show ?case
  proof (cases e)
    case Access
    show ?thesis
    proof (cases r)
      case None
      then show ?thesis using Cons.IH [of "Some (lastKey k)" k ss] Cons.prems Access by simp
    next
      case (Some c)
      then show ?thesis using Cons.IH [of None "k\<lparr>lastKey := NUL\<rparr>" ss] Cons.prems Access by simp
    qed
  next
    case (Irq v)
    then obtain k1 ss' where k1: "device_interrupt n v k = Some k1" "irq_codes n (r \<noteq> None) es k1 = Some ss'"
      "ss = (if v = 0x21 then ucast (hd (answers (k_io k))) # ss' else ss')"
      using Cons.prems by (auto simp: bind_eq_Some_conv simp del: not_None_eq)
    then show ?thesis using Cons.IH [OF k1(2)] device_interrupt_lastKey [OF k1(1)] Irq by (cases r) auto
  qed
qed simp

text \<open>C28: \<open>read\<close> waits on a mailbox of one character. Whatever interrupts of the devices come before, between and
  after the two memory accesses of each turn of its loop, as long as each interrupt runs to its end, \<open>read\<close> returns
  at the access and with the character the mailbox gives: a key pressed before the last one was fetched
  replaces it, and one that comes between the load and the store is lost.\<close>

theorem sys_read_mailbox:
  assumes "irq_codes n False es k = Some ss"
  shows "map_option (\<lambda>(c, r, k'). (c, r)) (sys_read n es k) = mailbox (lastKey k) None ss es"
  unfolding sys_read_def by (rule read_loop_refines) (simp add: assms)

abbreviation demo_events :: "wait_event list" where
  "demo_events \<equiv> [Access, Access, Irq 0x20, Irq 0x21, Irq 0x21, Irq 0x21, Access, Access, Access]"

lemma demo_irqs: "irq_codes 1 False demo_events demo_kernel = Some [0x1E, 0x9E, 0x30]"
  by (simp add: demo_kernel_def device_interrupt_def keyboard_interrupt_def keyboard_scancode_def on_desktop_def k_io_def set_io_def
    acknowledge_k_def acknowledge_def port_defs OnKeyDown_def OnKeyUp_def ScancodeToAscii_def Let_def)

theorem sys_read_mailbox_witness:
  "map_option (\<lambda>(c, r, k'). (c, r)) (sys_read 1 demo_events demo_kernel) = Some (CHR ''b'', [Access])"
  using sys_read_mailbox [OF demo_irqs] by (simp add: demo_kernel_def post_key_def ScancodeToAscii_def)

lemma suffix_cons: "suffix post r \<Longrightarrow> suffix post (e # r)"
  by (auto simp: suffix_def)

lemma mailbox_loaded:
  "d \<noteq> NUL \<Longrightarrow> 1 \<le> count_list mid Access \<Longrightarrow> count_list mid (Irq 0x21) \<le> length ss \<Longrightarrow>
   \<exists>r. mailbox c (Some d) ss (mid @ post) = Some (d, r) \<and> suffix post r"
proof (induction mid arbitrary: c ss)
  case (Cons e mid)
  show ?case
  proof (cases e)
    case Access
    then show ?thesis using Cons.prems by (auto simp: suffix_def)
  next
    case (Irq v)
    then show ?thesis using Cons by (cases ss) auto
  qed
qed simp

lemma mailbox_full:
  "c \<noteq> NUL \<Longrightarrow> 2 \<le> count_list mid Access \<Longrightarrow> count_list mid (Irq 0x21) \<le> length ss \<Longrightarrow>
   \<exists>c' r. mailbox c None ss (mid @ post) = Some (c', r) \<and> c' \<noteq> NUL \<and> suffix post r"
proof (induction mid arbitrary: c ss)
  case (Cons e mid)
  show ?case
  proof (cases e)
    case Access
    then have "\<exists>r. mailbox c (Some c) ss (mid @ post) = Some (c, r) \<and> suffix post r"
      using Cons.prems by (intro mailbox_loaded) auto
    then show ?thesis using Access Cons.prems(1) by auto
  next
    case (Irq v)
    show ?thesis
    proof (cases "v = 0x21")
      case True
      then obtain s rest where "ss = s # rest" using Cons.prems(3) Irq by (cases ss) auto
      then show ?thesis using Cons True Irq by (simp add: post_key_def)
    next
      case False
      then show ?thesis using Cons Irq by simp
    qed
  qed
qed simp

lemma mailbox_returns:
  "ScancodeToAscii (ss ! count_list pre (Irq 0x21)) \<noteq> NUL \<Longrightarrow> count_list (pre @ Irq 0x21 # mid) (Irq 0x21) \<le> length ss \<Longrightarrow>
   2 \<le> count_list mid Access \<Longrightarrow> even (count_list pre Access) = (r = None) \<Longrightarrow>
   \<exists>c' q. mailbox c r ss (pre @ Irq 0x21 # mid @ post) = Some (c', q) \<and> c' \<noteq> NUL \<and> suffix post q"
proof (induction pre arbitrary: c r ss)
  case Nil
  then obtain s rest where "ss = s # rest" by (cases ss) auto
  then show ?case using Nil mailbox_full [of "post_key s c" mid rest post] by (simp add: post_key_def)
next
  case (Cons e pre)
  show ?case
  proof (cases e)
    case Access
    have "suffix post (pre @ Irq 0x21 # mid @ post)" by (auto intro!: suffixI [of _ "pre @ Irq 0x21 # mid"])
    then show ?thesis using Cons.IH [of ss "Some c" c] Cons.IH [of ss None NUL] Cons.prems Access by (cases r) auto
  next
    case (Irq v)
    show ?thesis
    proof (cases "v = 0x21")
      case True
      then obtain s rest where "ss = s # rest" using Cons.prems(2) Irq by (cases ss) auto
      then show ?thesis using Cons.IH [of rest r "post_key s c"] Cons.prems True Irq by simp
    next
      case False
      then show ?thesis using Cons.IH [of ss r c] Cons.prems Irq by simp
    qed
  qed
qed

text \<open>C32: \<open>read\<close> returns once a key with a character has been pressed while its loop was not between the load and the
  store of \<open>GetChar\<close>: after two more memory accesses of the loop at the latest, with some character, whatever came
  before and whatever interrupts come in between, as long as each runs to its end.\<close>

theorem sys_read_returns:
  assumes "irq_codes n False (pre @ Irq 0x21 # mid @ post) k = Some ss"
    and "ScancodeToAscii (ss ! count_list pre (Irq 0x21)) \<noteq> NUL"
    and "even (count_list pre Access)" and "2 \<le> count_list mid Access"
  shows "\<exists>c r k'. sys_read n (pre @ Irq 0x21 # mid @ post) k = Some (c, r, k') \<and> c \<noteq> NUL \<and> suffix post r"
proof -
  have "count_list (pre @ Irq 0x21 # mid) (Irq 0x21) \<le> length ss" using irq_codes_length [OF assms(1)] by simp
  from mailbox_returns [OF assms(2) this assms(4), of None "lastKey k" post] assms(3) obtain c r where
    "mailbox (lastKey k) None ss (pre @ Irq 0x21 # mid @ post) = Some (c, r)" "c \<noteq> NUL" "suffix post r" by auto
  moreover have "map_option (\<lambda>(c, r, k'). (c, r)) (sys_read n (pre @ Irq 0x21 # mid @ post) k)
      = mailbox (lastKey k) None ss (pre @ Irq 0x21 # mid @ post)"
    unfolding sys_read_def by (rule read_loop_refines) (simp add: assms(1))
  ultimately show ?thesis by auto
qed

theorem sys_read_returns_witness:
  "\<exists>c r k'. sys_read 1 demo_events demo_kernel = Some (c, r, k') \<and> c \<noteq> NUL \<and> suffix [Access] r"
proof -
  have "irq_codes 1 False ([Access, Access, Irq 0x20, Irq 0x21, Irq 0x21] @ Irq 0x21 # [Access, Access] @ [Access]) demo_kernel
      = Some [0x1E, 0x9E, 0x30]" using demo_irqs by simp
  from sys_read_returns [OF this] show ?thesis by (simp add: ScancodeToAscii_def)
qed

text \<open>A key that is pressed between the load and the store is lost: with nothing in the mailbox before, and no other key
  after, \<open>read\<close> never returns however long the loop runs.\<close>

lemma mailbox_empty: "mailbox NUL None ss (replicate m Access) = None \<and> mailbox NUL (Some NUL) ss (replicate m Access) = None"
  by (induction m) simp_all

theorem read_loses_key:
  assumes "device_interrupt n 0x21 k = Some k1" and "lastKey k = NUL"
  shows "sys_read n (Access # Irq 0x21 # replicate m Access) k = None"
proof -
  have "irq_codes n b (replicate m Access) k = Some []" for b k by (induction m arbitrary: b k) simp_all
  then have "irq_codes n False (Access # Irq 0x21 # replicate m Access) k = Some [ucast (hd (answers (k_io k)))]"
    using assms(1) by simp
  note r = read_loop_refines [where r = None, simplified, OF this]
  have "mailbox c (Some NUL) [] (replicate m Access) = None" for c using mailbox_empty [of "[]"] by (cases m) simp_all
  then show ?thesis using r assms(2) by (simp add: sys_read_def)
qed

theorem read_loses_key_witness:
  "ScancodeToAscii 0x1E = CHR ''a'' \<and> (\<forall>m. sys_read 1 (Access # Irq 0x21 # replicate m Access) demo_kernel = None)"
proof -
  have "\<exists>k1. device_interrupt 1 0x21 demo_kernel = Some k1"
    by (simp add: demo_kernel_def device_interrupt_def keyboard_interrupt_def keyboard_scancode_def on_desktop_def k_io_def set_io_def
      port_defs OnKeyDown_def ScancodeToAscii_def Let_def)
  then obtain k1 where "device_interrupt 1 0x21 demo_kernel = Some k1" by blast
  from read_loses_key [OF this] show ?thesis by (simp add: demo_kernel_def ScancodeToAscii_def)
qed

section \<open>The panic screen can be read back\<close>

text \<open>The cells as a reader sees them: the character is the low byte, the colours the high one.\<close>

definition cell_digit :: "u16 \<Rightarrow> u32" where
  "cell_digit c = of_nat (length (takeWhile (\<lambda>h. panic_cell h \<noteq> c) hex_digits))"

definition read_hex :: "u16 list \<Rightarrow> u32" where
  "read_hex cells = foldl (\<lambda>a c. 16 * a + cell_digit c) 0 cells"

lemma cell_digit_nibble: "d < 16 \<Longrightarrow> cell_digit (panic_cell (hex_digits ! d)) = of_nat d"
proof -
  assume "d < 16"
  moreover have "\<forall>d \<in> set [0..<16]. cell_digit (panic_cell (hex_digits ! d)) = of_nat d"
    by (simp add: cell_digit_def panic_cell_def hex_digits_def upt_rec)
  ultimately show ?thesis by simp
qed

lemma nibble: "cell_digit (panic_cell (hex_digits ! unat (v AND 0xF))) = (v AND 0xF)" for v :: u32
proof -
  have "(v AND 0xF) = take_bit 4 v" by (simp add: take_bit_eq_mask mask_eq_exp_minus_1)
  then have "unat (v AND 0xF) < 2 ^ 4" by (simp only: unsigned_take_bit_eq take_bit_nat_less_exp)
  then show ?thesis by (simp add: cell_digit_nibble)
qed

lemma push_nibble: "16 * drop_bit (m + 4) v + (drop_bit m v AND 0xF) = drop_bit m v" for v :: u32
proof -
  have "(0xF :: u32) = mask 4" by (simp add: mask_eq_exp_minus_1)
  then have "drop_bit m v AND 0xF = take_bit 4 (drop_bit m v)" by (simp add: take_bit_eq_mask)
  moreover have "16 * drop_bit (m + 4) v = push_bit 4 (drop_bit 4 (drop_bit m v))"
    by (simp add: push_bit_eq_mult add.commute)
  ultimately show ?thesis using bits_ident [of 4 "drop_bit m v"] by simp
qed

text \<open>The panic screen shows the faulting address. Every cell is white on red, the screen starts with the
  message, and the eight digits after it, read as a hexadecimal number, are the address.\<close>

theorem panic_screen_readable:
  "read_hex (drop (length panic_message) (panic_screen cr2)) = cr2
   \<and> take (length panic_message) (panic_screen cr2) = map panic_cell panic_message
   \<and> length (panic_screen cr2) = length panic_message + 8
   \<and> list_all (\<lambda>c. drop_bit 8 c = 0x4F) (panic_screen cr2)"
proof -
  have cells: "drop (length panic_message) (panic_screen cr2)
      = map (\<lambda>i. panic_cell (hex_digits ! unat (drop_bit ((7 - i) * 4) cr2 AND 0xF))) [0..<8]"
    by (simp add: panic_screen_def)
  have "drop_bit 28 cr2 AND mask 4 = drop_bit 28 cr2"
    by (rule bit_word_eqI) (auto simp: bit_simps dest: bit_imp_le_length)
  then have z: "drop_bit 28 cr2 AND 0xF = drop_bit 28 cr2" by (simp add: mask_eq_exp_minus_1)
  have step: "16 * drop_bit 28 cr2 + (drop_bit 24 cr2 AND 0xF) = drop_bit 24 cr2"
    "16 * drop_bit 24 cr2 + (drop_bit 20 cr2 AND 0xF) = drop_bit 20 cr2"
    "16 * drop_bit 20 cr2 + (drop_bit 16 cr2 AND 0xF) = drop_bit 16 cr2"
    "16 * drop_bit 16 cr2 + (drop_bit 12 cr2 AND 0xF) = drop_bit 12 cr2"
    "16 * drop_bit 12 cr2 + (drop_bit 8 cr2 AND 0xF) = drop_bit 8 cr2"
    "16 * drop_bit 8 cr2 + (drop_bit 4 cr2 AND 0xF) = drop_bit 4 cr2"
    "16 * drop_bit 4 cr2 + (drop_bit 0 cr2 AND 0xF) = drop_bit 0 cr2"
    using push_nibble [of 24 cr2] push_nibble [of 20 cr2] push_nibble [of 16 cr2] push_nibble [of 12 cr2]
      push_nibble [of 8 cr2] push_nibble [of 4 cr2] push_nibble [of 0 cr2] by simp_all
  have "map (\<lambda>i. (7 - i) * 4) [0..<8] = [28, 24, 20, 16, 12, 8, 4, 0 :: nat]" by (simp add: upt_rec)
  then have "map (\<lambda>i. panic_cell (hex_digits ! unat (drop_bit ((7 - i) * 4) cr2 AND 0xF))) [0..<8]
      = map (\<lambda>m. panic_cell (hex_digits ! unat (drop_bit m cr2 AND 0xF))) [28, 24, 20, 16, 12, 8, 4, 0]"
    by (metis (no_types, lifting) map_map comp_apply map_eq_conv)
  then have "read_hex (drop (length panic_message) (panic_screen cr2)) = drop_bit 0 cr2"
    by (simp only: cells read_hex_def list.map foldl_Cons foldl_Nil nibble nibble [of "drop_bit 28 cr2", unfolded z] z step
      mult_zero_right add_0)
  then have "read_hex (drop (length panic_message) (panic_screen cr2)) = cr2" by simp
  moreover have "drop_bit 8 (panic_cell c) = 0x4F" for c
  proof -
    have "unat (of_nat (of_char c) :: u16) < 256" using nat_of_char_less_256 [of c]
      by (simp add: unat_of_nat le_less_trans [OF mod_less_eq_dividend])
    then have "unat (drop_bit 8 (of_nat (of_char c) :: u16)) = 0" by (simp add: drop_bit_eq_div unat_div_distrib)
    then have "drop_bit 8 (of_nat (of_char c) :: u16) = 0" by (simp only: unat_eq_zero)
    then show ?thesis by (simp add: panic_cell_def drop_bit_or)
  qed
  ultimately show ?thesis by (auto simp: panic_screen_def list_all_iff)
qed

section \<open>The kernel's state under interrupts\<close>

definition kernel_ok :: "kernel \<Rightarrow> bool" where
  "kernel_ok k \<longleftrightarrow> desktop_ok (k_desktop k) \<and> mouse_ok (k_mouse k) \<and> pointer_agrees (k_mouse k) (k_desktop k)
     \<and> brk_ok (user_heap_end k)"

text \<open>What the interrupt controllers are owed for a vector.\<close>

definition eois :: "u8 \<Rightarrow> io_event list" where
  "eois v = (if 0x20 \<le> v \<and> v < 0x30 then OutB 0x20 0x20 # (if 0x28 \<le> v then [OutB 0xA0 0x20] else []) else [])"

lemma acknowledge_events: "events (acknowledge v io) = events io @ eois v" "answers (acknowledge v io) = answers io"
  by (simp_all add: acknowledge_def eois_def WritePort_def Let_def)

lemma acknowledge_k_simps:
  "kernel_ok (acknowledge_k v k) = kernel_ok k" "events (k_io (acknowledge_k v k)) = events (k_io k) @ eois v"
  "answers (k_io (acknowledge_k v k)) = answers (k_io k)" "user_heap_end (acknowledge_k v k) = user_heap_end k"
  by (simp_all add: acknowledge_k_def set_io_def k_io_def kernel_ok_def desktop_ok_def pointer_agrees_def acknowledge_events)

lemma mouse_interrupt_ok:
  assumes "kernel_ok k" "6 \<le> length (answers (k_io k))"
  shows "\<exists>k1. mouse_interrupt k = Some k1 \<and> kernel_ok k1"
proof -
  have ok: "desktop_ok (k_desktop k)" "mouse_ok (k_mouse k)" "pointer_agrees (k_mouse k) (k_desktop k)" "brk_ok (user_heap_end k)"
    using assms(1) by (simp_all add: kernel_ok_def)
  obtain a1 a2 rest where a: "answers (k_io k) = a1 # a2 # rest" "4 \<le> length rest"
    using assms(2) by (cases "answers (k_io k)"; cases "tl (answers (k_io k))") auto
  obtain m calls io where h: "Mouse_HandleInterrupt (k_mouse k) (k_io k) = Some (m, calls, io)" "4 \<le> length (answers io)"
    and c: "(m, calls) = (k_mouse k, []) \<or> (\<exists>b. (m, calls) = mouse_data b (k_mouse k))"
  proof (cases "(ucast a1 :: u8) AND 0x20 = 0")
    case True
    then have "Mouse_HandleInterrupt (k_mouse k) (k_io k)
      = Some (k_mouse k, [], (k_io k)\<lparr>answers := a2 # rest, events := events (k_io k) @ [InB CMD_PORT (ucast a1)]\<rparr>)"
      using a by (simp add: Mouse_HandleInterrupt_def ReadPort_def)
    then show ?thesis by (rule that) (use a in simp_all)
  next
    case False
    obtain m calls where mc: "mouse_data (ucast a2) (k_mouse k) = (m, calls)" by (cases "mouse_data (ucast a2) (k_mouse k)")
    from False have "Mouse_HandleInterrupt (k_mouse k) (k_io k)
      = Some (m, calls, (k_io k)\<lparr>answers := rest,
          events := events (k_io k) @ [InB CMD_PORT (ucast a1), InB DATA_PORT (ucast a2)]\<rparr>)"
      using a mc by (simp add: Mouse_HandleInterrupt_def ReadPort_def)
    then show ?thesis by (rule that) (use a mc in \<open>auto intro: sym\<close>)
  qed
  define d where "d = (k_desktop k)\<lparr>dt_io := io\<rparr>"
  have d: "desktop_ok d" "pointer_agrees (k_mouse k) d" "4 \<le> ticks d"
    using ok h(2) by (simp_all add: d_def desktop_ok_def pointer_agrees_def ticks_def)
  have "\<exists>e. run_calls calls d = Some e \<and> desktop_ok e \<and> pointer_agrees m e \<and> mouse_ok m"
    using c
  proof
    assume "(m, calls) = (k_mouse k, [])"
    then show ?thesis using d ok by simp
  next
    assume "\<exists>b. (m, calls) = mouse_data b (k_mouse k)"
    then obtain b where "mouse_data b (k_mouse k) = (m, calls)" by force
    then show ?thesis using mouse_data_desktop [OF ok(2) d, of b] mouse_data_ok [OF ok(2), of b] by auto
  qed
  then obtain e where e: "run_calls calls d = Some e" "desktop_ok e" "pointer_agrees m e" "mouse_ok m" by blast
  have "mouse_interrupt k = Some (k\<lparr>k_mouse := m, k_desktop := e\<rparr>)"
    using h(1) e(1) by (simp add: mouse_interrupt_def on_desktop_def set_io_def d_def)
  then show ?thesis using e ok(4) by (simp add: kernel_ok_def)
qed



end
