(* ===== verification/UserHeap.thy ===== *)
theory UserHeap
  imports Allocator Interrupts
begin

text \<open>
  The allocator of the user program, programs/main.cpp: \<open>malloc\<close> and \<open>free\<close> on a list of headers in memory, on
  top of \<open>sbrk\<close>. \<open>umem\<close> is the memory as the program addresses it; from 10 MB on the kernel keeps its own heap in the
  same bytes, so that what a program may rely on is stated with steps in which the kernel changes them. What they need of \<open>sbrk\<close> is the interface \<open>user_break\<close>, an
  extension of the one the kernel heap provides, and the kernel's system call 45 provides it.
\<close>

section \<open>State and operations\<close>

definition store_header :: "u32 \<Rightarrow> u32 \<Rightarrow> u32 \<Rightarrow> memory \<Rightarrow> memory" where
  "store_header p n next m = store32 (p + 8) next ((store32 p n m)(p + 4 := 0))"

definition malloc :: "(u32 \<Rightarrow> 'k \<Rightarrow> u32 \<times> 'k) \<Rightarrow> u32 \<Rightarrow> 'k user \<Rightarrow> (u32 \<times> 'k user) option" where
  "malloc sbrk n u = do {
     here \<leftarrow> find_free (umem u) n (heap_head u);
     if here \<noteq> 0 then Some (here + 12, u\<lparr>umem := (umem u)(here + 4 := 0)\<rparr>)
     else let total_size = 12 + n; (p, k) = sbrk total_size (kern u) in
       if p = 0 then Some (0, u\<lparr>kern := k\<rparr>)
       else Some (p + 12, u\<lparr>umem := store_header p n (heap_head u) (umem u), heap_head := p, kern := k\<rparr>)
   }"

definition user_free :: "u32 \<Rightarrow> 'k user \<Rightarrow> 'k user" where
  "user_free p u = (if p = 0 then u else u\<lparr>umem := (umem u)(p - 12 + 4 := 1)\<rparr>)"

text \<open>\<open>int 0x80\<close> with the number in EAX and the arguments in EBX, ECX and EDX, here at their places in
  \<open>pushad\<close>'s frame; the result comes back in EAX.\<close>

definition user_syscall :: "nat \<Rightarrow> wait_event list \<Rightarrow> u32 \<Rightarrow> u32 \<Rightarrow> u32 \<Rightarrow> u32 \<Rightarrow> kernel \<Rightarrow> (u32 \<times> kernel) option" where
  "user_syscall n waits num a1 a2 a3 k = (case HandleInterrupt n waits 0 0x80 [0, 0, 0, 0, a1, a3, a2, num] k of
     Some (Returned k' regs) \<Rightarrow> Some (regs ! 7, k') | _ \<Rightarrow> None)"

definition sbrk :: "u32 \<Rightarrow> kernel \<Rightarrow> u32 \<times> kernel" where
  "sbrk incr k = (case user_syscall 0 [] 45 incr 0 0 k of Some r \<Rightarrow> r | None \<Rightarrow> (0, k))"

text \<open>The operators, and \<open>getc\<close>: the low byte of what system call 3 returns.\<close>

definition user_new :: "u32 \<Rightarrow> kernel user \<Rightarrow> (u32 \<times> kernel user) option" where
  "user_new n u = malloc sbrk n u"

definition user_delete :: "u32 \<Rightarrow> 'k user \<Rightarrow> 'k user" where
  "user_delete p u = user_free p u"

definition getc :: "nat \<Rightarrow> wait_event list \<Rightarrow> kernel \<Rightarrow> (char \<times> kernel) option" where
  "getc n waits k = map_option (\<lambda>(r, k'). (char_of (unat (ucast r :: u8)), k')) (user_syscall n waits 3 0 0 0 k)"

text \<open>A new header beyond all blocks.\<close>

lemma store_header_same:
  assumes "unat p + 12 \<le> 2 ^ 32" "A \<inter> {unat p ..< unat p + 12} = {}"
  shows "same_on A m (store_header p n q m)"
proof -
  have o: "unat (p + 8) = unat p + 8" "unat (p + 4) = unat p + 4" using assms(1) by (simp_all add: unat_offsets)
  have "same_on A m (store32 p n m)" using assms by (intro store32_same_on) auto
  moreover have "same_on A (store32 p n m) ((store32 p n m)(p + 4 := 0))"
    using assms by (intro byte_same_on) (auto simp: o)
  moreover have "same_on A ((store32 p n m)(p + 4 := 0)) (store_header p n q m)"
    unfolding store_header_def using assms by (intro store32_same_on) (auto simp: o)
  ultimately show ?thesis by (blast intro: same_on_trans)
qed

lemma store_header_fields:
  assumes "unat p + 12 \<le> 2 ^ 32"
  shows "load32 (store_header p n q m) p = n" "store_header p n q m (p + 4) = 0" "load32 (store_header p n q m) (p + 8) = q"
proof -
  have o: "unat (p + 8) = unat p + 8" "unat (p + 4) = unat p + 4" using assms(1) by (simp_all add: unat_offsets)
  have 1: "same_on {unat p ..< unat p + 8} ((store32 p n m)(p + 4 := 0)) (store_header p n q m)"
    unfolding store_header_def using assms by (intro store32_same_on) (auto simp: o)
  have 2: "same_on {unat p ..< unat p + 4} (store32 p n m) ((store32 p n m)(p + 4 := 0))"
    by (intro byte_same_on) (auto simp: o)
  have "same_on {unat p ..< unat p + 4} (store32 p n m) (store_header p n q m)"
    using 2 same_on_mono [OF 1] by (auto intro: same_on_trans)
  then show "load32 (store_header p n q m) p = n"
    using load32_same [of p "store32 p n m"] assms by simp
  show "store_header p n q m (p + 4) = 0" using 1 by (simp add: same_on_def o)
  show "load32 (store_header p n q m) (p + 8) = q" by (simp add: store_header_def)
qed

section \<open>The allocator on any break\<close>

locale user_break = bump_region +
  assumes frontier_limit: "inv h \<Longrightarrow> frontier h \<le> limit h"
    and limit_fits: "limit h < 2 ^ 32"
begin

lemma malloc_reuse:
  assumes "heap_repr lo hi u bs" "hi < 2 ^ 32" "List.find (fits n) bs = Some b"
  shows "\<exists>p u' bs'. malloc alloc n u = Some (p, u') \<and> kern u' = kern u \<and> heap_repr lo hi u' bs' \<and> p \<noteq> 0
    \<and> unat n \<le> unat (b_size b) \<and> (unat p, unat (b_size b)) \<notin> live bs
    \<and> live bs' = insert (unat p, unat (b_size b)) (live bs)
    \<and> (\<forall>c \<in> set bs. same_on (block (data c)) (umem u) (umem u'))"
proof -
  from reuse_block [OF assms] obtain bs' where
    r: "b_addr b \<noteq> 0" "b_addr b + 12 \<noteq> 0" "unat (b_addr b + 12) = unat (b_addr b) + 12"
      "heap_repr lo hi (u\<lparr>umem := (umem u)(b_addr b + 4 := 0)\<rparr>) bs'"
      "unat n \<le> unat (b_size b)" "data b \<notin> live bs" "live bs' = insert (data b) (live bs)"
      "\<forall>c \<in> set bs. same_on (block (data c)) (umem u) ((umem u)(b_addr b + 4 := 0))" by blast
  have "chain (umem u) (heap_head u) bs" using assms(1) by (simp add: heap_repr_def)
  then have "malloc alloc n u = Some (b_addr b + 12, u\<lparr>umem := (umem u)(b_addr b + 4 := 0)\<rparr>)"
    using find_free_chain [of "umem u" _ bs n] assms(3) r(1) by (simp add: malloc_def)
  then show ?thesis using r
    by (intro exI [of _ "b_addr b + 12"] exI [of _ "u\<lparr>umem := (umem u)(b_addr b + 4 := 0)\<rparr>"] exI [of _ bs'])
      (simp add: data_def del: fun_upd_apply)
qed

lemma malloc_fresh:
  assumes "inv (kern u)" "heap_repr lo (frontier (kern u)) u bs" "lo \<le> frontier (kern u)" "unat n < 2 ^ 31 - 12"
    "List.find (fits n) bs = None"
  shows "\<exists>p u' bs'. malloc alloc n u = Some (p, u') \<and> inv (kern u') \<and> frontier (kern u) \<le> frontier (kern u')
    \<and> heap_repr lo (frontier (kern u')) u' bs' \<and> kern u' = snd (alloc (12 + n) (kern u))
    \<and> (\<forall>c \<in> set bs. same_on (block (data c)) (umem u) (umem u'))
    \<and> (if p = 0 then bs' = bs \<and> umem u' = umem u \<and> heap_head u' = heap_head u \<and> fst (alloc (12 + n) (kern u)) = 0
       else (unat p, unat n) \<notin> live bs \<and> live bs' = insert (unat p, unat n) (live bs))"
proof -
  let ?f = "frontier (kern u)"
  obtain q k where qk: "alloc (12 + n) (kern u) = (q, k)" by (cases "alloc (12 + n) (kern u)")
  have t: "unat (12 + n) = 12 + unat n" using assms(4) by (subst unat_plus_no_wrap) simp_all
  then have t31: "unat (12 + n) < 2 ^ 31" using assms(4) by simp
  have k: "inv k" "?f \<le> frontier k" "frontier k < 2 ^ 32" "?f < 2 ^ 32"
    using inv_alloc [OF assms(1) t31] frontier_alloc [OF assms(1) t31] frontier_limit [of k] frontier_limit [OF assms(1)]
      limit_fits [of k] limit_fits [of "kern u"] by (simp_all add: qk)
  have c: "chain (umem u) (heap_head u) bs" "sorted_wrt apart bs" "\<forall>b \<in> set bs. block_in lo ?f b"
    using assms(2) by (simp_all add: heap_repr_def)
  have ff: "find_free (umem u) n (heap_head u) = Some 0" using find_free_chain [OF c(1), of n] assms(5) by simp
  show ?thesis
  proof (cases "q = 0")
    case True
    have "malloc alloc n u = Some (0, u\<lparr>kern := k\<rparr>)" using ff qk True by (simp add: malloc_def)
    moreover have "heap_repr lo (frontier k) (u\<lparr>kern := k\<rparr>) bs"
      using c k(2) by (auto simp: heap_repr_def block_in_def)
    ultimately show ?thesis using k qk True
      by (intro exI [of _ 0] exI [of _ "u\<lparr>kern := k\<rparr>"] exI [of _ bs]) simp
  next
    case False
    have b: "?f \<le> unat q" "unat q + 12 + unat n \<le> frontier k"
      using alloc_block [OF assms(1) t31 qk False] by (simp_all add: t)
    have q12: "unat q + 12 < 2 ^ 32" "unat (q + 12) = unat q + 12" using b(2) k(3) by (simp_all add: unat_offsets)
    define m where "m = store_header q n (heap_head u) (umem u)"
    define u' where "u' = u\<lparr>umem := m, heap_head := q, kern := k\<rparr>"
    define nb where "nb = \<lparr>b_addr = q, b_size = n, b_free = False\<rparr>"
    have call: "malloc alloc n u = Some (q + 12, u')" using ff qk False by (simp add: malloc_def u'_def m_def)
    have below: "same_on A (umem u) m" if "A \<subseteq> {0 ..< unat q}" for A
      unfolding m_def using q12 that by (intro store_header_same) auto
    have "chain m (heap_head u) bs"
    proof (rule chain_same [OF c(1)])
      show "\<forall>c \<in> set bs. block_in lo ?f c \<and> same_on (header c) (umem u) m"
        using c(3) b(1) by (fastforce intro!: below simp: header_def block_in_def)
    qed (use k in simp)
    then have ch: "chain m q (nb # bs)"
      using q12 False store_header_fields [of q n "heap_head u" "umem u"] by (simp add: nb_def m_def)
    have ab: "\<forall>c \<in> set bs. above nb c" using c(3) b(1) by (fastforce simp: above_def nb_def block_in_def)
    have rep: "heap_repr lo (frontier k) u' (nb # bs)"
      using ch ab c b k(2) assms(3) by (fastforce simp: heap_repr_def u'_def nb_def block_in_def apart_def)
    have d: "data nb = (unat (q + 12), unat n)" using q12 by (simp add: data_def nb_def)
    have lv: "live (nb # bs) = insert (data nb) (live bs)" by (auto simp: live_def nb_def)
    have "data nb \<notin> live bs" using ab by (auto simp: live_def above_def data_def)
    moreover have "q + 12 \<noteq> 0" using q12 by (metis add_eq_0_iff_both_eq_0 unsigned_0 zero_neq_numeral)
    moreover have "\<forall>c \<in> set bs. same_on (block (data c)) (umem u) m"
      using c(3) b(1) by (fastforce intro!: below simp: block_def data_def block_in_def)
    ultimately show ?thesis using call rep k lv d qk
      by (intro exI [of _ "q + 12"] exI [of _ u'] exI [of _ "nb # bs"]) (simp add: u'_def)
  qed
qed

lemma malloc_spec:
  assumes "inv (kern u)" "heap_repr lo (frontier (kern u)) u bs" "lo \<le> frontier (kern u)" "unat n < 2 ^ 31 - 12"
  shows "\<exists>p u' bs'. malloc alloc n u = Some (p, u') \<and> inv (kern u') \<and> frontier (kern u) \<le> frontier (kern u')
    \<and> heap_repr lo (frontier (kern u')) u' bs' \<and> (\<forall>c \<in> set bs. same_on (block (data c)) (umem u) (umem u'))
    \<and> (if p = 0 then bs' = bs \<and> List.find (fits n) bs = None \<and> fst (alloc (12 + n) (kern u)) = 0
       else (\<exists>s. unat n \<le> s \<and> (unat p, s) \<notin> live bs \<and> live bs' = insert (unat p, s) (live bs)))"
proof (cases "List.find (fits n) bs")
  case None
  from malloc_fresh [OF assms this] obtain p u' bs' where r: "malloc alloc n u = Some (p, u')" "inv (kern u')"
    "frontier (kern u) \<le> frontier (kern u')" "heap_repr lo (frontier (kern u')) u' bs'"
    "\<forall>c \<in> set bs. same_on (block (data c)) (umem u) (umem u')"
    "if p = 0 then bs' = bs \<and> umem u' = umem u \<and> heap_head u' = heap_head u \<and> fst (alloc (12 + n) (kern u)) = 0
       else (unat p, unat n) \<notin> live bs \<and> live bs' = insert (unat p, unat n) (live bs)" by blast
  then show ?thesis using None by (intro exI [of _ p] exI [of _ u'] exI [of _ bs']) auto
next
  case (Some b)
  have "frontier (kern u) < 2 ^ 32" using frontier_limit [OF assms(1)] limit_fits [of "kern u"] by simp
  from malloc_reuse [OF assms(2) this Some] obtain p u' bs' where r: "malloc alloc n u = Some (p, u')" "kern u' = kern u"
    "heap_repr lo (frontier (kern u)) u' bs'" "p \<noteq> 0" "unat n \<le> unat (b_size b)" "(unat p, unat (b_size b)) \<notin> live bs"
    "live bs' = insert (unat p, unat (b_size b)) (live bs)"
    "\<forall>c \<in> set bs. same_on (block (data c)) (umem u) (umem u')" by blast
  then show ?thesis using assms(1) by (intro exI [of _ p] exI [of _ u'] exI [of _ bs']) auto
qed

end

lemma user_free_spec:
  assumes "heap_repr lo hi u bs" "hi < 2 ^ 32" "(unat p, s) \<in> live bs"
  shows "\<exists>bs'. heap_repr lo hi (user_free p u) bs' \<and> live bs' = live bs - {(unat p, s)}
    \<and> (\<forall>c \<in> set bs. same_on (block (data c)) (umem u) (umem (user_free p u)))
    \<and> (\<exists>b \<in> set bs'. b_free b \<and> data b = (unat p, s))"
proof -
  obtain b where b: "b \<in> set bs" "\<not> b_free b" "unat p = unat (b_addr b) + 12" "s = unat (b_size b)"
    using assms(3) by (auto simp: live_def data_def)
  then obtain xs ys where bs: "bs = xs @ b # ys" by (meson split_list)
  have "unat (b_addr b) + 12 < 2 ^ 32" using assms(1,2) b(1) by (auto simp: heap_repr_def block_in_def)
  then have "unat (b_addr b + 12) = unat p" using b(3) by (simp add: unat_offsets)
  then have p: "p = b_addr b + 12" by (simp add: word_unat_eq_iff)
  have "p \<noteq> 0" using b(3) by (metis add_eq_0_iff_both_eq_0 unsigned_0 zero_neq_numeral)
  then have uf: "user_free p u = u\<lparr>umem := (umem u)(b_addr b + 4 := 1)\<rparr>" by (simp add: user_free_def p)
  have s: "sorted_wrt apart (xs @ b # ys)" using assms(1) by (simp add: heap_repr_def bs)
  have "heap_repr lo hi (user_free p u) (xs @ b\<lparr>b_free := True\<rparr> # ys)"
    using heap_repr_flag [of lo hi u xs b ys 1] assms(1,2) by (simp add: bs uf)
  moreover have "live (xs @ b\<lparr>b_free := True\<rparr> # ys) = live bs - {data b}" using live_flag [OF s, of True] by (simp add: bs)
  moreover have "data b = (unat p, s)" by (simp add: data_def b)
  moreover have "\<forall>c \<in> set bs. same_on (block (data c)) (umem u) (umem (user_free p u))"
    using flag_keeps_data [of lo hi u xs b ys _ 1] assms(1,2) by (simp add: bs uf del: fun_upd_apply)
  ultimately show ?thesis by (intro exI [of _ "xs @ b\<lparr>b_free := True\<rparr> # ys"]) simp
qed

section \<open>The kernel provides the break\<close>

lemma sbrk_eq:
  "sbrk incr k = (let (r, e) = sys_brk incr (user_heap_end k) in (r, acknowledge_k 0x80 (k\<lparr>user_heap_end := e\<rparr>)))"
  by (simp add: sbrk_def user_syscall_def HandleInterrupt_def syscall_def arr_get_def Let_def split: prod.split)

definition kernel_break_ok :: "kernel \<Rightarrow> bool" where
  "kernel_break_ok k \<longleftrightarrow> brk_ok (user_heap_end k)"

interpretation uh: user_break sbrk "unat \<circ> user_heap_end" "\<lambda>k. 128 * 1024 * 1024" kernel_break_ok
proof unfold_locales
  fix h :: kernel and n p :: u32 and h' :: kernel
  obtain q e where r: "sys_brk n (user_heap_end h) = (q, e)" by (cases "sys_brk n (user_heap_end h)")
  have b: "sbrk n h = (q, acknowledge_k 0x80 (h\<lparr>user_heap_end := e\<rparr>))" by (simp add: sbrk_eq r)
  show "kernel_break_ok h \<Longrightarrow> unat n < 2 ^ 31 \<Longrightarrow> kernel_break_ok (snd (sbrk n h))"
    using sys_brk_grow [OF _ _ r] by (simp add: b kernel_break_ok_def acknowledge_k_simps)
  show "128 * 1024 * 1024 = (128 * 1024 * 1024 :: nat)" by simp
  show "kernel_break_ok h \<Longrightarrow> unat n < 2 ^ 31 \<Longrightarrow> (unat \<circ> user_heap_end) h \<le> (unat \<circ> user_heap_end) (snd (sbrk n h))"
    using sys_brk_grow [OF _ _ r] by (simp add: b kernel_break_ok_def acknowledge_k_simps)
  show "kernel_break_ok h \<Longrightarrow> unat n < 2 ^ 31 \<Longrightarrow> sbrk n h = (p, h') \<Longrightarrow> p \<noteq> 0 \<Longrightarrow>
      (unat \<circ> user_heap_end) h \<le> unat p \<and> unat p + unat n \<le> (unat \<circ> user_heap_end) h' \<and> unat p + unat n \<le> 128 * 1024 * 1024"
    using sys_brk_grow [OF _ _ r] by (auto simp: b kernel_break_ok_def acknowledge_k_simps brk_ok_def)
  show "kernel_break_ok h \<Longrightarrow> (unat \<circ> user_heap_end) h \<le> 128 * 1024 * 1024" by (simp add: kernel_break_ok_def brk_ok_def)
  show "(128 * 1024 * 1024 :: nat) < 2 ^ 32" by simp
qed

lemma malloc_kernel:
  assumes "brk_ok (user_heap_end (kern u))" and "heap_repr 0x800000 (unat (user_heap_end (kern u))) u bs"
    and "unat n < 2 ^ 31 - 12"
  shows "\<exists>p u' bs'. malloc sbrk n u = Some (p, u') \<and> brk_ok (user_heap_end (kern u'))
    \<and> heap_repr 0x800000 (unat (user_heap_end (kern u'))) u' bs'
    \<and> (\<forall>b \<in> live bs. same_on (block b) (umem u) (umem u'))
    \<and> (if p = 0 then bs' = bs \<and> List.find (fits n) bs = None \<and> 128 * 1024 * 1024 \<le> unat (user_heap_end (kern u)) + 12 + unat n
       else \<exists>s. unat n \<le> s \<and> (unat p, s) \<notin> live bs \<and> live bs' = insert (unat p, s) (live bs)
         \<and> (\<forall>b \<in> live bs. disjoint_blocks (unat p, s) b))"
proof -
  let ?e = "user_heap_end (kern u)"
  have "kernel_break_ok (kern u)" "0x800000 \<le> (unat \<circ> user_heap_end) (kern u)" "heap_repr 0x800000 ((unat \<circ> user_heap_end) (kern u)) u bs"
    using assms(1,2) by (simp_all add: kernel_break_ok_def brk_ok_def)
  from uh.malloc_spec [OF this(1,3,2) assms(3)] obtain p u' bs' where r: "malloc sbrk n u = Some (p, u')"
    "brk_ok (user_heap_end (kern u'))" "heap_repr 0x800000 (unat (user_heap_end (kern u'))) u' bs'"
    "\<forall>c \<in> set bs. same_on (block (data c)) (umem u) (umem u')"
    "if p = 0 then bs' = bs \<and> List.find (fits n) bs = None \<and> fst (sbrk (12 + n) (kern u)) = 0
       else (\<exists>s. unat n \<le> s \<and> (unat p, s) \<notin> live bs \<and> live bs' = insert (unat p, s) (live bs))"
    unfolding kernel_break_ok_def comp_def by blast
  have "\<forall>b \<in> live bs. same_on (block b) (umem u) (umem u')" using r(4) by (auto simp: live_def)
  moreover have "128 * 1024 * 1024 \<le> unat ?e + 12 + unat n" if "fst (sbrk (12 + n) (kern u)) = 0"
  proof -
    obtain q e where b: "sys_brk (12 + n) ?e = (q, e)" by (cases "sys_brk (12 + n) ?e")
    have t: "unat (12 + n) = 12 + unat n" using assms(3) by (subst unat_plus_no_wrap) simp_all
    then show ?thesis using sys_brk_grow [OF assms(1) _ b] that assms(3) by (simp add: sbrk_eq b)
  qed
  moreover have "disjoint_blocks (unat p, s) b" if "(unat p, s) \<notin> live bs" "live bs' = insert (unat p, s) (live bs)" "b \<in> live bs" for s b
    using that r(3) by (intro live_disjoint [of bs']) (auto simp: heap_repr_def)
  ultimately show ?thesis using r by (intro exI [of _ p] exI [of _ u'] exI [of _ bs']) (auto split: if_splits)
qed

text \<open>C19: \<open>malloc\<close> and \<open>free\<close> of the user program against the kernel's break. On a heap whose header list
  is in order, \<open>malloc\<close> of less than 2 GB returns (the search of the list ends). A block it gives is new, at least
  as large as asked for, and the others stay as they are, bytes included; it gives none only when
  no free block fits and the kernel has no room up to 128 MB.\<close>

theorem malloc_gives_fresh_block:
  assumes "brk_ok (user_heap_end (kern u))" and "heap_repr 0x800000 (unat (user_heap_end (kern u))) u bs"
    and "unat n < 2 ^ 31 - 12"
  shows "\<exists>p u' bs'. malloc sbrk n u = Some (p, u') \<and> brk_ok (user_heap_end (kern u'))
    \<and> heap_repr 0x800000 (unat (user_heap_end (kern u'))) u' bs'
    \<and> (\<forall>b \<in> live bs. same_on (block b) (umem u) (umem u'))
    \<and> (if p = 0 then bs' = bs \<and> List.find (fits n) bs = None \<and> 128 * 1024 * 1024 \<le> unat (user_heap_end (kern u)) + 12 + unat n
       else \<exists>s. unat n \<le> s \<and> (unat p, s) \<notin> live bs \<and> live bs' = insert (unat p, s) (live bs)
         \<and> (\<forall>b \<in> live bs. disjoint_blocks (unat p, s) b))"
  by (rule malloc_kernel [OF assms])

definition demo_user :: "kernel user" where
  "demo_user = \<lparr>umem = (\<lambda>a. 0), heap_head = 0, kern = demo_kernel\<rparr>"

theorem malloc_gives_fresh_block_witness:
  "\<exists>p u' bs'. malloc sbrk 50 demo_user = Some (p, u') \<and> heap_repr 0x800000 (unat (user_heap_end (kern u'))) u' bs'"
proof -
  have "brk_ok (user_heap_end (kern demo_user))" "heap_repr 0x800000 (unat (user_heap_end (kern demo_user))) demo_user []"
    "unat (50 :: u32) < 2 ^ 31 - 12" by (simp_all add: demo_user_def demo_kernel_def brk_ok_def heap_repr_def)
  from malloc_gives_fresh_block [OF this] show ?thesis by blast
qed

section \<open>A program and its heap\<close>

text \<open>A heap in order whose break has not passed \<open>cap\<close>, and a request that keeps it so.\<close>

definition user_heap :: "nat \<Rightarrow> kernel user \<Rightarrow> blk list \<Rightarrow> bool" where
  "user_heap cap u bs \<longleftrightarrow> brk_ok (user_heap_end (kern u)) \<and> unat (user_heap_end (kern u)) \<le> cap
     \<and> heap_repr 0x800000 (unat (user_heap_end (kern u))) u bs"

definition user_may :: "nat \<Rightarrow> u32 \<Rightarrow> kernel user \<Rightarrow> bool" where
  "user_may cap n u \<longleftrightarrow> unat n < 2 ^ 31 - 12 \<and> unat (user_heap_end (kern u)) \<le> cap"

definition same_break :: "kernel \<Rightarrow> kernel \<Rightarrow> bool" where
  "same_break k k' \<longleftrightarrow> user_heap_end k' = user_heap_end k"

lemma user_block_allocator:
  "block_allocator (malloc sbrk) user_free (user_heap cap) (user_may cap) same_break 0x800000 cap"
proof unfold_locales
  fix u u' :: "kernel user" and bs and n p :: u32 and s and b and a :: u32 and v and m and k
  assume h: "user_heap cap u bs"
  then have i: "brk_ok (user_heap_end (kern u))" "heap_repr 0x800000 (unat (user_heap_end (kern u))) u bs"
    and cap: "unat (user_heap_end (kern u)) \<le> cap" by (simp_all add: user_heap_def)
  then have hi: "unat (user_heap_end (kern u)) < 2 ^ 32" by (simp add: brk_ok_def)
  show "sorted_wrt apart bs" using i(2) by (simp add: heap_repr_def)
  show "\<exists>bs'. user_heap cap u' bs' \<and> (\<forall>b \<in> live bs. same_on (block b) (umem u) (umem u'))
    \<and> (if p = 0 then live bs' = live bs else \<exists>s. unat n \<le> s \<and> (unat p, s) \<notin> live bs \<and> live bs' = insert (unat p, s) (live bs))"
    if call: "malloc sbrk n u = Some (p, u')" and n: "user_may cap n u'"
  proof -
    have "unat n < 2 ^ 31 - 12" using n by (simp add: user_may_def)
    from malloc_kernel [OF i this] call obtain bs' where r: "brk_ok (user_heap_end (kern u'))"
      "heap_repr 0x800000 (unat (user_heap_end (kern u'))) u' bs'" "\<forall>b \<in> live bs. same_on (block b) (umem u) (umem u')"
      "if p = 0 then bs' = bs \<and> List.find (fits n) bs = None \<and> 128 * 1024 * 1024 \<le> unat (user_heap_end (kern u)) + 12 + unat n
       else \<exists>s. unat n \<le> s \<and> (unat p, s) \<notin> live bs \<and> live bs' = insert (unat p, s) (live bs)
         \<and> (\<forall>b \<in> live bs. disjoint_blocks (unat p, s) b)" by auto
    then show ?thesis using n by (intro exI [of _ bs']) (auto simp: user_heap_def user_may_def split: if_splits)
  qed
  show "\<exists>bs'. user_heap cap (user_free p u) bs' \<and> live bs' = live bs - {(unat p, s)}
    \<and> (\<forall>b \<in> live bs. same_on (block b) (umem u) (umem (user_free p u)))"
    if p: "(unat p, s) \<in> live bs"
  proof -
    from user_free_spec [OF i(2) hi p] obtain bs' where
      r: "heap_repr 0x800000 (unat (user_heap_end (kern u))) (user_free p u) bs'" "live bs' = live bs - {(unat p, s)}"
        "\<forall>c \<in> set bs. same_on (block (data c)) (umem u) (umem (user_free p u))" by blast
    have "kern (user_free p u) = kern u" by (simp add: user_free_def)
    then show ?thesis using r(1,2) i(1) cap live_same [OF r(3)] by (intro exI [of _ bs']) (simp add: user_heap_def)
  qed
  show "b \<in> live bs \<Longrightarrow> unat a \<in> block b \<Longrightarrow> user_heap cap (u\<lparr>umem := (umem u)(a := v)\<rparr>) bs"
    using heap_repr_store [OF i(2) hi, of b a v] i(1) cap by (simp add: user_heap_def)
  show "user_heap cap (u\<lparr>umem := m, kern := k\<rparr>) bs"
    if "same_on {0x800000 ..< cap} (umem u) m" "same_break (kern u) k"
    using heap_repr_other [OF i(2) cap _ that(1), of k] hi i(1) cap that(2) by (simp add: user_heap_def same_break_def)
  show "b \<in> live bs \<Longrightarrow> 0x800000 \<le> fst b \<and> fst b + snd b \<le> cap"
    using heap_repr_bounds [OF i(2), of b] cap by auto
qed

text \<open>The break may move up to 128 MB; up to 10 MB, where the kernel's own heap begins, the blocks are the program's
  alone.\<close>

interpretation um: block_allocator "malloc sbrk" user_free "user_heap (128 * 1024 * 1024)" "user_may (128 * 1024 * 1024)"
  same_break "0x800000" "128 * 1024 * 1024"
  by (rule user_block_allocator)

interpretation ul: block_allocator "malloc sbrk" user_free "user_heap 0xA00000" "user_may 0xA00000" same_break "0x800000" "0xA00000"
  by (rule user_block_allocator)

abbreviation user_reach :: "kernel user \<Rightarrow> kernel user \<Rightarrow> (nat \<times> nat) set \<Rightarrow> memory \<Rightarrow> bool" where
  "user_reach \<equiv> program_reach (malloc sbrk) user_free (user_may 0xA00000) same_break 0x800000 0xA00000"

abbreviation heap_holds :: "kernel user \<Rightarrow> (nat \<times> nat) set \<Rightarrow> memory \<Rightarrow> blk list \<Rightarrow> bool" where
  "heap_holds \<equiv> owns (user_heap (128 * 1024 * 1024))"

lemma user_heap_empty:
  "brk_ok (user_heap_end (kern u)) \<Longrightarrow> unat (user_heap_end (kern u)) \<le> cap \<Longrightarrow> heap_head u = 0 \<Longrightarrow> user_heap cap u []"
  by (simp add: user_heap_def heap_repr_def)

text \<open>C8: a program that keeps to its blocks and leaves the break at 10 MB or below, where the kernel's own heap begins, has
  its memory to itself. From an empty heap, through any sequence of allocations below 2 GB that do not move the break
  beyond 10 MB, releases and writes inside what it holds, and whatever the kernel does in between to the memory outside
  the range from 8 MB to 10 MB and to its own state other than the break, the blocks the program holds are pairwise
  disjoint, lie between 8 MB and 10 MB, and hold exactly the bytes the program last wrote there.\<close>

theorem user_heap_separation:
  assumes "user_reach u0 u own cont" and "brk_ok (user_heap_end (kern u0))" and "unat (user_heap_end (kern u0)) \<le> 0xA00000"
    and "heap_head u0 = 0"
  shows "(\<forall>b \<in> own. \<forall>c \<in> own. b \<noteq> c \<longrightarrow> disjoint_blocks b c)
    \<and> (\<forall>b \<in> own. 0x800000 \<le> fst b \<and> fst b + snd b \<le> 0xA00000)
    \<and> (\<forall>b \<in> own. \<forall>a. unat a \<in> block b \<longrightarrow> umem u a = cont a)"
  using ul.reach_separation [OF assms(1) user_heap_empty [OF assms(2-4)]] by (simp add: live_def)

lemma malloc_first:
  assumes "find_free (umem u) n (heap_head u) = Some 0" "user_heap_end (kern u) = e" "e \<noteq> 0" "e + (12 + n) < 0x8000000"
  shows "malloc sbrk n u = Some (e + 12, u\<lparr>umem := store_header e n (heap_head u) (umem u), heap_head := e,
    kern := acknowledge_k 0x80 ((kern u)\<lparr>user_heap_end := e + (12 + n)\<rparr>)\<rparr>)"
proof -
  have "\<not> 0x8000000 \<le> e + (12 + n)" using assms(4) by simp
  then show ?thesis using assms(1-3) by (simp add: malloc_def sbrk_eq sys_brk_def Let_def)
qed

theorem user_heap_separation_witness:
  "\<exists>u c. user_reach demo_user u {(0x80000C, 50)} c \<and> umem u 0x80000D = 7 \<and> umem u 0xA00000 = 1"
proof -
  have ff: "find_free (umem demo_user) 50 (heap_head demo_user) = Some 0"
    by (simp add: find_free.simps demo_user_def)
  obtain u1 where m: "malloc sbrk 50 demo_user = Some (0x80000C, u1)" and e: "user_heap_end (kern u1) = 0x80003E"
    using malloc_first [OF ff, of "0x800000"] by (simp add: demo_user_def demo_kernel_def acknowledge_k_simps)
  have "user_may 0xA00000 50 u1" using e by (simp add: user_may_def)
  from program_reach.alloc [where request = "malloc sbrk" and may = "user_may 0xA00000" and u = demo_user, OF program_reach.start m this]
  have r1: "user_reach demo_user u1 (if (0x80000C :: u32) = 0 then {} else insert (unat (0x80000C :: u32), unat (50 :: u32)) {})
      (\<lambda>a. if (0x80000C :: u32) \<noteq> 0 \<and> unat a \<in> block (unat (0x80000C :: u32), unat (50 :: u32)) then umem u1 a else umem demo_user a)" .
  let ?c = "\<lambda>a. if unat a \<in> block (0x80000C, 50) then umem u1 a else umem demo_user a"
  have r1: "user_reach demo_user u1 {(0x80000C, 50)} ?c" using r1 by simp
  let ?u = "u1\<lparr>umem := (umem u1)(0x80000D := 7)\<rparr>" and ?m = "(umem u1)(0x80000D := 7, 0xA00000 := 1)"
  have r2: "user_reach demo_user ?u {(0x80000C, 50)} (?c(0x80000D := 7))"
    by (rule program_reach.store [OF r1]) (auto simp: block_def)
  have "user_reach demo_user (?u\<lparr>umem := ?m, kern := kern u1\<rparr>) {(0x80000C, 50)} (?c(0x80000D := 7))"
    by (rule program_reach.other [OF r2]) (auto simp: same_on_def same_break_def)
  then obtain u c where r: "user_reach demo_user u {(0x80000C, 50)} c" "c 0x80000D = 7" "umem u 0xA00000 = 1" by force
  have "brk_ok (user_heap_end (kern demo_user))" "unat (user_heap_end (kern demo_user)) \<le> 0xA00000" "heap_head demo_user = 0"
    by (simp_all add: demo_user_def demo_kernel_def brk_ok_def)
  from user_heap_separation [OF r(1) this] have "umem u 0x80000D = c 0x80000D" by (auto simp: block_def)
  then show ?thesis using r by auto
qed

lemma chain_out_of_reach:
  assumes "heap_repr lo hi u bs" "hi \<le> 2 ^ 32" "same_on {lo ..< hi} (umem u) m"
  shows "chain m (heap_head u) bs"
  using heap_repr_other [OF assms(1) le_refl assms(2,3), of "kern u"] by (simp add: heap_repr_def)



end
