(* ===== verification/UserShell.thy ===== *)
theory UserShell
  imports UserHeap
begin

text \<open>
  The rest of programs/main.cpp: the heap test at the start of \<open>main\<close> and the command loop. \<open>print\<close> and
  \<open>putc\<close> are the kernel's \<open>write\<close> on a string in the program's memory (lemma \<open>write_call\<close>), and \<open>getc\<close> is its
  \<open>read\<close>; the loop is a function of the characters it gets to the calls it makes.
\<close>

datatype user_call = Out string | RebootCall

definition BS :: char where "BS = CHR 0x08"

definition user_prompt :: string where "user_prompt = ''user@antigravity:~$ ''"

section \<open>The start of \<open>main\<close>\<close>

text \<open>\<open>delete[]\<close> is \<open>free\<close>; the result of \<open>new\<close> is not tested.\<close>

definition heap_test_text :: string where "heap_test_text = ''Heap!''"

fun poke :: "u32 \<Rightarrow> string \<Rightarrow> memory \<Rightarrow> memory" where
  "poke a [] m = m"
| "poke a (c # cs) m = poke (a + 1) cs (m(a := byte_of_char c))"

definition main_start :: "kernel user \<Rightarrow> (u32 \<times> kernel user) option" where
  "main_start u = do {
     (dynamic_str, u1) \<leftarrow> user_new 50 u;
     let u2 = u1\<lparr>umem := poke dynamic_str (heap_test_text @ [NUL]) (umem u1)\<rparr>;
     Some (dynamic_str, u2)
   }"

section \<open>The command loop\<close>

record ushell =
  u_cmd :: "char list"
  u_idx :: int

definition run_cmd :: "char list \<Rightarrow> user_call list option" where
  "run_cmd cmd = do {
     help \<leftarrow> user_strcmp cmd (''help'' @ [NUL]);
     if help then Some [Out (''  reboot  - Restart System (Syscall 88)'' @ [NL]), Out (''  ver     - Show Version'' @ [NL])]
     else do {
       reboot \<leftarrow> user_strcmp cmd (''reboot'' @ [NUL]);
       if reboot then Some [Out ''Rebooting...'', RebootCall]
       else do {
         ver \<leftarrow> user_strcmp cmd (''ver'' @ [NUL]);
         Some [Out (if ver then ''v0.2 - Heap Enabled'' @ [NL] else ''Unknown.'' @ [NL])]
       }
     }
   }"

definition shell_char :: "char \<Rightarrow> ushell \<Rightarrow> (user_call list \<times> ushell) option" where
  "shell_char c s =
     (if c = NL then do {
        m \<leftarrow> arr_set (u_cmd s) (u_idx s) NUL;
        calls \<leftarrow> (if 0 < u_idx s then run_cmd m else Some []);
        Some (Out [NL] # calls @ [Out user_prompt], s\<lparr>u_cmd := m, u_idx := 0\<rparr>)
      }
      else if c = BS then
        Some (if 0 < u_idx s then ([Out [BS], Out '' '', Out [BS]], s\<lparr>u_idx := u_idx s - 1\<rparr>) else ([], s))
      else if u_idx s < 99 then do {
        m \<leftarrow> arr_set (u_cmd s) (u_idx s) c;
        Some ([Out [c]], s\<lparr>u_cmd := m, u_idx := u_idx s + 1\<rparr>)
      }
      else Some ([], s))"

fun shell_chars :: "string \<Rightarrow> ushell \<Rightarrow> (user_call list \<times> ushell) option" where
  "shell_chars [] s = Some ([], s)"
| "shell_chars (c # cs) s = do {
     (calls, s1) \<leftarrow> shell_char c s;
     (rest, s2) \<leftarrow> shell_chars cs s1;
     Some (calls @ rest, s2)
   }"

text \<open>The whole of \<open>main\<close> on the characters that \<open>getc\<close> delivers; \<open>cmd\<close> is what the array held. \<open>print(dynamic_str)\<close> reads
  the block of 50 bytes.\<close>

definition block_text :: "u32 \<Rightarrow> memory \<Rightarrow> string option" where
  "block_text p m = do {
     let r = map (\<lambda>i. char_of_byte (m (p + of_nat i))) [0 ..< 50];
     len \<leftarrow> user_strlen r;
     Some (take len r)
   }"

definition user_main :: "char list \<Rightarrow> string \<Rightarrow> kernel user \<Rightarrow> (user_call list \<times> kernel user \<times> ushell) option" where
  "user_main cmd cs u = do {
     (dynamic_str, u1) \<leftarrow> main_start u;
     txt \<leftarrow> block_text dynamic_str (umem u1);
     (calls, s) \<leftarrow> shell_chars cs \<lparr>u_cmd = cmd, u_idx = 0\<rparr>;
     Some ([Out ([NL] @ ''[User] Heap Initialized.'' @ [NL]), Out ''Test Alloc: '', Out txt, Out [NL, NL], Out user_prompt]
             @ calls, user_delete dynamic_str u1, s)
   }"

section \<open>The abstract loop\<close>

text \<open>A line of at most 99 characters, and a reply to each whole line.\<close>

definition reply :: "string \<Rightarrow> user_call list" where
  "reply l =
     (if l = [] then []
      else if l = ''help'' then [Out (''  reboot  - Restart System (Syscall 88)'' @ [NL]), Out (''  ver     - Show Version'' @ [NL])]
      else if l = ''reboot'' then [Out ''Rebooting...'', RebootCall]
      else if l = ''ver'' then [Out (''v0.2 - Heap Enabled'' @ [NL])]
      else [Out (''Unknown.'' @ [NL])])"

fun console_loop :: "string \<Rightarrow> string \<Rightarrow> user_call list \<times> string" where
  "console_loop [] l = ([], l)"
| "console_loop (c # cs) l =
     (let (calls, l1) =
        (if c = NL then (Out [NL] # reply l @ [Out user_prompt], [])
         else if c = BS then (if l = [] then [] else [Out [BS], Out '' '', Out [BS]], butlast l)
         else if length l < 99 then ([Out [c]], l @ [c])
         else ([], l));
        (rest, l2) = console_loop cs l1
      in (calls @ rest, l2))"

definition ushell_ok :: "ushell \<Rightarrow> bool" where
  "ushell_ok s \<longleftrightarrow> length (u_cmd s) = 100 \<and> 0 \<le> u_idx s \<and> u_idx s \<le> 99"

definition ushell_line :: "ushell \<Rightarrow> string" where
  "ushell_line s = take (nat (u_idx s)) (u_cmd s)"

lemma user_strcmp_words:
  "NUL \<notin> set l \<Longrightarrow> NUL \<notin> set w \<Longrightarrow> user_strcmp (l @ NUL # r) (w @ [NUL]) = Some (l = w)"
proof (induction l arbitrary: w)
  case Nil
  then show ?case by (cases w) auto
next
  case (Cons c l)
  then show ?case by (cases w) auto
qed

lemma run_cmd_reply:
  "NUL \<notin> set l \<Longrightarrow> l \<noteq> [] \<Longrightarrow> run_cmd (l @ NUL # r) = Some (reply l)"
  using user_strcmp_words [of l "''help''" r] user_strcmp_words [of l "''reboot''" r] user_strcmp_words [of l "''ver''" r]
  by (simp add: run_cmd_def reply_def)

lemma shell_char_spec:
  assumes ok: "ushell_ok s" and nul: "NUL \<notin> set (ushell_line s)" "c \<noteq> NUL"
  shows "\<exists>calls s'. shell_char c s = Some (calls, s') \<and> ushell_ok s' \<and> NUL \<notin> set (ushell_line s')
    \<and> console_loop [c] (ushell_line s) = (calls, ushell_line s')"
proof -
  define i where "i = nat (u_idx s)"
  have i: "u_idx s = int i" "i < 100" "length (u_cmd s) = 100" using ok by (auto simp: ushell_ok_def i_def)
  have l: "ushell_line s = take i (u_cmd s)" by (simp add: ushell_line_def i_def)
  have set: "arr_set (u_cmd s) (int i) v = Some ((u_cmd s)[i := v])" for v using i by (simp add: arr_set_def)
  have upd: "(u_cmd s)[i := v] = take i (u_cmd s) @ v # drop (Suc i) (u_cmd s)" for v
    using i by (simp add: upd_conv_take_nth_drop)
  consider "c = NL" | "c = BS" | "c \<noteq> NL" "c \<noteq> BS" by blast
  then show ?thesis
  proof cases
    case 1
    have e: "take i (u_cmd s) = [] \<longleftrightarrow> i = 0" using i by auto
    have "(if 0 < u_idx s then run_cmd ((u_cmd s)[i := NUL]) else Some []) = Some (reply (ushell_line s))"
      using run_cmd_reply [of "take i (u_cmd s)" "drop (Suc i) (u_cmd s)"] nul(1) i e by (auto simp: upd l reply_def)
    then show ?thesis using 1 i by (simp add: shell_char_def set ushell_ok_def ushell_line_def)
  next
    case 2
    have "NL \<noteq> BS" by (simp add: BS_def)
    moreover have "take i (u_cmd s) = [] \<longleftrightarrow> i = 0" using i by auto
    moreover have "take (i - 1) (u_cmd s) = butlast (take i (u_cmd s))" using i by (simp add: butlast_take)
    moreover have "nat (int i - 1) = i - 1" by simp
    ultimately show ?thesis using 2 i nul(1)
      by (auto simp: shell_char_def ushell_ok_def ushell_line_def dest: in_set_butlastD)
  next
    case 3
    show ?thesis
    proof (cases "i < 99")
      case True
      have "take (Suc i) ((u_cmd s)[i := c]) = take i (u_cmd s) @ [c]" using i by (simp add: upd)
      moreover have "nat (int i + 1) = Suc i" by simp
      ultimately show ?thesis using 3 True i nul by (simp add: shell_char_def set ushell_ok_def ushell_line_def)
    next
      case False
      then show ?thesis using 3 i nul by (simp add: shell_char_def ushell_ok_def ushell_line_def)
    qed
  qed
qed

lemma shell_chars_refines:
  assumes "ushell_ok s" and "NUL \<notin> set (ushell_line s)" and "NUL \<notin> set cs"
  shows "\<exists>calls s'. shell_chars cs s = Some (calls, s') \<and> ushell_ok s'
    \<and> console_loop cs (ushell_line s) = (calls, ushell_line s')"
  using assms
proof (induction cs arbitrary: s)
  case (Cons c cs)
  obtain calls s1 where 1: "shell_char c s = Some (calls, s1)" "ushell_ok s1" "NUL \<notin> set (ushell_line s1)"
    "console_loop [c] (ushell_line s) = (calls, ushell_line s1)"
    using shell_char_spec [OF Cons.prems(1,2), of c] Cons.prems(3) by auto
  obtain rest s2 where 2: "shell_chars cs s1 = Some (rest, s2)" "ushell_ok s2" "console_loop cs (ushell_line s1) = (rest, ushell_line s2)"
    using Cons.IH [OF 1(2,3)] Cons.prems(3) by auto
  have "console_loop (c # cs) l = (calls @ rest, l2)"
    if "console_loop [c] l = (calls, l1)" "console_loop cs l1 = (rest, l2)" for l l1 l2
    using that by (auto split: prod.splits if_splits)
  from this [OF 1(4) 2(3)] show ?case using 1(1) 2(1,2) by simp
qed simp

text \<open>The user shell is a line editor with three commands. Whatever characters \<open>getc\<close> delivers, the loop
  never writes outside its 100 bytes, and the calls it makes and the line it holds are those of the abstract loop:
  a bounded line with erasing, answered word for word at each Enter.\<close>

theorem user_shell_refines:
  assumes "ushell_ok s" and "NUL \<notin> set (ushell_line s)" and "NUL \<notin> set cs"
  shows "\<exists>calls s'. shell_chars cs s = Some (calls, s') \<and> ushell_ok s'
    \<and> console_loop cs (ushell_line s) = (calls, ushell_line s')"
  by (rule shell_chars_refines [OF assms])

theorem user_shell_refines_witness:
  "\<exists>s'. shell_chars (''vex'' @ [BS] @ ''r'' @ [NL]) \<lparr>u_cmd = replicate 100 NUL, u_idx = 0\<rparr>
      = Some ([Out ''v'', Out ''e'', Out ''x'', Out [BS], Out '' '', Out [BS], Out ''r'', Out [NL], Out (''v0.2 - Heap Enabled'' @ [NL]),
          Out user_prompt], s') \<and> ushell_line s' = []"
proof -
  let ?s = "\<lparr>u_cmd = replicate 100 NUL, u_idx = 0\<rparr>"
  have "ushell_ok ?s" "NUL \<notin> set (ushell_line ?s)" "NUL \<notin> set (''vex'' @ [BS] @ ''r'' @ [NL])"
    by (simp_all add: ushell_ok_def ushell_line_def BS_def)
  from user_shell_refines [OF this] show ?thesis
    by (auto simp: ushell_line_def BS_def reply_def)
qed

section \<open>The heap test\<close>

definition holds_string :: "memory \<Rightarrow> u32 \<Rightarrow> string \<Rightarrow> bool" where
  "holds_string m a s \<longleftrightarrow> (\<forall>i < length s. m (a + of_nat i) = byte_of_char (s ! i))"

lemma poke_same: "same_on A m (poke a s m)" if "\<forall>i < length s. unat (a + of_nat i) \<notin> A" for A
  using that
proof (induction s arbitrary: a m)
  case (Cons c s)
  have "same_on A m (m(a := byte_of_char c))" using Cons.prems by (intro byte_same_on) force
  moreover have "unat (a + 1 + of_nat i) \<notin> A" if "i < length s" for i
    using Cons.prems [rule_format, of "Suc i"] that by (simp add: ac_simps)
  then have "same_on A (m(a := byte_of_char c)) (poke (a + 1) s (m(a := byte_of_char c)))" by (intro Cons.IH) blast
  ultimately show ?case by (auto intro: same_on_trans)
qed simp

lemma poke_holds: "unat a + length s \<le> 2 ^ 32 \<Longrightarrow> holds_string (poke a s m) a s"
proof (induction s arbitrary: a m)
  case (Cons c s)
  show ?case unfolding holds_string_def
  proof (intro allI impI)
    fix i assume i: "i < length (c # s)"
    show "poke a (c # s) m (a + of_nat i) = byte_of_char ((c # s) ! i)"
    proof (cases i)
      case 0
      have "unat (a + 1 + of_nat j) \<notin> {unat a}" if "j < length s" for j
        using unat_offset [of a "Suc j"] Cons.prems that by (simp add: ac_simps)
      then have "same_on {unat a} (m(a := byte_of_char c)) (poke (a + 1) s (m(a := byte_of_char c)))" by (intro poke_same) blast
      then show ?thesis using 0 by (simp add: same_on_def)
    next
      case (Suc j)
      then have j: "j < length s" using i by simp
      have "unat (a + 1) = unat a + 1" using Cons.prems j by (intro unat_offsets) simp
      then have "holds_string (poke (a + 1) s (m(a := byte_of_char c))) (a + 1) s" using Cons.prems by (intro Cons.IH) simp
      then show ?thesis using Suc j by (simp add: holds_string_def ac_simps)
    qed
  qed
qed (simp add: holds_string_def)

text \<open>What the kernel prints for \<open>print\<close> of a string the program's memory holds, on pages that map to themselves.\<close>

lemma write_call:
  assumes "holds_string (umem u) a s" "NUL \<notin> set s" "length s < 2 ^ 32"
    and "con_ok (dt_con (k_desktop (kern u)))"
    and "\<And>i. i < length s \<Longrightarrow> k_pages (kern u) (a + of_nat i) = Some (a + of_nat i)"
  shows "\<exists>c k. user_syscall n waits 4 1 a (of_nat (length s)) ((kern u)\<lparr>k_mem := umem u\<rparr>) = Some (4, k)
    \<and> Console_Print s (dt_con (k_desktop (kern u))) = Some c
    \<and> k = acknowledge_k 0x80 ((kern u)\<lparr>k_mem := umem u, k_desktop := (k_desktop (kern u))\<lparr>dt_con := c\<rparr>\<rparr>)"
proof -
  let ?k = "(kern u)\<lparr>k_mem := umem u\<rparr>"
  let ?f = "\<lambda>i. map_option char_of_byte (user_byte (a + of_nat i) ?k)"
  have l: "unat (of_nat (length s) :: u32) = length s" using assms(3) by (simp add: unat_of_nat_u32)
  have f: "?f i = Some (s ! i)" if "i < length s" for i
    using assms(1,5) that by (simp add: user_byte_def holds_string_def)
  have "those (map ?f [0..<length s]) = Some (map (the \<circ> ?f) [0..<length s])"
    by (rule those_map) (use f in \<open>simp del: map_option_eq_Some\<close>)
  moreover have "map (the \<circ> ?f) [0..<length s] = s"
    by (rule nth_equalityI) (use f in \<open>simp_all del: map_option_eq_Some\<close>)
  ultimately have "user_text a (of_nat (length s)) ?k = Some s" by (simp add: user_text_def l)
  moreover have "filter (\<lambda>ch. ch \<noteq> NUL) s = s" using assms(2) by (auto simp: filter_id_conv)
  ultimately have w: "sys_write a (of_nat (length s)) ?k
      = map_option (\<lambda>c. Inr (with_console c ?k)) (Console_Print s (dt_con (k_desktop (kern u))))"
    by (simp add: sys_write_text)
  obtain c where "Console_Print s (dt_con (k_desktop (kern u))) = Some c" using Print_total [OF assms(4)] by blast
  then show ?thesis
    by (simp add: user_syscall_def HandleInterrupt_def syscall_def arr_get_def w with_console_def)
qed

lemma heap_holds_poke:
  "heap_holds u own cont bs \<Longrightarrow> b \<in> own \<Longrightarrow> (\<forall>i < length s. unat (a + of_nat i) \<in> block b) \<Longrightarrow>
   \<exists>cont'. heap_holds (u\<lparr>umem := poke a s (umem u)\<rparr>) own cont' bs"
proof (induction s arbitrary: a u cont)
  case (Cons c s)
  let ?u = "u\<lparr>umem := (umem u)(a := byte_of_char c)\<rparr>"
  have "unat a \<in> block b" using Cons.prems(3) by force
  then have "heap_holds ?u own (cont(a := byte_of_char c)) bs" by (rule um.owns_store [OF Cons.prems(1,2)])
  moreover have "\<forall>i < length s. unat (a + 1 + of_nat i) \<in> block b"
  proof (intro allI impI)
    fix i assume "i < length s"
    then show "unat (a + 1 + of_nat i) \<in> block b" using Cons.prems(3) [rule_format, of "Suc i"] by (simp add: ac_simps)
  qed
  ultimately obtain cont' where "heap_holds (?u\<lparr>umem := poke (a + 1) s (umem ?u)\<rparr>) own cont' bs"
    using Cons.IH Cons.prems(2) by blast
  then show ?case by auto
qed auto

lemma main_start_spec:
  assumes "brk_ok (user_heap_end (kern u))" and "unat (user_heap_end (kern u)) + 62 < 128 * 1024 * 1024" and "heap_head u = 0"
  shows "\<exists>p u' bs. main_start u = Some (p, u') \<and> p \<noteq> 0 \<and> holds_string (umem u') p (heap_test_text @ [NUL])
    \<and> heap_repr 0x800000 (unat (user_heap_end (kern u'))) (user_free p u') bs \<and> live bs = {}"
proof -
  have i: "heap_repr 0x800000 (unat (user_heap_end (kern u))) u []" using assms(3) by (simp add: heap_repr_def)
  from malloc_kernel [OF assms(1) i, of 50] obtain p u1 bs where m: "malloc sbrk 50 u = Some (p, u1)"
    "brk_ok (user_heap_end (kern u1))" "heap_repr 0x800000 (unat (user_heap_end (kern u1))) u1 bs"
    and r: "if p = 0 then bs = [] \<and> List.find (fits 50) [] = None \<and> 128 * 1024 * 1024 \<le> unat (user_heap_end (kern u)) + 12 + unat (50 :: u32)
       else \<exists>s. unat (50 :: u32) \<le> s \<and> (unat p, s) \<notin> live [] \<and> live bs = insert (unat p, s) (live [])
         \<and> (\<forall>b \<in> live []. disjoint_blocks (unat p, s) b)" by auto
  have p: "p \<noteq> 0" using r assms(2) by (auto split: if_splits)
  then obtain s where s: "50 \<le> s" "live bs = {(unat p, s)}" using r by (auto simp: live_def)
  have h: "heap_holds u1 {(unat p, s)} (umem u1) bs" using m(2,3) s by (simp add: owns_def user_heap_def brk_ok_def)
  have "(unat p, s) \<in> live bs" using s(2) by simp
  then have "unat p + s \<le> unat (user_heap_end (kern u1))"
    using m(3) by (fastforce simp: live_def heap_repr_def block_in_def data_def)
  then have room: "unat p + 50 < 2 ^ 32" using m(2) s(1) by (simp add: brk_ok_def)
  let ?t = "heap_test_text @ [NUL]"
  have t: "length ?t = 6" by (simp add: heap_test_text_def)
  have "unat (p + of_nat i) \<in> block (unat p, s)" if "i < length ?t" for i
    using that room s(1) t unat_offset [of p i] by (auto simp: block_def)
  then obtain cont' where h2: "heap_holds (u1\<lparr>umem := poke p ?t (umem u1)\<rparr>) {(unat p, s)} cont' bs"
    using heap_holds_poke [OF h, of "(unat p, s)" ?t p] by blast
  define u' where "u' = u1\<lparr>umem := poke p ?t (umem u1)\<rparr>"
  have "heap_repr 0x800000 (unat (user_heap_end (kern u'))) u' bs" "unat (user_heap_end (kern u')) < 2 ^ 32"
    using h2 m(2) by (simp_all add: owns_def user_heap_def u'_def brk_ok_def)
  from user_free_spec [OF this, of p s] s(2) obtain bs' where
    f: "heap_repr 0x800000 (unat (user_heap_end (kern u'))) (user_free p u') bs'" "live bs' = {}" by auto
  have "main_start u = Some (p, u')" using m(1) by (simp add: main_start_def user_new_def u'_def)
  moreover have "holds_string (umem u') p ?t" unfolding u'_def using room t by (simp add: poke_holds)
  ultimately show ?thesis using p f by blast
qed

lemma user_free_kern [simp]: "kern (user_free p u) = kern u"
  by (simp add: user_free_def)

text \<open>The heap test at the start of the user program works. On an empty heap the 50 bytes are allocated, hold
  the text where \<open>print\<close> reads it, and after \<open>delete[]\<close> nothing is held any more and the heap is in order.\<close>

theorem main_start_heap_test:
  assumes "brk_ok (user_heap_end (kern u))" and "unat (user_heap_end (kern u)) + 62 < 128 * 1024 * 1024" and "heap_head u = 0"
  shows "\<exists>p u' bs. main_start u = Some (p, u') \<and> p \<noteq> 0 \<and> holds_string (umem u') p (heap_test_text @ [NUL])
    \<and> heap_repr 0x800000 (unat (user_heap_end (kern u'))) (user_free p u') bs \<and> live bs = {}"
  by (rule main_start_spec [OF assms])

theorem main_start_heap_test_witness:
  "\<exists>p u'. main_start demo_user = Some (p, u') \<and> holds_string (umem u') p (heap_test_text @ [NUL])"
proof -
  have "brk_ok (user_heap_end (kern demo_user))" "unat (user_heap_end (kern demo_user)) + 62 < 128 * 1024 * 1024"
    "heap_head demo_user = 0" by (simp_all add: demo_user_def demo_kernel_def brk_ok_def)
  from main_start_heap_test [OF this] show ?thesis by blast
qed

lemma block_text_holds:
  assumes "holds_string m p (s @ [NUL])" "NUL \<notin> set s" "length s < 50"
  shows "block_text p m = Some s"
proof -
  define r where "r = map (\<lambda>i. char_of_byte (m (p + of_nat i))) [0 ..< 50]"
  have "r ! i = (s @ [NUL]) ! i" if "i < length (s @ [NUL])" for i
    using assms(1,3) that by (simp add: holds_string_def r_def)
  then have "take (length (s @ [NUL])) r = s @ [NUL]"
    using assms(3) by (intro nth_equalityI) (simp_all add: r_def)
  then have "r = s @ NUL # drop (length (s @ [NUL])) r"
    using append_take_drop_id [of "length (s @ [NUL])" r] by simp
  then obtain t where t: "r = s @ NUL # t" by blast
  have "terminated r" "cstr r = s" using assms(2) by (simp_all add: t)
  then have "user_strlen r = Some (length s)" by (simp add: user_strlen_eq utils_strlen_spec)
  then show ?thesis by (simp add: block_text_def r_def [symmetric]) (simp add: t)
qed

text \<open>C22: the user program, from its heap test through its command loop. Started with an empty heap and room for one block,
  and given any characters but NUL, it prints its greeting with the text it built on the heap, then makes exactly the
  calls of the abstract loop that starts from an empty line; the test block is released and the heap left in order.\<close>

theorem user_main_runs:
  assumes "brk_ok (user_heap_end (kern u))" and "unat (user_heap_end (kern u)) + 62 < 128 * 1024 * 1024" and "heap_head u = 0"
    and "length cmd = 100" and "NUL \<notin> set cs"
  shows "\<exists>calls u' s bs. user_main cmd cs u = Some
      ([Out ([NL] @ ''[User] Heap Initialized.'' @ [NL]), Out ''Test Alloc: '', Out ''Heap!'', Out [NL, NL], Out user_prompt] @ calls, u', s)
    \<and> console_loop cs [] = (calls, ushell_line s)
    \<and> heap_repr 0x800000 (unat (user_heap_end (kern u'))) u' bs \<and> live bs = {}"
proof -
  from main_start_spec [OF assms(1-3)] obtain p u1 bs where m: "main_start u = Some (p, u1)"
    "holds_string (umem u1) p (heap_test_text @ [NUL])"
    and h: "heap_repr 0x800000 (unat (user_heap_end (kern (user_free p u1)))) (user_free p u1) bs" "live bs = {}"
    by (auto simp: user_free_kern)
  have t: "block_text p (umem u1) = Some ''Heap!''"
    using block_text_holds [OF m(2)] by (simp add: heap_test_text_def)
  have "ushell_ok \<lparr>u_cmd = cmd, u_idx = 0\<rparr>" "ushell_line \<lparr>u_cmd = cmd, u_idx = 0\<rparr> = []"
    using assms(4) by (simp_all add: ushell_ok_def ushell_line_def)
  with shell_chars_refines [of "\<lparr>u_cmd = cmd, u_idx = 0\<rparr>" cs] assms(5) obtain calls s where
    s: "shell_chars cs \<lparr>u_cmd = cmd, u_idx = 0\<rparr> = Some (calls, s)" "console_loop cs [] = (calls, ushell_line s)" by auto
  show ?thesis using m(1) t s h by (simp add: user_main_def user_delete_def) blast
qed

theorem user_main_runs_witness:
  "\<exists>calls u' s. user_main (replicate 100 NUL) (''ver'' @ [NL]) demo_user = Some (calls, u', s)
    \<and> Out ''Heap!'' \<in> set calls \<and> Out (''v0.2 - Heap Enabled'' @ [NL]) \<in> set calls"
proof -
  have "brk_ok (user_heap_end (kern demo_user))" "unat (user_heap_end (kern demo_user)) + 62 < 128 * 1024 * 1024"
    "heap_head demo_user = 0" "length (replicate 100 NUL) = 100" "NUL \<notin> set (''ver'' @ [NL])"
    by (simp_all add: demo_user_def demo_kernel_def brk_ok_def)
  from user_main_runs [OF this] obtain calls u' s where
    "user_main (replicate 100 NUL) (''ver'' @ [NL]) demo_user = Some
      ([Out ([NL] @ ''[User] Heap Initialized.'' @ [NL]), Out ''Test Alloc: '', Out ''Heap!'', Out [NL, NL], Out user_prompt] @ calls, u', s)"
    "console_loop (''ver'' @ [NL]) [] = (calls, ushell_line s)" by blast
  then show ?thesis by (auto simp: reply_def BS_def)
qed

end
