(* ===== verification/Apps.thy ===== *)
theory Apps
  imports InputDrivers Loops
begin

text \<open>
  The shared parts of src/programs.cpp: its keyboard table and its start menu. \<open>Graphics\<close>, \<open>Serial\<close> and
  \<open>EXT2\<close> are not in the repository: a drawing operation is a list of the calls it makes to \<open>Graphics\<close>.
\<close>

datatype draw_call =
    GClear u32
  | GRect int int int int u32
  | GString int int string u32

definition COLOR_BLACK :: u32 where "COLOR_BLACK = 0x00000000"
definition COLOR_WHITE :: u32 where "COLOR_WHITE = 0x00FFFFFF"
definition COLOR_GREEN :: u32 where "COLOR_GREEN = 0x0000FF00"
definition COLOR_RED :: u32 where "COLOR_RED = 0x00FF0000"
definition COLOR_GRAY :: u32 where "COLOR_GRAY = 0x00C0C0C0"
definition COLOR_DARK_GRAY :: u32 where "COLOR_DARK_GRAY = 0x00606060"
definition COLOR_DARK_BLUE :: u32 where "COLOR_DARK_BLUE = 0x00000080"

section \<open>Scancodes\<close>

definition SC_W :: u8 where "SC_W = 0x11"
definition SC_A :: u8 where "SC_A = 0x1E"
definition SC_S :: u8 where "SC_S = 0x1F"
definition SC_D :: u8 where "SC_D = 0x20"
definition SC_BACKSPACE :: u8 where "SC_BACKSPACE = 0x0E"
definition SC_ENTER :: u8 where "SC_ENTER = 0x1C"

definition SCANCODE_TO_ASCII :: string where
  "SCANCODE_TO_ASCII =
     [NUL, NUL] @ ''1234567890-='' @ [NUL, NUL] @
     ''qwertyuiop[]'' @ [NUL, NUL] @
     ''asdfghjkl;'' @ [CHR 0x27, CHR 0x60, NUL, CHR 0x5C] @
     ''zxcvbnm,./'' @ [NUL, NUL, NUL, CHR '' '']"

text \<open>\<open>c -= 32\<close> on a lower-case letter.\<close>

definition upper :: "char \<Rightarrow> char" where
  "upper c = char_of (of_char c - 32 :: nat)"

definition ScancodeToChar :: "u8 \<Rightarrow> bool \<Rightarrow> char" where
  "ScancodeToChar scancode shift =
     (if length SCANCODE_TO_ASCII \<le> unat scancode then NUL
      else let c = SCANCODE_TO_ASCII ! unat scancode in
        if shift \<and> (of_char CHR ''a'' :: nat) \<le> of_char c \<and> (of_char c :: nat) \<le> of_char CHR ''z''
        then upper c else c)"

definition tables_agree :: "u8 \<Rightarrow> bool" where
  "tables_agree s \<longleftrightarrow> ScancodeToAscii s \<in> {NUL, NL, CHR 0x08} \<or> ScancodeToChar s False = ScancodeToAscii s
    \<and> ScancodeToChar s True = (if s \<in> {0x33, 0x34, 0x35, 0x39} then ScancodeToAscii s else upper (ScancodeToAscii s))"

lemma tables_agree_all: "list_all tables_agree keyboard_scancodes"
  by code_simp

text \<open>The two keyboard tables of the system agree: every key to which the kernel's driver gives a printing
  character has the same character, unshifted, in the table of the programs, and no other key of the driver
  prints; with shift the letters, and only they, change, to their capitals.\<close>

theorem ScancodeToChar_agrees:
  assumes "ScancodeToAscii s \<notin> {NUL, NL, CHR 0x08}"
  shows "ScancodeToChar s False = ScancodeToAscii s
    \<and> ScancodeToChar s True = (if s \<in> {0x33, 0x34, 0x35, 0x39} then ScancodeToAscii s else upper (ScancodeToAscii s))"
proof -
  have "s \<in> set keyboard_scancodes" using assms ScancodeToAscii_other [of s] by auto
  then have "tables_agree s" using tables_agree_all by (simp add: list_all_iff)
  then show ?thesis using assms by (simp add: tables_agree_def)
qed

theorem ScancodeToChar_agrees_witness: "ScancodeToChar 0x15 True = CHR ''Y''"
proof -
  have "ScancodeToAscii 0x15 \<notin> {NUL, NL, CHR 0x08}" by (simp add: ScancodeToAscii_def)
  from ScancodeToChar_agrees [OF this] show ?thesis by (simp add: ScancodeToAscii_def upper_def char_of_def bit_Suc_0_iff)
qed

section \<open>The start menu\<close>

definition StartMenu_Toggle :: "bool \<Rightarrow> bool" where
  "StartMenu_Toggle isOpen = (\<not> isOpen)"

definition StartMenu_Draw :: "bool \<Rightarrow> int \<Rightarrow> draw_call list" where
  "StartMenu_Draw isOpen screenHeight =
     (if \<not> isOpen then [] else
      let menuX = 4; menuY = screenHeight - 36 - 100; menuW = 150; menuH = 100 in
      [GRect menuX menuY menuW menuH COLOR_GRAY, GRect menuX menuY menuW 2 COLOR_WHITE,
       GRect menuX menuY 2 menuH COLOR_WHITE, GRect (menuX + menuW - 2) menuY 2 menuH COLOR_DARK_GRAY,
       GRect menuX (menuY + menuH - 2) menuW 2 COLOR_DARK_GRAY,
       GString (menuX + 10) (menuY + 10) ''F1: Snake'' COLOR_BLACK,
       GString (menuX + 10) (menuY + 30) ''F2: Notepad'' COLOR_BLACK,
       GString (menuX + 10) (menuY + 50) ''F3: Files'' COLOR_DARK_GRAY,
       GRect (menuX + 5) (menuY + 70) (menuW - 10) 1 COLOR_DARK_GRAY,
       GString (menuX + 10) (menuY + 78) ''Esc: Close'' COLOR_BLACK])"

end
