(* ===== verification/Snake.thy ===== *)
theory Snake
  imports Apps CString "HOL-Library.Signed_Division"
begin

text \<open>
  The snake of src/programs.cpp: its arrays, its random numbers, one frame (\<open>Update\<close>) and its picture. The
  abstract game has the body as a list of cells, head first; \<open>Update\<close> refines one move of it.
\<close>

section \<open>State and operations\<close>

definition GRID_SIZE :: int where "GRID_SIZE = 16"
definition MAX_LENGTH :: int where "MAX_LENGTH = 100"

record snake =
  screenW :: int
  screenH :: int
  gridW :: int
  gridH :: int
  snakeX :: "int list"
  snakeY :: "int list"
  snakeLength :: int
  direction :: int
  appleX :: int
  appleY :: int
  score :: int
  gameOver :: bool
  frameCounter :: int
  randSeed :: u32

text \<open>\<open>(randSeed / 65536) % max\<close> in 32 bits without sign; a zero \<open>max\<close> is a division by zero.\<close>

definition Random :: "int \<Rightarrow> snake \<Rightarrow> (int \<times> snake) option" where
  "Random n s =
     (let seed = randSeed s * 1103515245 + 12345; s1 = s\<lparr>randSeed := seed\<rparr>; m = (word_of_int n :: u32)
      in if m = 0 then None else Some (sint ((seed div 65536) mod m), s1))"

definition PlaceApple :: "snake \<Rightarrow> snake option" where
  "PlaceApple s = do {
     (x, s) \<leftarrow> Random (gridW s - 2) s;
     let s = s\<lparr>appleX := x + 1\<rparr>;
     (y, s) \<leftarrow> Random (gridH s - 2) s;
     Some (s\<lparr>appleY := y + 1\<rparr>)
   }"

definition set_cell :: "int \<Rightarrow> int \<Rightarrow> int \<Rightarrow> snake \<Rightarrow> snake option" where
  "set_cell i x y s = do {
     xs \<leftarrow> arr_set (snakeX s) i x;
     ys \<leftarrow> arr_set (snakeY s) i y;
     Some (s\<lparr>snakeX := xs, snakeY := ys\<rparr>)
   }"

definition Snake_Init :: "int \<Rightarrow> int \<Rightarrow> snake \<Rightarrow> snake option" where
  "Snake_Init screenWidth screenHeight s = do {
     let s = s\<lparr>screenW := screenWidth, screenH := screenHeight, gridW := screenWidth sdiv GRID_SIZE,
       gridH := screenHeight sdiv GRID_SIZE, snakeLength := 3\<rparr>;
     s \<leftarrow> for_loop 3 (\<lambda>i. set_cell (int i) (gridW s sdiv 2) (gridH s sdiv 2 + int i)) s;
     PlaceApple (s\<lparr>direction := 0, score := 0, gameOver := False, frameCounter := 0\<rparr>)
   }"

text \<open>The \<open>switch\<close> on the key: a turn straight back is refused.\<close>

definition turn :: "u8 \<Rightarrow> int \<Rightarrow> int" where
  "turn scancode d =
     (if scancode = SC_W then if d \<noteq> 2 then 0 else d
      else if scancode = SC_D then if d \<noteq> 3 then 1 else d
      else if scancode = SC_S then if d \<noteq> 0 then 2 else d
      else if scancode = SC_A then if d \<noteq> 1 then 3 else d
      else d)"

definition ahead :: "int \<Rightarrow> int \<times> int \<Rightarrow> int \<times> int" where
  "ahead d p = (let (x, y) = p in
     if d = 0 then (x, y - 1) else if d = 1 then (x + 1, y) else if d = 2 then (x, y + 1)
     else if d = 3 then (x - 1, y) else p)"

text \<open>The self-collision loop, over the indices from \<open>i\<close> on.\<close>

fun hits_body :: "nat \<Rightarrow> int \<Rightarrow> int \<times> int \<Rightarrow> snake \<Rightarrow> bool option" where
  "hits_body 0 i p s = Some False"
| "hits_body (Suc n) i p s = do {
     x \<leftarrow> arr_get (snakeX s) i;
     y \<leftarrow> arr_get (snakeY s) i;
     if (x, y) = p then Some True else hits_body n (i + 1) p s
   }"

text \<open>\<open>for (i = snakeLength - 1; i > 0; i--)\<close>: each segment takes the place of the one before it.\<close>

fun shift_body :: "nat \<Rightarrow> snake \<Rightarrow> snake option" where
  "shift_body 0 s = Some s"
| "shift_body (Suc i) s = do {
     x \<leftarrow> arr_get (snakeX s) (int i);
     y \<leftarrow> arr_get (snakeY s) (int i);
     s1 \<leftarrow> set_cell (int (Suc i)) x y s;
     shift_body i s1
   }"

definition eat :: "snake \<Rightarrow> snake option" where
  "eat s = PlaceApple (s\<lparr>score := score s + 10,
     snakeLength := (if snakeLength s < MAX_LENGTH - 1 then snakeLength s + 1 else snakeLength s)\<rparr>)"

definition Snake_Update :: "u8 \<Rightarrow> snake \<Rightarrow> snake option" where
  "Snake_Update scancode s =
     (if gameOver s then Snake_Init (screenW s) (screenH s) s
      else let s = s\<lparr>direction := turn scancode (direction s), frameCounter := frameCounter s + 1\<rparr> in
      if frameCounter s < 5 then Some s
      else do {
        let s = s\<lparr>frameCounter := 0\<rparr>;
        x \<leftarrow> arr_get (snakeX s) 0;
        y \<leftarrow> arr_get (snakeY s) 0;
        let (newX, newY) = ahead (direction s) (x, y);
        if newX < 0 \<or> gridW s \<le> newX \<or> newY < 0 \<or> gridH s \<le> newY then Some (s\<lparr>gameOver := True\<rparr>)
        else do {
          hit \<leftarrow> hits_body (nat (snakeLength s)) 0 (newX, newY) s;
          if hit then Some (s\<lparr>gameOver := True\<rparr>)
          else do {
            s \<leftarrow> (if newX = appleX s \<and> newY = appleY s then eat s else Some s);
            s \<leftarrow> shift_body (nat (snakeLength s - 1)) s;
            set_cell 0 newX newY s
          }
        }
      })"

definition GetScore :: "snake \<Rightarrow> int" where "GetScore s = score s"

section \<open>The abstract game\<close>

definition body :: "snake \<Rightarrow> (int \<times> int) list" where
  "body s = take (nat (snakeLength s)) (zip (snakeX s) (snakeY s))"

definition adjacent :: "int \<times> int \<Rightarrow> int \<times> int \<Rightarrow> bool" where
  "adjacent p q \<longleftrightarrow> (\<exists>d \<in> {0, 1, 2, 3}. q = ahead d p)"

definition in_grid :: "snake \<Rightarrow> int \<times> int \<Rightarrow> bool" where
  "in_grid s p \<longleftrightarrow> 0 \<le> fst p \<and> fst p < gridW s \<and> 0 \<le> snd p \<and> snd p < gridH s"

definition snake_ok :: "snake \<Rightarrow> bool" where
  "snake_ok s \<longleftrightarrow> length (snakeX s) = 100 \<and> length (snakeY s) = 100 \<and> 3 \<le> snakeLength s \<and> snakeLength s \<le> 99
     \<and> 0 \<le> frameCounter s \<and> frameCounter s \<le> 4 \<and> direction s \<in> {0, 1, 2, 3}
     \<and> 80 \<le> screenW s \<and> screenW s < 2 ^ 31 \<and> 80 \<le> screenH s \<and> screenH s < 2 ^ 31
     \<and> gridW s = screenW s div 16 \<and> gridH s = screenH s div 16
     \<and> (\<forall>p \<in> set (body s). in_grid s p) \<and> distinct (body s) \<and> successively adjacent (body s)
     \<and> 1 \<le> appleX s \<and> appleX s \<le> gridW s - 2 \<and> 1 \<le> appleY s \<and> appleY s \<le> gridH s - 2"

section \<open>What the parts do\<close>

lemma sdiv_nonneg: "0 \<le> (a :: int) \<Longrightarrow> 0 < b \<Longrightarrow> a sdiv b = a div b"
  by (cases "a = 0") (simp_all add: signed_divide_int_def)

lemma Random_range:
  assumes "0 < n" "n < 2 ^ 31"
  shows "\<exists>v s'. Random n s = Some (v, s') \<and> 0 \<le> v \<and> v < n \<and> s' = s\<lparr>randSeed := randSeed s * 1103515245 + 12345\<rparr>"
proof -
  define m :: u32 where "m = word_of_int n"
  define q where "q = (randSeed s * 1103515245 + 12345) div 65536"
  have m: "uint m = n" using assms by (simp add: m_def uint_word_of_int)
  then have "m \<noteq> 0" using assms(1) by auto
  have u: "uint (q mod m) = uint q mod n" by (simp add: uint_mod_distrib m)
  then have r: "0 \<le> uint (q mod m)" "uint (q mod m) < n" using assms(1) by simp_all
  have "sint (q mod m) = uint (q mod m)"
    using r assms(2) by (simp add: sint_uint signed_take_bit_int_eq_self_iff) (rule order_trans [OF _ uint_ge_0], simp)
  with r \<open>m \<noteq> 0\<close> show ?thesis by (simp add: Random_def m_def q_def Let_def)
qed

lemma PlaceApple_spec:
  assumes "5 \<le> gridW s" "gridW s < 2 ^ 31" "5 \<le> gridH s" "gridH s < 2 ^ 31"
  shows "\<exists>x y seed. PlaceApple s = Some (s\<lparr>appleX := x, appleY := y, randSeed := seed\<rparr>)
    \<and> 1 \<le> x \<and> x \<le> gridW s - 2 \<and> 1 \<le> y \<and> y \<le> gridH s - 2"
proof -
  obtain v where v: "Random (gridW s - 2) s = Some (v, s\<lparr>randSeed := randSeed s * 1103515245 + 12345\<rparr>)" "0 \<le> v" "v < gridW s - 2"
    using Random_range [of "gridW s - 2" s] assms by auto
  define s1 where "s1 = s\<lparr>randSeed := randSeed s * 1103515245 + 12345, appleX := v + 1\<rparr>"
  obtain w where w: "Random (gridH s - 2) s1 = Some (w, s1\<lparr>randSeed := randSeed s1 * 1103515245 + 12345\<rparr>)" "0 \<le> w" "w < gridH s - 2"
    using Random_range [of "gridH s - 2" s1] assms by auto
  have "PlaceApple s = Some (s\<lparr>appleX := v + 1, appleY := w + 1, randSeed := randSeed s1 * 1103515245 + 12345\<rparr>)"
    using v(1) w(1) by (simp add: PlaceApple_def s1_def)
  moreover have "1 \<le> v + 1" "v + 1 \<le> gridW s - 2" "1 \<le> w + 1" "w + 1 \<le> gridH s - 2"
    using v(2,3) w(2,3) by linarith+
  ultimately show ?thesis by blast
qed

lemma set_cell_in:
  "i < length (snakeX s) \<Longrightarrow> i < length (snakeY s) \<Longrightarrow>
   set_cell (int i) x y s = Some (s\<lparr>snakeX := (snakeX s)[i := x], snakeY := (snakeY s)[i := y]\<rparr>)"
  by (simp add: set_cell_def arr_set_def)

lemma hits_body_spec:
  "i + n \<le> length (snakeX s) \<Longrightarrow> i + n \<le> length (snakeY s) \<Longrightarrow>
   hits_body n (int i) p s = Some (p \<in> set (take n (drop i (zip (snakeX s) (snakeY s)))))"
proof (induction n arbitrary: i)
  case (Suc n)
  have "drop i (zip (snakeX s) (snakeY s)) = (snakeX s ! i, snakeY s ! i) # drop (Suc i) (zip (snakeX s) (snakeY s))"
    using Suc.prems by (subst Cons_nth_drop_Suc [symmetric]) simp_all
  moreover have "hits_body n (int i + 1) p s = Some (p \<in> set (take n (drop (Suc i) (zip (snakeX s) (snakeY s)))))"
    using Suc.IH [of "Suc i"] Suc.prems by (simp add: add.commute)
  ultimately show ?case using Suc.prems by (auto simp: arr_get_def)
qed simp

definition shifted :: "nat \<Rightarrow> 'a list \<Rightarrow> 'a list" where
  "shifted i xs = hd xs # take i xs @ drop (Suc i) xs"

lemma shifted_nonempty: "shifted i xs \<noteq> []"
  by (simp add: shifted_def)

lemma shifted_step:
  assumes "Suc i < length xs"
  shows "shifted i (xs[Suc i := xs ! i]) = shifted (Suc i) xs"
proof -
  have "hd (xs[Suc i := xs ! i]) = hd xs" using assms by (cases xs) simp_all
  moreover have "drop (Suc i) (xs[Suc i := xs ! i]) = xs ! i # drop (Suc (Suc i)) xs"
    using assms by (simp add: drop_update_swap Cons_nth_drop_Suc [symmetric])
  moreover have "take (Suc i) xs = take i xs @ [xs ! i]" using assms by (simp add: take_Suc_conv_app_nth)
  ultimately show ?thesis by (simp add: shifted_def)
qed

lemma shift_body_spec:
  "i < length (snakeX s) \<Longrightarrow> i < length (snakeY s) \<Longrightarrow>
   shift_body i s = Some (s\<lparr>snakeX := shifted i (snakeX s), snakeY := shifted i (snakeY s)\<rparr>)"
proof (induction i arbitrary: s)
  case 0
  have "shifted 0 xs = xs" if "0 < length xs" for xs :: "int list" using that by (cases xs) (simp_all add: shifted_def)
  then show ?case using 0 by simp
next
  case (Suc i)
  let ?s = "s\<lparr>snakeX := (snakeX s)[Suc i := snakeX s ! i], snakeY := (snakeY s)[Suc i := snakeY s ! i]\<rparr>"
  have "shift_body (Suc i) s = shift_body i ?s"
    using Suc.prems by (simp add: arr_get_def set_cell_in del: of_nat_Suc)
  also have "\<dots> = Some (?s\<lparr>snakeX := shifted i (snakeX ?s), snakeY := shifted i (snakeY ?s)\<rparr>)" using Suc by simp
  finally show ?case using Suc.prems by (simp add: shifted_step)
qed

text \<open>Moving the arrays is moving the list of cells.\<close>

lemma body_moved:
  assumes "length xs = 100" "length ys = 100" "0 < n" "n < 100"
  shows "take n (zip ((shifted (n - 1) xs)[0 := x]) ((shifted (n - 1) ys)[0 := y])) = (x, y) # take (n - 1) (zip xs ys)"
proof -
  obtain m where n: "n = Suc m" using assms(3) by (cases n) simp_all
  have "zip (take m xs @ drop (Suc m) xs) (take m ys @ drop (Suc m) ys) = zip (take m xs) (take m ys) @ zip (drop (Suc m) xs) (drop (Suc m) ys)"
    using assms by (intro zip_append) simp
  then show ?thesis using assms by (simp add: n shifted_def take_zip)
qed

lemma ahead_adjacent: "d \<in> {0, 1, 2, 3} \<Longrightarrow> adjacent (ahead d p) p"
proof -
  assume "d \<in> {0, 1, 2, 3}"
  then show ?thesis
  proof (elim insertE emptyE)
    assume "d = 0" then show ?thesis unfolding adjacent_def by (intro bexI [of _ 2]) (auto simp: ahead_def split: prod.split)
  next
    assume "d = 1" then show ?thesis unfolding adjacent_def by (intro bexI [of _ 3]) (auto simp: ahead_def split: prod.split)
  next
    assume "d = 2" then show ?thesis unfolding adjacent_def by (intro bexI [of _ 0]) (auto simp: ahead_def split: prod.split)
  next
    assume "d = 3" then show ?thesis unfolding adjacent_def by (intro bexI [of _ 1]) (auto simp: ahead_def split: prod.split)
  qed
qed

lemma turn_range: "d \<in> {0, 1, 2, 3} \<Longrightarrow> turn k d \<in> {0, 1, 2, 3}"
  by (auto simp: turn_def)

section \<open>Starting\<close>

definition arrays_ok :: "snake \<Rightarrow> bool" where
  "arrays_ok s \<longleftrightarrow> length (snakeX s) = 100 \<and> length (snakeY s) = 100"

lemma for_loop_3: "for_loop 3 f s = f 0 s \<bind> f 1 \<bind> f 2"
  by (simp add: numeral_3_eq_3 numeral_2_eq_2)

lemma Init_spec:
  assumes "arrays_ok s" "80 \<le> w" "w < 2 ^ 31" "80 \<le> h" "h < 2 ^ 31"
  shows "\<exists>s'. Snake_Init w h s = Some s' \<and> snake_ok s' \<and> \<not> gameOver s' \<and> score s' = 0 \<and> direction s' = 0 \<and> frameCounter s' = 0
    \<and> body s' = map (\<lambda>i. (w div 16 div 2, h div 16 div 2 + i)) [0, 1, 2] \<and> screenW s' = w \<and> screenH s' = h"
proof -
  define gw where "gw = w div 16"
  define gh where "gh = h div 16"
  have g: "5 \<le> gw" "gw < 2 ^ 31" "5 \<le> gh" "gh < 2 ^ 31" using assms by (simp_all add: gw_def gh_def)
  define s0 where "s0 = s\<lparr>screenW := w, screenH := h, gridW := gw, gridH := gh, snakeLength := 3\<rparr>"
  define s1 where "s1 = s0\<lparr>snakeX := [gw div 2, gw div 2, gw div 2] @ drop 3 (snakeX s),
    snakeY := [gh div 2, gh div 2 + 1, gh div 2 + 2] @ drop 3 (snakeY s)\<rparr>"
  have l: "length (snakeX s) = 100" "length (snakeY s) = 100" using assms(1) by (simp_all add: arrays_ok_def)
  obtain x0 x1 x2 xs where xs: "snakeX s = x0 # x1 # x2 # xs" using l(1) by (auto simp: length_Suc_conv numeral_eq_Suc)
  obtain y0 y1 y2 ys where ys: "snakeY s = y0 # y1 # y2 # ys" using l(2) by (auto simp: length_Suc_conv numeral_eq_Suc)
  have loop: "for_loop 3 (\<lambda>i. set_cell (int i) (gridW s0 sdiv 2) (gridH s0 sdiv 2 + int i)) s0 = Some s1"
    using g by (simp add: for_loop_3 set_cell_def arr_set_def s0_def s1_def xs ys sdiv_nonneg)
  define s2 where "s2 = s1\<lparr>direction := 0, score := 0, gameOver := False, frameCounter := 0\<rparr>"
  have "gridW s2 = gw" "gridH s2 = gh" by (simp_all add: s2_def s1_def s0_def)
  then obtain x y seed where p: "PlaceApple s2 = Some (s2\<lparr>appleX := x, appleY := y, randSeed := seed\<rparr>)"
    "1 \<le> x" "x \<le> gw - 2" "1 \<le> y" "y \<le> gh - 2" using PlaceApple_spec [of s2] g by auto
  define s' where "s' = s2\<lparr>appleX := x, appleY := y, randSeed := seed\<rparr>"
  have "w sdiv GRID_SIZE = gw" "h sdiv GRID_SIZE = gh" using assms by (simp_all add: GRID_SIZE_def sdiv_nonneg gw_def gh_def)
  then have call: "Snake_Init w h s = Some s'"
    using loop p(1) by (simp add: Snake_Init_def s0_def [symmetric] s2_def [symmetric] s'_def)
  have f: "body s' = [(gw div 2, gh div 2), (gw div 2, gh div 2 + 1), (gw div 2, gh div 2 + 2)]"
    by (simp add: body_def s'_def s2_def s1_def s0_def)
  have r: "gridW s' = gw" "gridH s' = gh" "screenW s' = w" "screenH s' = h" "snakeLength s' = 3" "frameCounter s' = 0"
    "direction s' = 0" "score s' = 0" "\<not> gameOver s'" "appleX s' = x" "appleY s' = y"
    "length (snakeX s') = 100" "length (snakeY s') = 100"
    using l by (simp_all add: s'_def s2_def s1_def s0_def)
  have a: "adjacent (u, v) (u, v + 1)" for u v by (auto simp: adjacent_def ahead_def)
  have "gh div 2 + 2 = gh div 2 + 1 + 1" by simp
  then have "successively adjacent (body s')" unfolding f using a by (simp only: successively.simps simp_thms)
  moreover have "0 \<le> gw div 2" "gw div 2 < gw" "0 \<le> gh div 2" "gh div 2 + 2 < gh" using g by linarith+
  then have "\<forall>p \<in> set (body s'). in_grid s' p" by (simp add: f in_grid_def r)
  moreover have "distinct (body s')" by (simp add: f)
  ultimately have "snake_ok s'" unfolding snake_ok_def r using assms(2-5) p(2-5) by (simp add: gw_def gh_def)
  then show ?thesis using call f r by (simp add: gw_def gh_def)
qed

section \<open>A frame\<close>

text \<open>The head's direction and the frame counter are no part of the body.\<close>

lemma steer:
  "body (s\<lparr>direction := d, frameCounter := f\<rparr>) = body s" "in_grid (s\<lparr>direction := d, frameCounter := f\<rparr>) = in_grid s"
  by (simp_all add: body_def in_grid_def fun_eq_iff)

lemma over: "body (s\<lparr>gameOver := b\<rparr>) = body s" "in_grid (s\<lparr>gameOver := b\<rparr>) = in_grid s"
  by (simp_all add: body_def in_grid_def fun_eq_iff)

lemma scored: "body (s\<lparr>score := v\<rparr>) = body s" "in_grid (s\<lparr>score := v\<rparr>) = in_grid s"
  by (simp_all add: body_def in_grid_def fun_eq_iff)

lemma over_ok: "snake_ok s \<Longrightarrow> snake_ok (s\<lparr>gameOver := b\<rparr>)"
  unfolding snake_ok_def over by simp

lemma steer_ok: "snake_ok s \<Longrightarrow> d \<in> {0, 1, 2, 3} \<Longrightarrow> f \<in> {0..4} \<Longrightarrow> snake_ok (s\<lparr>direction := d, frameCounter := f\<rparr>)"
  unfolding snake_ok_def steer by simp

lemma body_hd:
  assumes "snake_ok s"
  obtains rest where "body s = (snakeX s ! 0, snakeY s ! 0) # rest" "length (body s) = nat (snakeLength s)"
proof -
  have "length (body s) = nat (snakeLength s)" using assms by (auto simp: body_def snake_ok_def)
  moreover have "body s ! 0 = (snakeX s ! 0, snakeY s ! 0)" using assms by (auto simp: body_def snake_ok_def)
  moreover have "body s \<noteq> []" using assms calculation(1) by (auto simp: snake_ok_def)
  ultimately show thesis using that by (cases "body s") auto
qed

text \<open>What happens once the new head is known to be free: eating, and moving.\<close>

definition move_snake :: "int \<times> int \<Rightarrow> snake \<Rightarrow> snake option" where
  "move_snake p s = do {
     s \<leftarrow> (if fst p = appleX s \<and> snd p = appleY s then eat s else Some s);
     s \<leftarrow> shift_body (nat (snakeLength s - 1)) s;
     set_cell 0 (fst p) (snd p) s
   }"

definition grown :: "snake \<Rightarrow> int \<times> int \<Rightarrow> bool" where
  "grown s p \<longleftrightarrow> p = (appleX s, appleY s) \<and> length (body s) < 99"

lemma body_len_bound: "snake_ok s \<Longrightarrow> length (body s) = nat (snakeLength s)"
  by (erule body_hd) simp

lemma move_snake_spec:
  assumes ok: "snake_ok s" and free: "in_grid s p" "p \<notin> set (body s)" and adj: "adjacent p (hd (body s))"
  shows "\<exists>s'. move_snake p s = Some s' \<and> snake_ok s' \<and> gameOver s' = gameOver s \<and> direction s' = direction s
    \<and> frameCounter s' = frameCounter s \<and> score s' = score s + (if p = (appleX s, appleY s) then 10 else 0)
    \<and> body s' = p # (if grown s p then body s else butlast (body s))"
proof -
  let ?ate = "p = (appleX s, appleY s)"
  have o: "length (snakeX s) = 100" "length (snakeY s) = 100" "3 \<le> snakeLength s" "snakeLength s \<le> 99"
    "gridW s = screenW s div 16" "gridH s = screenH s div 16" "80 \<le> screenW s" "80 \<le> screenH s" "screenW s < 2 ^ 31" "screenH s < 2 ^ 31"
    using ok by (simp_all add: snake_ok_def)
  then have g: "5 \<le> gridW s" "gridW s < 2 ^ 31" "5 \<le> gridH s" "gridH s < 2 ^ 31" by simp_all
  define n where "n = (if grown s p then snakeLength s + 1 else snakeLength s)"
  have n: "0 < nat n" "nat n < 100" "nat (n - 1) = nat n - 1" "3 \<le> n" "n \<le> 99"
    using o(3,4) body_len_bound [OF ok] by (auto simp: n_def grown_def)
  obtain ax ay seed where e: "(if fst p = appleX s \<and> snd p = appleY s then eat s else Some s)
      = Some (s\<lparr>score := score s + (if ?ate then 10 else 0), snakeLength := n, appleX := ax, appleY := ay, randSeed := seed\<rparr>)"
    and apple: "1 \<le> ax" "ax \<le> gridW s - 2" "1 \<le> ay" "ay \<le> gridH s - 2"
  proof (cases ?ate)
    case True
    define s1 where "s1 = s\<lparr>score := score s + 10, snakeLength := n\<rparr>"
    have "(if snakeLength s < MAX_LENGTH - 1 then snakeLength s + 1 else snakeLength s) = n"
      using True o(3,4) body_len_bound [OF ok] by (auto simp: n_def grown_def MAX_LENGTH_def)
    then have "eat s = PlaceApple s1" by (simp only: eat_def s1_def)
    moreover obtain x y seed where "PlaceApple s1 = Some (s1\<lparr>appleX := x, appleY := y, randSeed := seed\<rparr>)"
      "1 \<le> x" "x \<le> gridW s - 2" "1 \<le> y" "y \<le> gridH s - 2" using PlaceApple_spec [of s1] g by (auto simp: s1_def)
    ultimately show ?thesis using that True by (simp add: s1_def)
  next
    case False
    then have "n = snakeLength s" "\<not> (fst p = appleX s \<and> snd p = appleY s)" by (auto simp: n_def grown_def prod_eq_iff)
    then have "(if fst p = appleX s \<and> snd p = appleY s then eat s else Some s)
      = Some (s\<lparr>score := score s + (if ?ate then 10 else 0), snakeLength := n, appleX := appleX s, appleY := appleY s, randSeed := randSeed s\<rparr>)"
      using False by auto
    then show ?thesis by (rule that) (use ok in \<open>simp_all add: snake_ok_def\<close>)
  qed
  define s1 where "s1 = s\<lparr>score := score s + (if ?ate then 10 else 0), snakeLength := n, appleX := ax, appleY := ay, randSeed := seed\<rparr>"
  have xy: "snakeX s1 = snakeX s" "snakeY s1 = snakeY s" "snakeLength s1 = n" by (simp_all add: s1_def)
  have sl: "length (shifted (nat (n - 1)) (snakeX s)) = 100" "length (shifted (nat (n - 1)) (snakeY s)) = 100"
    using o(1,2) n by (simp_all add: shifted_def)
  define s' where "s' = s1\<lparr>snakeX := (shifted (nat (n - 1)) (snakeX s))[0 := fst p], snakeY := (shifted (nat (n - 1)) (snakeY s))[0 := snd p]\<rparr>"
  have "shift_body (nat (snakeLength s1 - 1)) s1
      = Some (s1\<lparr>snakeX := shifted (nat (n - 1)) (snakeX s), snakeY := shifted (nat (n - 1)) (snakeY s)\<rparr>)"
    using shift_body_spec [of "nat (n - 1)" s1] n o(1,2) by (simp add: xy)
  then have call: "move_snake p s = Some s'"
    using e by (simp add: shifted_nonempty move_snake_def s1_def [symmetric] s'_def set_cell_def arr_set_def)
  have "body s' = (fst p, snd p) # take (nat n - 1) (zip (snakeX s) (snakeY s))"
    using body_moved [OF o(1,2) n(1,2), of "fst p" "snd p"] by (simp add: body_def s'_def s1_def n(3))
  moreover have "take (nat n - 1) (zip (snakeX s) (snakeY s)) = (if grown s p then body s else butlast (body s))"
    using o by (simp add: n_def body_def nat_add_distrib butlast_take)
  ultimately have b: "body s' = p # (if grown s p then body s else butlast (body s))" by simp
  let ?tail = "if grown s p then body s else butlast (body s)"
  obtain q qs where q: "body s = q # qs" "qs \<noteq> []"
    using body_len_bound [OF ok] o(3) by (cases "body s"; cases "tl (body s)") auto
  then obtain rs z where z: "body s = q # rs @ [z]" by (cases qs rule: rev_cases) auto
  have sb: "successively adjacent (body s)" "distinct (body s)" using ok by (simp_all add: snake_ok_def)
  then have "successively adjacent (q # rs)" using successively_append_iff [of adjacent "q # rs" "[z]"] by (simp add: z)
  then have t: "set ?tail \<subseteq> set (body s)" "distinct ?tail" "successively adjacent (p # ?tail)"
    using sb adj by (auto simp: z)
  have r: "gridW s' = gridW s" "gridH s' = gridH s" "screenW s' = screenW s" "screenH s' = screenH s" "snakeLength s' = n"
    "frameCounter s' = frameCounter s" "direction s' = direction s" "gameOver s' = gameOver s" "appleX s' = ax" "appleY s' = ay"
    "score s' = score s + (if ?ate then 10 else 0)" "length (snakeX s') = 100" "length (snakeY s') = 100"
    using sl by (simp_all add: s'_def s1_def)
  have ig: "in_grid s' c = in_grid s c" for c by (simp add: in_grid_def r)
  have "\<forall>c \<in> set (body s'). in_grid s' c" using t(1) free(1) ok unfolding ig b by (auto simp: snake_ok_def)
  moreover have "distinct (body s')" using t(1,2) free(2) unfolding b by auto
  moreover have "successively adjacent (body s')" unfolding b by (rule t(3))
  ultimately have "snake_ok s'" using ok n(4,5) apple unfolding snake_ok_def r by simp
  then show ?thesis using call b r by simp
qed

lemma Update_spec:
  assumes ok: "snake_ok s" and run: "\<not> gameOver s"
  shows "\<exists>s'. Snake_Update k s = Some s' \<and> snake_ok s' \<and> direction s' = turn k (direction s)
    \<and> (let p = ahead (turn k (direction s)) (hd (body s)) in
       if frameCounter s < 4 then frameCounter s' = frameCounter s + 1 \<and> \<not> gameOver s' \<and> body s' = body s \<and> score s' = score s
       else frameCounter s' = 0 \<and>
         (if in_grid s p \<and> p \<notin> set (body s)
          then \<not> gameOver s' \<and> score s' = score s + (if p = (appleX s, appleY s) then 10 else 0)
            \<and> body s' = p # (if grown s p then body s else butlast (body s))
          else gameOver s' \<and> body s' = body s \<and> score s' = score s))"
proof -
  define d where "d = turn k (direction s)"
  define p where "p = ahead d (hd (body s))"
  define s1 where "s1 = s\<lparr>direction := d, frameCounter := 0\<rparr>"
  have d: "d \<in> {0, 1, 2, 3}" using ok turn_range [of "direction s" k] by (simp add: d_def snake_ok_def)
  obtain rest where h: "body s = (snakeX s ! 0, snakeY s ! 0) # rest" using ok by (rule body_hd)
  have arr: "length (snakeX s) = 100" "length (snakeY s) = 100" "nat (snakeLength s) \<le> 100" using ok by (auto simp: snake_ok_def)
  have b1: "body s1 = body s" "in_grid s1 p = in_grid s p" "grown s1 p = grown s p" "score s1 = score s"
    by (simp_all add: s1_def steer grown_def)
  have ok1: "snake_ok s1" unfolding s1_def using ok d by (intro steer_ok) simp_all
  show ?thesis
  proof (cases "frameCounter s < 4")
    case True
    define s' where "s' = s\<lparr>direction := d, frameCounter := frameCounter s + 1\<rparr>"
    have "Snake_Update k s = Some s'" using True run by (simp add: Snake_Update_def s'_def d_def)
    moreover have "frameCounter s + 1 \<in> {0..4}" using True ok by (simp add: snake_ok_def)
    then have "snake_ok s'" unfolding s'_def using ok d by (intro steer_ok)
    ultimately show ?thesis using True run by (simp add: s'_def steer d_def)
  next
    case False
    then have fr: "frameCounter s = 4" using ok by (simp add: snake_ok_def)
    have start: "arr_get (snakeX s) 0 = Some (snakeX s ! 0)" "arr_get (snakeY s) 0 = Some (snakeY s ! 0)"
      using arr by (simp_all add: arr_get_def)
    have new: "ahead d (snakeX s ! 0, snakeY s ! 0) = (fst p, snd p)" by (simp add: p_def h)
    have hit: "hits_body (nat (snakeLength s)) 0 (fst p, snd p) s1 = Some (p \<in> set (body s))"
      using hits_body_spec [of 0 "nat (snakeLength s)" s1 p] arr by (simp add: s1_def body_def)
    have call: "Snake_Update k s = (if \<not> in_grid s p \<or> p \<in> set (body s) then Some (s1\<lparr>gameOver := True\<rparr>) else move_snake p s1)"
    proof -
      have f: "snakeX s1 = snakeX s" "snakeY s1 = snakeY s" "snakeLength s1 = snakeLength s" "direction s1 = d"
        "gridW s1 = gridW s" "gridH s1 = gridH s" by (simp_all add: s1_def)
      have "Snake_Update k s = (if fst p < 0 \<or> gridW s \<le> fst p \<or> snd p < 0 \<or> gridH s \<le> snd p then Some (s1\<lparr>gameOver := True\<rparr>)
          else if p \<in> set (body s) then Some (s1\<lparr>gameOver := True\<rparr>) else move_snake p s1)"
        using run fr start new hit
        by (cases p) (simp add: Snake_Update_def d_def [symmetric] s1_def [symmetric] f move_snake_def)
      then show ?thesis by (auto simp: in_grid_def)
    qed
    show ?thesis
    proof (cases "in_grid s p \<and> p \<notin> set (body s)")
      case True
      have "adjacent p (hd (body s))" unfolding p_def by (rule ahead_adjacent [OF d])
      then obtain s' where s': "move_snake p s1 = Some s'" "snake_ok s'" "gameOver s' = gameOver s1" "direction s' = direction s1"
        "frameCounter s' = frameCounter s1" "score s' = score s1 + (if p = (appleX s1, appleY s1) then 10 else 0)"
        "body s' = p # (if grown s1 p then body s1 else butlast (body s1))"
        using move_snake_spec [OF ok1, of p] True b1 by auto
      have "gameOver s1 = False" "direction s1 = d" "frameCounter s1 = 0" "appleX s1 = appleX s" "appleY s1 = appleY s"
        using run by (simp_all add: s1_def)
      then show ?thesis using call s' True False b1
        by (intro exI [of _ s']) (simp add: d_def [symmetric] p_def [symmetric] Let_def)
    next
      case False
      have "snake_ok (s1\<lparr>gameOver := True\<rparr>)" "body (s1\<lparr>gameOver := True\<rparr>) = body s1"
        using ok1 by (simp_all add: over_ok over)
      then show ?thesis using call False fr b1
        by (intro exI [of _ "s1\<lparr>gameOver := True\<rparr>"]) (simp add: d_def [symmetric] p_def [symmetric] Let_def, simp add: s1_def)
    qed
  qed
qed

text \<open>C10: a frame of the snake is a move of the abstract game. On a game in order that is not over, \<open>Update\<close> with
  any key never leaves its arrays and keeps the game in order (the body a path of different neighbouring
  cells of the grid, at most 99 long; the apple inside): four frames of five only turn the head, and the fifth moves
  it by one cell, growing at the apple, or ends the game at a wall or at the body.\<close>

theorem Update_refines_game:
  assumes ok: "snake_ok s" and run: "\<not> gameOver s"
  shows "\<exists>s'. Snake_Update k s = Some s' \<and> snake_ok s' \<and> direction s' = turn k (direction s)
    \<and> (let p = ahead (turn k (direction s)) (hd (body s)) in
       if frameCounter s < 4 then frameCounter s' = frameCounter s + 1 \<and> \<not> gameOver s' \<and> body s' = body s \<and> score s' = score s
       else frameCounter s' = 0 \<and>
         (if in_grid s p \<and> p \<notin> set (body s)
          then \<not> gameOver s' \<and> score s' = score s + (if p = (appleX s, appleY s) then 10 else 0)
            \<and> body s' = p # (if grown s p then body s else butlast (body s))
          else gameOver s' \<and> body s' = body s \<and> score s' = score s))"
  by (rule Update_spec [OF assms])

definition blank_snake :: snake where
  "blank_snake = \<lparr>screenW = 0, screenH = 0, gridW = 0, gridH = 0, snakeX = replicate 100 0, snakeY = replicate 100 0,
     snakeLength = 0, direction = 0, appleX = 0, appleY = 0, score = 0, gameOver = False, frameCounter = 0, randSeed = 12345\<rparr>"

lemma demo_game:
  obtains s where "Snake_Init 800 600 blank_snake = Some s" "snake_ok s" "\<not> gameOver s" "direction s = 0" "frameCounter s = 0"
    "body s = [(25, 18), (25, 19), (25, 20)]" "screenW s = 800" "screenH s = 600"
proof -
  have "arrays_ok blank_snake" unfolding arrays_ok_def blank_snake_def by (simp only: snake.simps length_replicate simp_thms)
  from Init_spec [OF this, of 800 600] show thesis using that by auto
qed

theorem Update_refines_game_witness:
  "\<exists>s s'. Snake_Init 800 600 blank_snake = Some s \<and> Snake_Update SC_D (s\<lparr>direction := 0, frameCounter := 4\<rparr>) = Some s'
    \<and> hd (body s') = (26, 18)"
proof -
  obtain s where s: "Snake_Init 800 600 blank_snake = Some s" "snake_ok s" "\<not> gameOver s" "direction s = 0" "frameCounter s = 0"
    "body s = [(25, 18), (25, 19), (25, 20)]" "screenW s = 800" "screenH s = 600" by (rule demo_game)
  let ?s = "s\<lparr>direction := 0, frameCounter := 4\<rparr>"
  have ok: "snake_ok ?s" using s(2) by (intro steer_ok) simp_all
  have "gridW s = 50" "gridH s = 37" using s(2,7,8) by (simp_all add: snake_ok_def)
  then have "in_grid ?s (26, 18)" "(26, 18) \<notin> set (body ?s)" by (simp_all add: steer s(6)) (simp add: in_grid_def)
  moreover have "ahead (turn SC_D (direction ?s)) (hd (body ?s)) = (26, 18)"
    by (simp add: steer s(6) turn_def SC_D_def SC_W_def ahead_def)
  ultimately show ?thesis using Update_refines_game [OF ok, of SC_D] s(1,3) by (auto simp: Let_def)
qed

lemma Update_total: "snake_ok s \<Longrightarrow> \<exists>s'. Snake_Update k s = Some s' \<and> snake_ok s'"
proof (cases "gameOver s")
  case True
  assume "snake_ok s"
  then show ?thesis using True Init_spec [of s "screenW s" "screenH s"]
    by (auto simp: Snake_Update_def snake_ok_def arrays_ok_def)
next
  case False
  assume "snake_ok s"
  then show ?thesis using Update_spec [OF _ False] by blast
qed

section \<open>Any game\<close>

fun play :: "u8 list \<Rightarrow> snake \<Rightarrow> snake option" where
  "play [] s = Some s"
| "play (k # ks) s = Snake_Update k s \<bind> play ks"

text \<open>No game goes wrong. On any screen of 80 by 80 pixels or more, from \<open>Init\<close> on whatever the arrays held, any sequence
  of keys runs without leaving the arrays, through any number of deaths and restarts, and leaves a game in order.\<close>

theorem any_game_in_order:
  assumes "arrays_ok s" and "80 \<le> w" and "w < 2 ^ 31" and "80 \<le> h" and "h < 2 ^ 31"
  shows "\<exists>s'. Snake_Init w h s \<bind> play ks = Some s' \<and> snake_ok s'"
proof -
  have "snake_ok s \<Longrightarrow> \<exists>s'. play ks s = Some s' \<and> snake_ok s'" for s
  proof (induction ks arbitrary: s)
    case (Cons k ks)
    obtain s1 where "Snake_Update k s = Some s1" "snake_ok s1" using Update_total [OF Cons.prems] by blast
    then show ?case using Cons.IH by simp
  qed simp
  then show ?thesis using Init_spec [OF assms] by fastforce
qed

theorem any_game_in_order_witness:
  "\<exists>s'. Snake_Init 640 480 blank_snake \<bind> play [SC_A, SC_A, 0x3B, SC_S] = Some s' \<and> snake_ok s'"
proof -
  have "arrays_ok blank_snake" unfolding arrays_ok_def blank_snake_def by (simp only: snake.simps length_replicate simp_thms)
  from any_game_in_order [OF this, of 640 480] show ?thesis by simp
qed

text \<open>Two quick keys kill the snake. The guard against turning back compares with the direction chosen last, not
  with the one last moved: going up, D and then S within a frame turn the head down into the neck, although S alone
  is refused.\<close>

theorem quick_turn_kills:
  assumes ok: "snake_ok s" and run: "\<not> gameOver s" and up: "direction s = 0" "frameCounter s = 3"
    and neck: "hd (body s) = ahead 0 (body s ! 1)"
  shows "\<exists>s1 s2. Snake_Update SC_D s = Some s1 \<and> \<not> gameOver s1 \<and> Snake_Update SC_S s1 = Some s2 \<and> gameOver s2
    \<and> turn SC_S (direction s) = 0"
proof -
  obtain s1 where s1: "Snake_Update SC_D s = Some s1" "snake_ok s1" "direction s1 = 1" "frameCounter s1 = 4" "\<not> gameOver s1"
    "body s1 = body s" using Update_spec [OF ok run, of SC_D] up by (auto simp: turn_def SC_D_def SC_W_def Let_def)
  have n: "1 < length (body s)" using body_len_bound [OF ok] ok by (simp add: snake_ok_def)
  have "ahead 2 (hd (body s)) = body s ! 1" unfolding neck by (cases "body s ! 1") (simp add: ahead_def)
  then have "ahead (turn SC_S (direction s1)) (hd (body s1)) \<in> set (body s1)"
    using n s1(3,6) by (simp add: turn_def SC_S_def SC_D_def SC_W_def)
  then obtain s2 where "Snake_Update SC_S s1 = Some s2" "gameOver s2"
    using Update_spec [OF s1(2,5), of SC_S] s1(4) by (auto simp: Let_def)
  then show ?thesis using s1(1,5) up by (simp add: turn_def SC_S_def SC_D_def SC_W_def)
qed

theorem quick_turn_kills_witness:
  "\<exists>s s2. Snake_Init 800 600 blank_snake = Some s \<and> play [SC_D, SC_S] (s\<lparr>direction := 0, frameCounter := 3\<rparr>) = Some s2 \<and> gameOver s2"
proof -
  obtain s where s: "Snake_Init 800 600 blank_snake = Some s" "snake_ok s" "\<not> gameOver s" "direction s = 0" "frameCounter s = 0"
    "body s = [(25, 18), (25, 19), (25, 20)]" by (rule demo_game)
  let ?s = "s\<lparr>direction := 0, frameCounter := 3\<rparr>"
  have "snake_ok ?s" using s(2) by (intro steer_ok) simp_all
  moreover have "hd (body ?s) = ahead 0 (body ?s ! 1)" by (simp add: steer s(6) ahead_def)
  ultimately show ?thesis using quick_turn_kills [of ?s] s(1,3) by auto
qed

section \<open>The picture\<close>

text \<open>The score as text: digits from the last to the first into \<open>temp[10]\<close>, and back in order into
  \<open>scoreStr[32]\<close> after the seven characters of the label.\<close>

definition digit_char :: "int \<Rightarrow> char" where
  "digit_char d = char_of (48 + nat d)"

function fill_temp :: "int \<Rightarrow> char list \<Rightarrow> int \<Rightarrow> (char list \<times> int) option" where
  "fill_temp s temp t = (if 0 < s
     then arr_set temp t (digit_char (s mod 10)) \<bind> (\<lambda>temp. fill_temp (s div 10) temp (t + 1))
     else Some (temp, t))"
  by auto
termination by (relation "measure (\<lambda>(s, _, _). nat s)") auto

declare fill_temp.simps [simp del]

fun copy_back :: "nat \<Rightarrow> char list \<Rightarrow> char list \<Rightarrow> int \<Rightarrow> (char list \<times> int) option" where
  "copy_back 0 temp str pos = Some (str, pos)"
| "copy_back (Suc t) temp str pos = do {
     c \<leftarrow> arr_get temp (int t);
     str \<leftarrow> arr_set str pos c;
     copy_back t temp str (pos + 1)
   }"

definition score_label :: string where "score_label = ''Score: ''"

definition score_text :: "char list \<Rightarrow> int \<Rightarrow> char list option" where
  "score_text raw s = do {
     let str = score_label @ replicate 25 NUL;
     (str, pos) \<leftarrow> (if s = 0 then map_option (\<lambda>str. (str, 8)) (arr_set str 7 CHR ''0'')
       else do { (temp, t) \<leftarrow> fill_temp s raw 0; copy_back (nat t) temp str 7 });
     arr_set str pos NUL
   }"

fun draw_segments :: "nat \<Rightarrow> int \<Rightarrow> snake \<Rightarrow> draw_call list option" where
  "draw_segments 0 i s = Some []"
| "draw_segments (Suc n) i s = do {
     x \<leftarrow> arr_get (snakeX s) i;
     y \<leftarrow> arr_get (snakeY s) i;
     rest \<leftarrow> draw_segments n (i + 1) s;
     Some (GRect (x * GRID_SIZE) (y * GRID_SIZE) (GRID_SIZE - 2) (GRID_SIZE - 2) (if i = 0 then 0x0000AA00 else COLOR_GREEN) # rest)
   }"

text \<open>\<open>raw\<close> is what the uninitialised \<open>temp\<close> holds.\<close>

definition Snake_Draw :: "char list \<Rightarrow> snake \<Rightarrow> draw_call list option" where
  "Snake_Draw raw s = do {
     segments \<leftarrow> draw_segments (nat (snakeLength s)) 0 s;
     str \<leftarrow> score_text raw (score s);
     Some ([GClear COLOR_BLACK,
         GRect 0 0 (screenW s) 2 COLOR_GRAY, GRect 0 (screenH s - 2) (screenW s) 2 COLOR_GRAY,
         GRect 0 0 2 (screenH s) COLOR_GRAY, GRect (screenW s - 2) 0 2 (screenH s) COLOR_GRAY,
         GRect (appleX s * GRID_SIZE) (appleY s * GRID_SIZE) (GRID_SIZE - 2) (GRID_SIZE - 2) COLOR_RED]
       @ segments @ [GString 10 10 (cstr str) COLOR_WHITE]
       @ (if gameOver s then [GString (screenW s sdiv 2 - 60) (screenH s sdiv 2 - 20) ''GAME OVER!'' COLOR_RED,
            GString (screenW s sdiv 2 - 80) (screenH s sdiv 2 + 10) ''Press any key...'' COLOR_WHITE] else [])
       @ [GString 10 (screenH s - 20) ''WASD: Move | Esc: Exit'' COLOR_GRAY])
   }"

subsection \<open>The score is decimal\<close>

fun decimal :: "nat \<Rightarrow> string" where
  "decimal n = (if n < 10 then [digit_char (int n)] else decimal (n div 10) @ [digit_char (int (n mod 10))])"

declare decimal.simps [simp del]

definition read_decimal :: "string \<Rightarrow> nat" where
  "read_decimal ds = foldl (\<lambda>a c. 10 * a + (of_char c - 48)) 0 ds"

lemma digit_char_value: "0 \<le> d \<Longrightarrow> d < 10 \<Longrightarrow> of_char (digit_char d) = 48 + nat d" "0 \<le> d \<Longrightarrow> d < 10 \<Longrightarrow> digit_char d \<noteq> NUL"
proof -
  assume d: "0 \<le> d" "d < 10"
  then have "(48 + nat d) mod 256 = 48 + nat d" by simp
  then show v: "of_char (digit_char d) = 48 + nat d" by (simp only: digit_char_def of_char_of)
  show "digit_char d \<noteq> NUL"
  proof
    assume "digit_char d = NUL"
    then have "(of_char (digit_char d) :: nat) = 0" by simp
    with v show False by simp
  qed
qed

lemma read_decimal_decimal: "read_decimal (decimal n) = n"
proof (induction n rule: decimal.induct)
  case (1 n)
  then show ?case by (subst decimal.simps) (auto simp: read_decimal_def digit_char_value)
qed

lemma decimal_facts: "decimal n \<noteq> []" "NUL \<notin> set (decimal n)"
proof -
  show "decimal n \<noteq> []" by (subst decimal.simps) simp
  show "NUL \<notin> set (decimal n)"
  proof (induction n rule: decimal.induct)
    case (1 n)
    have "0 \<le> int n mod 10" "int n mod 10 < 10" by simp_all
    then show ?case using 1 digit_char_value(2) [of "int n mod 10"] digit_char_value(2) [of "int n"]
      by (subst decimal.simps) (auto simp: zmod_int)
  qed
qed

lemma decimal_length: "n < 10 ^ Suc k \<Longrightarrow> length (decimal n) \<le> Suc k"
proof (induction k arbitrary: n)
  case 0
  then show ?case by (subst decimal.simps) simp
next
  case (Suc k)
  then have "n div 10 < 10 ^ Suc k" by simp
  with Suc.IH show ?case by (subst decimal.simps) simp
qed

lemma fill_temp_spec:
  assumes "0 < s" "t + length (decimal (nat s)) \<le> length temp"
  shows "\<exists>temp'. fill_temp s temp (int t) = Some (temp', int (t + length (decimal (nat s)))) \<and> length temp' = length temp
    \<and> take (t + length (decimal (nat s))) temp' = take t temp @ rev (decimal (nat s))"
  using assms
proof (induction "nat s" arbitrary: s t temp rule: decimal.induct)
  case 1
  define temp1 where "temp1 = temp[t := digit_char (s mod 10)]"
  have t: "t < length temp" using 1(3) decimal_facts(1) [of "nat s"] by (cases "decimal (nat s)") auto
  have set: "arr_set temp (int t) (digit_char (s mod 10)) = Some temp1" using t by (simp add: arr_set_def temp1_def)
  have t1: "take (Suc t) temp1 = take t temp @ [digit_char (s mod 10)]"
    using t by (simp add: temp1_def take_Suc_conv_app_nth)
  show ?case
  proof (cases "nat s < 10")
    case True
    then have "s div 10 = 0" using 1(2) by simp
    moreover have d: "decimal (nat s) = [digit_char (s mod 10)]" using True 1(2) by (subst decimal.simps) simp
    ultimately show ?thesis using set t1 1(2) t by (subst fill_temp.simps) (simp add: fill_temp.simps temp1_def)
  next
    case False
    have n: "nat s div 10 = nat (s div 10)" "int (nat s mod 10) = s mod 10" using 1(2) by (simp_all add: nat_div_distrib zmod_int)
    have d: "decimal (nat s) = decimal (nat (s div 10)) @ [digit_char (s mod 10)]"
      using False by (subst decimal.simps) (simp add: n)
    have "0 < s div 10" using False by simp
    moreover have "Suc t + length (decimal (nat (s div 10))) \<le> length temp1" using 1(3) d by (simp add: temp1_def)
    ultimately obtain temp' where r: "fill_temp (s div 10) temp1 (int (Suc t)) = Some (temp', int (Suc t + length (decimal (nat (s div 10)))))"
      "length temp' = length temp1"
      "take (Suc t + length (decimal (nat (s div 10)))) temp' = take (Suc t) temp1 @ rev (decimal (nat (s div 10)))"
      using 1(1) [OF False n(1)] by blast
    have "fill_temp s temp (int t) = Some (temp', int (t + length (decimal (nat s))))"
      using set r(1) 1(2) by (subst fill_temp.simps) (simp add: d add.commute)
    then show ?thesis using r(2,3) t1 by (intro exI [of _ temp']) (simp add: d temp1_def)
  qed
qed

lemma copy_back_spec:
  "t \<le> length temp \<Longrightarrow> p + t \<le> length str \<Longrightarrow>
   copy_back t temp str (int p) = Some (take p str @ rev (take t temp) @ drop (p + t) str, int (p + t))"
proof (induction t arbitrary: str p)
  case (Suc t)
  define str1 where "str1 = str[p := temp ! t]"
  have "copy_back (Suc t) temp str (int p) = copy_back t temp str1 (int (Suc p))"
    using Suc.prems by (simp add: arr_get_def arr_set_def str1_def add.commute)
  also have "\<dots> = Some (take (Suc p) str1 @ rev (take t temp) @ drop (Suc p + t) str1, int (Suc p + t))"
    using Suc.IH [where p = "Suc p" and str = str1] Suc.prems by (simp add: str1_def)
  also have "take (Suc p) str1 = take p str @ [temp ! t]" using Suc.prems by (simp add: str1_def take_Suc_conv_app_nth)
  also have "drop (Suc p + t) str1 = drop (p + Suc t) str" by (simp add: str1_def)
  finally show ?case using Suc.prems by (simp add: take_Suc_conv_app_nth)
qed simp

lemma score_text_spec:
  assumes "length raw = 10" "0 \<le> s" "s < 2 ^ 31"
  shows "\<exists>str. score_text raw s = Some str \<and> length str = 32 \<and> cstr str = score_label @ decimal (nat s)"
proof -
  let ?str = "score_label @ replicate 25 NUL"
  have lab: "length score_label = 7" "NUL \<notin> set score_label" by (simp_all add: score_label_def)
  then have len: "length ?str = 32" "take 7 ?str = score_label" by simp_all
  have fin: "\<exists>str. score_text raw s = Some str \<and> length str = 32 \<and> cstr str = score_label @ decimal (nat s)"
    if h: "(if s = 0 then map_option (\<lambda>str. (str, 8)) (arr_set ?str 7 CHR ''0'')
         else do { (temp, t) \<leftarrow> fill_temp s raw 0; copy_back (nat t) temp ?str 7 })
       = Some (score_label @ decimal (nat s) @ r, 7 + int (length (decimal (nat s))))" "length r = 25 - length (decimal (nat s))"
      "length (decimal (nat s)) \<le> 10" for r
  proof -
    obtain x r' where r: "r = x # r'" using h(2,3) by (cases r) auto
    let ?d = "score_label @ decimal (nat s)"
    have "arr_set (?d @ r) (7 + int (length (decimal (nat s)))) NUL = Some (?d @ NUL # r')"
      using h(2,3) by (simp add: arr_set_def r nat_add_distrib list_update_append lab(1))
    then have "score_text raw s = Some (?d @ NUL # r')" using h(1) by (simp add: score_text_def Let_def)
    moreover have "cstr (?d @ NUL # r') = ?d" using lab(2) decimal_facts(2) by (intro cstr_literal) simp
    ultimately show ?thesis using h(2,3) r lab(1) by simp
  qed
  show ?thesis
  proof (cases "s = 0")
    case True
    have "decimal 0 = ''0''" by (simp add: decimal.simps digit_char_def char_of_def bit_Suc_0_iff)
    moreover have "replicate 25 NUL = NUL # replicate 24 NUL" by (simp add: numeral_eq_Suc)
    ultimately show ?thesis using True
      by (intro fin [of "replicate 24 NUL"]) (simp_all add: arr_set_def lab(1) list_update_append)
  next
    case False
    let ?n = "length (decimal (nat s))"
    have n: "?n \<le> 10" using assms(3) by (intro decimal_length [of _ 9, simplified]) simp
    then obtain temp where f: "fill_temp s raw 0 = Some (temp, int ?n)" "length temp = 10" "take ?n temp = rev (decimal (nat s))"
      using fill_temp_spec [of s 0 raw] False assms(1,2) by auto
    have "copy_back ?n temp ?str 7 = Some (take 7 ?str @ decimal (nat s) @ drop (7 + ?n) ?str, int (7 + ?n))"
      using copy_back_spec [of ?n temp 7 ?str] n f(2,3) len by simp
    then show ?thesis using False f n len by (intro fin [of "drop (7 + ?n) ?str"]) simp_all
  qed
qed

lemma draw_segments_spec:
  "i + n \<le> length (snakeX s) \<Longrightarrow> i + n \<le> length (snakeY s) \<Longrightarrow>
   \<exists>calls. draw_segments n (int i) s = Some calls \<and> map (\<lambda>c. case c of GRect x y w h col \<Rightarrow> (x div 16, y div 16) | _ \<Rightarrow> (-1, -1)) calls
     = take n (drop i (zip (snakeX s) (snakeY s)))"
proof (induction n arbitrary: i)
  case (Suc n)
  have "drop i (zip (snakeX s) (snakeY s)) = (snakeX s ! i, snakeY s ! i) # drop (Suc i) (zip (snakeX s) (snakeY s))"
    using Suc.prems by (subst Cons_nth_drop_Suc [symmetric]) simp_all
  moreover obtain calls where "draw_segments n (int i + 1) s = Some calls"
    "map (\<lambda>c. case c of GRect x y w h col \<Rightarrow> (x div 16, y div 16) | _ \<Rightarrow> (-1, -1)) calls = take n (drop (Suc i) (zip (snakeX s) (snakeY s)))"
    using Suc.IH [of "Suc i"] Suc.prems by (auto simp: add.commute)
  ultimately show ?case using Suc.prems by (simp add: arr_get_def GRID_SIZE_def)
qed simp

text \<open>C38: the picture of the snake shows the game: the rectangles after the first six are the cells of the body in order,
  and the text is the label with the score in decimal, digits in the right order and no leading zero; the two
  small arrays are big enough for every score.\<close>

theorem Snake_Draw_shows_game:
  assumes "snake_ok s" and "length raw = 10" and "0 \<le> score s" and "score s < 2 ^ 31"
  shows "\<exists>front segments rest. Snake_Draw raw s = Some (front @ segments @ GString 10 10 (score_label @ decimal (nat (score s))) COLOR_WHITE # rest)
    \<and> length front = 6 \<and> map (\<lambda>c. case c of GRect x y w h col \<Rightarrow> (x div 16, y div 16) | _ \<Rightarrow> (-1, -1)) segments = body s
    \<and> read_decimal (decimal (nat (score s))) = nat (score s)"
proof -
  have "nat (snakeLength s) \<le> 100" "length (snakeX s) = 100" "length (snakeY s) = 100" using assms(1) by (auto simp: snake_ok_def)
  then obtain segments where g: "draw_segments (nat (snakeLength s)) 0 s = Some segments"
    "map (\<lambda>c. case c of GRect x y w h col \<Rightarrow> (x div 16, y div 16) | _ \<Rightarrow> (-1, -1)) segments = body s"
    using draw_segments_spec [of 0 "nat (snakeLength s)" s] by (auto simp: body_def)
  obtain str where t: "score_text raw (score s) = Some str" "cstr str = score_label @ decimal (nat (score s))"
    using score_text_spec [OF assms(2-4)] by blast
  let ?front = "[GClear COLOR_BLACK,
         GRect 0 0 (screenW s) 2 COLOR_GRAY, GRect 0 (screenH s - 2) (screenW s) 2 COLOR_GRAY,
         GRect 0 0 2 (screenH s) COLOR_GRAY, GRect (screenW s - 2) 0 2 (screenH s) COLOR_GRAY,
         GRect (appleX s * GRID_SIZE) (appleY s * GRID_SIZE) (GRID_SIZE - 2) (GRID_SIZE - 2) COLOR_RED]"
  let ?rest = "(if gameOver s then [GString (screenW s sdiv 2 - 60) (screenH s sdiv 2 - 20) ''GAME OVER!'' COLOR_RED,
            GString (screenW s sdiv 2 - 80) (screenH s sdiv 2 + 10) ''Press any key...'' COLOR_WHITE] else [])
       @ [GString 10 (screenH s - 20) ''WASD: Move | Esc: Exit'' COLOR_GRAY]"
  show ?thesis using g t
    by (intro exI [of _ ?front] exI [of _ segments] exI [of _ ?rest]) (simp add: Snake_Draw_def read_decimal_decimal)
qed

theorem Snake_Draw_shows_game_witness:
  "\<exists>s calls. Snake_Init 800 600 blank_snake = Some s \<and> Snake_Draw ''??????????'' (s\<lparr>score := 120\<rparr>) = Some calls
    \<and> GString 10 10 ''Score: 120'' COLOR_WHITE \<in> set calls"
proof -
  obtain s where s: "Snake_Init 800 600 blank_snake = Some s" "snake_ok s" by (rule demo_game) blast
  have ok: "snake_ok (s\<lparr>score := 120\<rparr>)" using s(2) unfolding snake_ok_def scored by simp
  have "decimal 120 = ''120''" by (simp add: decimal.simps digit_char_def char_of_def bit_Suc_0_iff)
  then have "score_label @ decimal (nat (score (s\<lparr>score := 120\<rparr>))) = ''Score: 120''" by (simp add: score_label_def)
  moreover have "length ''??????????'' = 10" "0 \<le> score (s\<lparr>score := 120\<rparr>)" "score (s\<lparr>score := 120\<rparr>) < 2 ^ 31" by simp_all
  ultimately obtain front segments rest where
    "Snake_Draw ''??????????'' (s\<lparr>score := 120\<rparr>) = Some (front @ segments @ GString 10 10 ''Score: 120'' COLOR_WHITE # rest)"
    using Snake_Draw_shows_game [OF ok, of "''??????????''"] by metis
  then show ?thesis using s(1) by (intro exI [of _ s] exI [of _ "front @ segments @ GString 10 10 ''Score: 120'' COLOR_WHITE # rest"]) simp
qed

end
