(* ===== verification/Notepad.thy ===== *)
theory Notepad
  imports Apps CString
begin

text \<open>
  The notepad of src/programs.cpp: a buffer of 1024 bytes edited at its end. The file system \<open>EXT2\<close> is not in
  the repository: whether it is mounted is an argument of \<open>Save\<close>, and the call to it is an output.
\<close>

section \<open>State and operations\<close>

record note_state =
  n_buffer :: "char list"
  n_cursor :: int
  scrollY :: int
  n_saved :: bool

definition Notepad_Init :: "note_state \<Rightarrow> note_state option" where
  "Notepad_Init n = do {
     b \<leftarrow> for_loop 1024 (\<lambda>i b. arr_set b (int i) NUL) (n_buffer n);
     Some (n\<lparr>n_buffer := b, n_cursor := 0, scrollY := 0, n_saved := False\<rparr>)
   }"

definition Notepad_Input :: "u8 \<Rightarrow> note_state \<Rightarrow> note_state option" where
  "Notepad_Input scancode n =
     (let n = n\<lparr>n_saved := False\<rparr> in
      if scancode = SC_BACKSPACE
      then if 0 < n_cursor n then do {
             b \<leftarrow> arr_set (n_buffer n) (n_cursor n - 1) NUL;
             Some (n\<lparr>n_cursor := n_cursor n - 1, n_buffer := b\<rparr>)
           } else Some n
      else if scancode = SC_ENTER
      then if n_cursor n < 1020 then do {
             b \<leftarrow> arr_set (n_buffer n) (n_cursor n) NL;
             Some (n\<lparr>n_buffer := b, n_cursor := n_cursor n + 1\<rparr>)
           } else Some n
      else let c = ScancodeToChar scancode False in
           if c \<noteq> NUL \<and> n_cursor n < 1020 then do {
             b \<leftarrow> arr_set (n_buffer n) (n_cursor n) c;
             b \<leftarrow> arr_set b (n_cursor n + 1) NUL;
             Some (n\<lparr>n_buffer := b, n_cursor := n_cursor n + 1\<rparr>)
           } else Some n)"

text \<open>\<open>EXT2::WriteFile\<close>: the name, the buffer and the length.\<close>

datatype file_call = Ext2WriteFile string "char list" int

definition Notepad_Save :: "bool \<Rightarrow> bool \<Rightarrow> note_state \<Rightarrow> file_call list \<times> note_state" where
  "Notepad_Save mounted useEXT2 n =
     (if useEXT2 \<and> mounted then [Ext2WriteFile ''note.txt'' (n_buffer n) (n_cursor n)] else [], n\<lparr>n_saved := True\<rparr>)"

text \<open>The loop that finds the cursor's place.\<close>

definition cursor_place :: "int \<Rightarrow> int \<Rightarrow> note_state \<Rightarrow> (int \<times> int) option" where
  "cursor_place textX textY n =
     for_loop (nat (n_cursor n)) (\<lambda>i (x, y). do {
       c \<leftarrow> arr_get (n_buffer n) (int i);
       Some (if c = NL then (textX, y + 10) else (x + 8, y))
     }) (textX, textY)"

definition Notepad_Draw :: "int \<Rightarrow> int \<Rightarrow> note_state \<Rightarrow> draw_call list option" where
  "Notepad_Draw screenWidth screenHeight n = do {
     let winX = 50;
     let winY = 30;
     let winW = screenWidth - 100;
     let winH = screenHeight - 80;
     let textX = winX + 10;
     let textY = winY + 32;
     (cursorX, cursorY) \<leftarrow> cursor_place textX textY n;
     Some [GRect winX winY winW winH COLOR_WHITE, GRect winX winY winW 2 COLOR_DARK_GRAY, GRect winX winY 2 winH COLOR_DARK_GRAY,
       GRect (winX + winW - 2) winY 2 winH COLOR_DARK_GRAY, GRect winX (winY + winH - 2) winW 2 COLOR_DARK_GRAY,
       GRect (winX + 2) (winY + 2) (winW - 4) 22 COLOR_DARK_BLUE,
       GString (winX + 8) (winY + 7) (if n_saved n then ''Notepad - Saved!'' else ''Notepad - NOTE.TXT*'') COLOR_WHITE,
       GRect (winX + winW - 22) (winY + 5) 16 16 COLOR_RED, GString (winX + winW - 18) (winY + 6) ''X'' COLOR_WHITE,
       GString textX textY (cstr (n_buffer n)) COLOR_BLACK,
       GRect cursorX cursorY 2 10 COLOR_BLACK,
       GRect (winX + 2) (winY + winH - 20) (winW - 4) 18 COLOR_GRAY,
       GString (winX + 8) (winY + winH - 16) ''F5: Save | Esc: Exit'' COLOR_BLACK]
   }"

section \<open>The text\<close>

definition note_text :: "note_state \<Rightarrow> string" where
  "note_text n = take (nat (n_cursor n)) (n_buffer n)"

definition notepad_ok :: "note_state \<Rightarrow> bool" where
  "notepad_ok n \<longleftrightarrow> length (n_buffer n) = 1024 \<and> 0 \<le> n_cursor n \<and> n_cursor n \<le> 1020
     \<and> n_buffer n = note_text n @ replicate (1024 - nat (n_cursor n)) NUL \<and> NUL \<notin> set (note_text n)"

text \<open>A key on a text of at most 1020 characters, edited at its end.\<close>

definition note_key :: "u8 \<Rightarrow> string \<Rightarrow> string" where
  "note_key k t =
     (if k = SC_BACKSPACE then butlast t
      else let c = (if k = SC_ENTER then NL else ScancodeToChar k False) in
        if c \<noteq> NUL \<and> length t < 1020 then t @ [c] else t)"

lemma note_length: "notepad_ok n \<Longrightarrow> length (note_text n) = nat (n_cursor n)"
  by (auto simp: notepad_ok_def note_text_def)

text \<open>A state with a given text.\<close>

definition with_text :: "string \<Rightarrow> note_state \<Rightarrow> note_state" where
  "with_text t n = n\<lparr>n_buffer := t @ replicate (1024 - length t) NUL, n_cursor := int (length t)\<rparr>"

lemma with_text_ok:
  "length t \<le> 1020 \<Longrightarrow> NUL \<notin> set t \<Longrightarrow> notepad_ok (with_text t n) \<and> note_text (with_text t n) = t"
  by (simp add: notepad_ok_def note_text_def with_text_def)

lemma ok_with_text:
  assumes "notepad_ok n"
  shows "n = with_text (note_text n) n" "length (note_text n) \<le> 1020" "NUL \<notin> set (note_text n)"
proof -
  have b: "n_buffer n = note_text n @ replicate (1024 - length (note_text n)) NUL" "n_cursor n = int (length (note_text n))"
    using assms note_length [OF assms] by (auto simp: notepad_ok_def)
  then show "n = with_text (note_text n) n" by (cases n) (simp add: with_text_def)
  show "length (note_text n) \<le> 1020" "NUL \<notin> set (note_text n)" using assms note_length [OF assms] by (auto simp: notepad_ok_def)
qed

lemma pad_append: "length t < 1020 \<Longrightarrow> (t @ replicate (1024 - length t) NUL)[length t := c] = (t @ [c]) @ replicate (1024 - Suc (length t)) NUL"
  by (cases "1024 - length t") (simp_all add: Suc_diff_Suc list_update_append)

lemma pad_butlast: "t \<noteq> [] \<Longrightarrow> length t \<le> 1020 \<Longrightarrow>
   (t @ replicate (1024 - length t) NUL)[length t - 1 := NUL] = butlast t @ replicate (1024 - length (butlast t)) NUL"
  by (cases t rule: rev_cases) (simp_all add: list_update_append Suc_diff_Suc [symmetric])

lemma Input_with_text:
  assumes "length t \<le> 1020"
  shows "Notepad_Input k (with_text t n) = Some (with_text (note_key k t) (n\<lparr>n_saved := False\<rparr>))"
proof (cases "k = SC_BACKSPACE")
  case True
  then show ?thesis using assms pad_butlast [of t]
    by (cases "t = []") (simp_all add: Notepad_Input_def note_key_def with_text_def arr_set_def nat_diff_distrib of_nat_diff Suc_le_eq)
next
  case False
  note nb = this
  have e: "SC_ENTER \<noteq> SC_BACKSPACE" by (simp add: SC_ENTER_def SC_BACKSPACE_def)
  define c where "c = (if k = SC_ENTER then NL else ScancodeToChar k False)"
  show ?thesis
  proof (cases "c \<noteq> NUL \<and> length t < 1020")
    case True
    have "(t @ c # replicate (1024 - Suc (length t)) NUL)[Suc (length t) := NUL] = t @ c # replicate (1024 - Suc (length t)) NUL"
      using True by (cases "1024 - Suc (length t)") (simp_all add: list_update_append)
    then show ?thesis using True nb e pad_append [of t c]
      by (auto simp: Notepad_Input_def note_key_def with_text_def arr_set_def c_def [symmetric] nat_add_distrib Let_def) (simp_all add: c_def)
  next
    case False
    then show ?thesis using nb by (auto simp: Notepad_Input_def note_key_def with_text_def c_def Let_def)
  qed
qed

fun type_keys :: "u8 list \<Rightarrow> note_state \<Rightarrow> note_state option" where
  "type_keys [] n = Some n"
| "type_keys (k # ks) n = Notepad_Input k n \<bind> type_keys ks"

lemma Init_with_text:
  assumes "length (n_buffer n) = 1024"
  shows "Notepad_Init n = Some (with_text [] (n\<lparr>scrollY := 0, n_saved := False\<rparr>))"
proof -
  have "for_loop 1024 (\<lambda>i b. arr_set b (int i) NUL) (n_buffer n) = Some (map (\<lambda>i. NUL) [0..<1024] @ drop 1024 (n_buffer n))"
    using assms by (intro for_loop_fill) simp
  then show ?thesis using assms by (simp add: Notepad_Init_def with_text_def map_replicate_const)
qed

lemma note_key_text:
  "length t \<le> 1020 \<Longrightarrow> NUL \<notin> set t \<Longrightarrow> length (note_key k t) \<le> 1020 \<and> NUL \<notin> set (note_key k t)"
  by (auto simp: note_key_def Let_def dest: in_set_butlastD split: if_splits)

text \<open>C23: the notepad edits a text. From \<open>Init\<close> on, whatever the buffer held, any sequence of keys stays inside the buffer and
  leaves it holding exactly the text the keys spell (bounded at 1020 characters, erased at its end), followed by
  zeros; and \<open>Save\<close> with a mounted file system writes exactly that text.\<close>

theorem notepad_edits_text:
  assumes "length (n_buffer n) = 1024"
  shows "\<exists>n'. Notepad_Init n \<bind> type_keys ks = Some n' \<and> notepad_ok n' \<and> note_text n' = foldl (\<lambda>t k. note_key k t) [] ks
    \<and> fst (Notepad_Save True True n') = [Ext2WriteFile ''note.txt'' (note_text n' @ replicate (1024 - length (note_text n')) NUL)
        (int (length (note_text n')))]"
proof -
  have run: "\<exists>m'. type_keys ks (with_text t m) = Some (with_text (foldl (\<lambda>t k. note_key k t) t ks) m')
      \<and> length (foldl (\<lambda>t k. note_key k t) t ks) \<le> 1020 \<and> NUL \<notin> set (foldl (\<lambda>t k. note_key k t) t ks)"
    if "length t \<le> 1020" "NUL \<notin> set t" for t m
    using that
  proof (induction ks arbitrary: t m)
    case Nil
    then show ?case by auto
  next
    case (Cons k ks)
    have "Notepad_Input k (with_text t m) = Some (with_text (note_key k t) (m\<lparr>n_saved := False\<rparr>))"
      by (rule Input_with_text [OF Cons.prems(1)])
    then show ?case using Cons.IH [of "note_key k t" "m\<lparr>n_saved := False\<rparr>"] note_key_text [OF Cons.prems] by simp
  qed
  let ?t = "foldl (\<lambda>t k. note_key k t) [] ks"
  obtain m' where m: "Notepad_Init n \<bind> type_keys ks = Some (with_text ?t m')" "length ?t \<le> 1020" "NUL \<notin> set ?t"
    using run [of "[]"] Init_with_text [OF assms] by auto
  then show ?thesis using with_text_ok [OF m(2,3), of m'] by (simp add: Notepad_Save_def) (simp add: with_text_def)
qed

theorem notepad_edits_text_witness:
  "\<exists>n'. Notepad_Init \<lparr>n_buffer = replicate 1024 CHR ''?'', n_cursor = 7, scrollY = 1, n_saved = True\<rparr>
      \<bind> type_keys [0x23, 0x17, SC_BACKSPACE, SC_ENTER] = Some n' \<and> note_text n' = ''h'' @ [NL]"
proof -
  have "length (n_buffer \<lparr>n_buffer = replicate 1024 CHR ''?'', n_cursor = 7, scrollY = 1, n_saved = True\<rparr>) = 1024"
    by (simp only: note_state.simps length_replicate)
  from notepad_edits_text [OF this, of "[0x23, 0x17, SC_BACKSPACE, SC_ENTER]"] show ?thesis
    by (auto simp: note_key_def SC_BACKSPACE_def SC_ENTER_def ScancodeToChar_def SCANCODE_TO_ASCII_def)
qed

section \<open>The picture\<close>

definition last_line :: "string \<Rightarrow> string" where
  "last_line t = rev (takeWhile (\<lambda>c. c \<noteq> NL) (rev t))"

lemma cursor_place_spec:
  assumes "notepad_ok n"
  shows "cursor_place x y n = Some (x + 8 * int (length (last_line (note_text n))), y + 10 * int (count_list (note_text n) NL))"
proof -
  let ?f = "\<lambda>i (u, v). do { c \<leftarrow> arr_get (n_buffer n) (int i); Some (if c = NL then (x, v + 10) else (u + 8, v)) }"
  have "length (n_buffer n) = 1024" "n_cursor n \<le> 1020" using assms unfolding notepad_ok_def by blast+
  then have l: "nat (n_cursor n) \<le> length (n_buffer n)" by simp
  have "k \<le> nat (n_cursor n) \<Longrightarrow> for_loop k ?f (x, y)
      = Some (x + 8 * int (length (last_line (take k (n_buffer n)))), y + 10 * int (count_list (take k (n_buffer n)) NL))" for k
  proof (induction k)
    case 0
    then show ?case by (simp add: last_line_def)
  next
    case (Suc k)
    then have "take (Suc k) (n_buffer n) = take k (n_buffer n) @ [n_buffer n ! k]" using l by (simp add: take_Suc_conv_app_nth)
    moreover have "arr_get (n_buffer n) (int k) = Some (n_buffer n ! k)" using Suc.prems l by (simp add: arr_get_def)
    ultimately show ?case using Suc by (simp add: last_line_def)
  qed
  then show ?thesis by (simp add: cursor_place_def note_text_def)
qed

text \<open>The notepad shows what it holds: the drawing returns, contains the text itself, and the cursor bar is at the end of it, a
  row of ten pixels for each line break and a column of eight for each character since the last.\<close>

theorem Notepad_Draw_shows_text:
  assumes "notepad_ok n"
  shows "\<exists>front rest. Notepad_Draw w h n = Some (front @ [GString 60 62 (note_text n) COLOR_BLACK,
      GRect (60 + 8 * int (length (last_line (note_text n)))) (62 + 10 * int (count_list (note_text n) NL)) 2 10 COLOR_BLACK] @ rest)"
proof -
  have "cstr (n_buffer n) = note_text n"
  proof -
    have "\<exists>r. n_buffer n = note_text n @ NUL # r"
    proof -
      have "n_cursor n \<le> 1020" using assms unfolding notepad_ok_def by blast
      then have "1024 - nat (n_cursor n) = Suc (1023 - nat (n_cursor n))" by linarith
      then have "n_buffer n = note_text n @ NUL # replicate (1023 - nat (n_cursor n)) NUL"
        using assms unfolding notepad_ok_def by (metis replicate_Suc)
      then show ?thesis by blast
    qed
    then obtain r where r: "n_buffer n = note_text n @ NUL # r" by blast
    have "NUL \<notin> set (note_text n)" using assms unfolding notepad_ok_def by blast
    then have "cstr (note_text n @ NUL # r) = note_text n" by (rule cstr_literal)
    then show ?thesis by (simp only: r [symmetric])
  qed
  then have "Notepad_Draw w h n = Some ([GRect 50 30 (w - 100) (h - 80) COLOR_WHITE, GRect 50 30 (w - 100) 2 COLOR_DARK_GRAY,
       GRect 50 30 2 (h - 80) COLOR_DARK_GRAY, GRect (50 + (w - 100) - 2) 30 2 (h - 80) COLOR_DARK_GRAY,
       GRect 50 (30 + (h - 80) - 2) (w - 100) 2 COLOR_DARK_GRAY, GRect (50 + 2) (30 + 2) (w - 100 - 4) 22 COLOR_DARK_BLUE,
       GString (50 + 8) (30 + 7) (if n_saved n then ''Notepad - Saved!'' else ''Notepad - NOTE.TXT*'') COLOR_WHITE,
       GRect (50 + (w - 100) - 22) (30 + 5) 16 16 COLOR_RED, GString (50 + (w - 100) - 18) (30 + 6) ''X'' COLOR_WHITE]
     @ [GString 60 62 (note_text n) COLOR_BLACK,
       GRect (60 + 8 * int (length (last_line (note_text n)))) (62 + 10 * int (count_list (note_text n) NL)) 2 10 COLOR_BLACK]
     @ [GRect (50 + 2) (30 + (h - 80) - 20) (w - 100 - 4) 18 COLOR_GRAY,
       GString (50 + 8) (30 + (h - 80) - 16) ''F5: Save | Esc: Exit'' COLOR_BLACK])"
    using cursor_place_spec [OF assms, of 60 62] by (simp add: Notepad_Draw_def Let_def)
  then show ?thesis by blast
qed

theorem Notepad_Draw_shows_text_witness:
  "\<exists>calls. Notepad_Draw 800 600 (with_text (''ab'' @ [NL] @ ''c'') \<lparr>n_buffer = [], n_cursor = 0, scrollY = 0, n_saved = False\<rparr>) = Some calls
    \<and> GRect 68 72 2 10 COLOR_BLACK \<in> set calls"
proof -
  let ?t = "''ab'' @ [NL] @ ''c''"
  have t: "notepad_ok (with_text ?t n) \<and> note_text (with_text ?t n) = ?t" for n by (rule with_text_ok) simp_all
  then have ok: "notepad_ok (with_text ?t n)" and nt: "note_text (with_text ?t n) = ?t" for n by simp_all
  from Notepad_Draw_shows_text [OF ok, of 800 600] show ?thesis unfolding nt by (fastforce simp: last_line_def)
qed

text \<open>C0: \<open>Save\<close> without a mounted file system writes nothing and still marks the text as saved, which the title then says.\<close>

theorem Save_unmounted:
  "Notepad_Save False useEXT2 n = ([], n\<lparr>n_saved := True\<rparr>)"
  by (simp add: Notepad_Save_def)

end
