(* ===== verification/Kernel.thy ===== *)
theory Kernel
  imports Paging Interrupts Memory
begin

text \<open>
  The start of the kernel, src/kernel.cpp: \<open>kernel_main\<close> composes the heap, the descriptor tables, the
  pages, the console, the mouse, the file system and the desktop. What the linker, the boot loader and
  the hardware decide (addresses of symbols, the multiboot record, the contents of memory never written,
  the sizes of two objects) is the record \<open>platform\<close>.
\<close>

section \<open>Programs that return\<close>

text \<open>A step that does not fault and establishes \<open>P\<close>, and the rule for a sequence of steps.\<close>

definition returns :: "'a option \<Rightarrow> ('a \<Rightarrow> bool) \<Rightarrow> bool" where
  "returns m P \<longleftrightarrow> (\<exists>x. m = Some x \<and> P x)"

lemma returnsI: "m = Some x \<Longrightarrow> P x \<Longrightarrow> returns m P"
  by (simp add: returns_def)

lemma returns_bind: "returns m Q \<Longrightarrow> (\<And>x. Q x \<Longrightarrow> returns (f x) P) \<Longrightarrow> returns (m \<bind> f) P"
  by (auto simp: returns_def)

lemma returns_bind2:
  "returns m (\<lambda>r. Q (snd r)) \<Longrightarrow> (\<And>a x. Q x \<Longrightarrow> returns (f (a, x)) P) \<Longrightarrow> returns (m \<bind> f) P"
  by (auto simp: returns_def)

lemma returns_mono: "returns m Q \<Longrightarrow> (\<And>x. Q x \<Longrightarrow> P x) \<Longrightarrow> returns m P"
  by (auto simp: returns_def)

section \<open>The start of the kernel\<close>

record multiboot =
  framebuffer_addr :: "64 word"
  framebuffer_pitch :: u32
  framebuffer_width :: u32
  framebuffer_height :: u32

text \<open>Memory as the processor sees it once paging is on. The tables live in what \<open>kmalloc\<close> has handed out so far; the
  rest of the memory is as the loader left it. An address on a page that is not present gives no value: a page fault.\<close>

definition phys_byte :: "paging \<Rightarrow> memory \<Rightarrow> u32 \<Rightarrow> u8" where
  "phys_byte p m a = (if heap_start (pheap p) \<le> a \<and> a < heap_curr (pheap p)
     then byte_at (unat (a AND 3)) (pmem p (a AND 0xFFFFFFFC)) else m a)"

definition linear_byte :: "paging \<Rightarrow> memory \<Rightarrow> u32 \<Rightarrow> u8 option" where
  "linear_byte p m v = map_option (phys_byte p m) (page_walk p v)"

definition linear_word :: "paging \<Rightarrow> memory \<Rightarrow> u32 \<Rightarrow> u32 option" where
  "linear_word p m v = do {
     b0 \<leftarrow> linear_byte p m v; b1 \<leftarrow> linear_byte p m (v + 1); b2 \<leftarrow> linear_byte p m (v + 2); b3 \<leftarrow> linear_byte p m (v + 3);
     Some (le32 b0 b1 b2 b3)
   }"

text \<open>\<open>MultibootInfo\<close> has the layout of the boot loader's record: the framebuffer's fields begin at byte 88. It is read
  after \<open>PageTableManager::Init\<close>, through the tables.\<close>

definition multiboot_at :: "paging \<Rightarrow> memory \<Rightarrow> u32 \<Rightarrow> multiboot option" where
  "multiboot_at p m ptr = do {
     lo \<leftarrow> linear_word p m (ptr + 88);
     hi \<leftarrow> linear_word p m (ptr + 92);
     pitch \<leftarrow> linear_word p m (ptr + 96);
     width \<leftarrow> linear_word p m (ptr + 100);
     height \<leftarrow> linear_word p m (ptr + 104);
     Some \<lparr>framebuffer_addr = ucast lo OR push_bit 32 (ucast hi), framebuffer_pitch = pitch,
       framebuffer_width = width, framebuffer_height = height\<rparr>
   }"

text \<open>Every pixel the console addresses, four bytes each from \<open>fb\<close> on, reaches its place in the framebuffer: the tables
  of this kernel map a page to itself or not at all, so that the other case is a page fault.\<close>

definition pixels_mapped :: "paging \<Rightarrow> u32 \<Rightarrow> u32 \<Rightarrow> bool" where
  "pixels_mapped p fb sz \<longleftrightarrow> list_all (\<lambda>i. list_all (\<lambda>b. let a = fb + 4 * of_nat i + b in page_walk p a = Some a) [0, 1, 2, 3])
     [0..<unat sz]"

record platform =
  gdt_address :: u32
  idt_address :: u32
  handlers :: stubs
  object_sizes :: "u32 \<times> u32"
  screen_memory :: "u32 list"
  buffer_memory :: "u32 list"
  title_memory :: "char list"
  window_memory :: terminal
  compile_date :: string
  compile_time :: string

record machine =
  m_gdt :: gdt
  m_cpu :: cpu
  m_idt :: idt
  m_paging :: paging
  m_kernel :: kernel

text \<open>The seven writes that set up COM1.\<close>

definition serial_init :: "io \<Rightarrow> io" where
  "serial_init io =
     WritePort (0x3F8 + 4) 0x0B (WritePort (0x3F8 + 2) 0xC7 (WritePort (0x3F8 + 3) 0x03 (WritePort (0x3F8 + 1) 0x00
       (WritePort (0x3F8 + 0) 0x03 (WritePort (0x3F8 + 3) 0x80 (WritePort (0x3F8 + 1) 0x00 io))))))"

text \<open>\<open>magic\<close> and the other fields of the multiboot record are not looked at; what the memory held is \<open>k_mem\<close>.
  \<open>Console::Init\<close> clears the screen, pixel by pixel, before anything else is drawn, and the tables do not change after it:
  a pixel that is not mapped faults there or nowhere. \<open>Ext4::Init\<close> prints to the console: its lines are what the log
  gained. The endless loop at the end is left to the interrupts, which find the tables in \<open>k_pages\<close>.\<close>

definition kernel_main :: "nat \<Rightarrow> platform \<Rightarrow> u32 \<Rightarrow> u32 \<Rightarrow> machine \<Rightarrow> machine option" where
  "kernel_main n pf magic multiboot_ptr m = do {
     let k = m_kernel m;
     let d = k_desktop k;
     let h = kheap_init 0x00A00000 0x00A00000;
     let g = gdt_init (gdt_address pf + 48);
     let (idt, io) = InterruptManager_init (handlers pf) g (m_idt m) (dt_io d);
     let p = PageTableManager_Init ((m_paging m)\<lparr>pheap := h\<rparr>);
     mbi \<leftarrow> multiboot_at p (k_mem k) multiboot_ptr;
     let fb_phys = ucast (framebuffer_addr mbi);
     let fb_size = framebuffer_height mbi * framebuffer_pitch mbi;
     p \<leftarrow> map_framebuffer n fb_phys fb_size 0 p;
     c \<leftarrow> (if pixels_mapped p fb_phys (framebuffer_width mbi * framebuffer_height mbi)
          then Console_Init (screen_memory pf) (framebuffer_width mbi) (framebuffer_height mbi) (dt_con d) else None);
     let io = serial_init io;
     c \<leftarrow> Console_Print (''System Graphics Initialized.'' @ [NL]) c;
     c \<leftarrow> Console_Print (''Loading Modules...'' @ [NL]) c;
     io \<leftarrow> Mouse_Init io;
     c \<leftarrow> Console_Print (''[Kernel] Mouse Initialized.'' @ [NL]) c;
     f \<leftarrow> ext4_Init ((dt_fs d)\<lparr>e_heap := pheap p\<rparr>);
     c \<leftarrow> Console_Print (concat (drop (length (e_log (dt_fs d))) (e_log f))) c;
     d \<leftarrow> Desktop_Init (object_sizes pf) (buffer_memory pf) (title_memory pf) (window_memory pf)
            (compile_date pf) (compile_time pf) (d\<lparr>dt_con := c, dt_io := io, dt_fs := f\<rparr>);
     Some \<lparr>m_gdt = g, m_cpu = Activate (idt_load (idt_address pf) (gdt_load (gdt_address pf) g (m_cpu m))), m_idt = idt,
       m_paging = p\<lparr>pheap := e_heap (dt_fs d)\<rparr>, m_kernel = k\<lparr>k_desktop := d, k_pages := page_walk p\<rparr>\<rparr>
   }"

text \<open>The static variables as the loader leaves them, paging off; \<open>dsk\<close> is the disk, \<open>as\<close> what the ports will answer.\<close>

definition static_console :: console where
  "static_console = \<lparr>framebuffer = [], back_buf = NullBuffer, screen_width = 0, screen_height = 0, cursor_x = 0,
     cursor_y = 0, mouse_backbuffer = replicate 216 0, prev_mouse_x = -1, prev_mouse_y = -1\<rparr>"

definition static_ext4 :: "drive \<Rightarrow> ext4" where
  "static_ext4 dsk = \<lparr>e_disk = dsk, e_heap = \<lparr>heap_start = 0, heap_curr = 0, heap_end = 0\<rparr>, e_block_size = 0, e_sb = None,
     e_bgd = \<lparr>block_bitmap = 0, inode_bitmap = 0, inode_table = 0\<rparr>, e_vfs = [], e_log = []\<rparr>"

definition static_desktop :: "drive \<Rightarrow> u16 list \<Rightarrow> desktop" where
  "static_desktop dsk as = \<lparr>objects = [], windows = [], active_window = None, dt_mouse_x = 400, dt_mouse_y = 300,
     show_start_menu = False, drag_window = None, drag_offset_x = 0, drag_offset_y = 0, ctrl_pressed = False,
     dt_con = static_console, dt_io = \<lparr>answers = as, events = []\<rparr>, dt_fs = static_ext4 dsk, dt_cmds = []\<rparr>"

definition static_kernel :: "drive \<Rightarrow> u16 list \<Rightarrow> (u32 \<Rightarrow> u8) \<Rightarrow> kernel" where
  "static_kernel dsk as mem = \<lparr>k_desktop = static_desktop dsk as, k_mouse = mouse_start, lastKey = NUL,
     user_heap_end = 0x00800000, k_mem = mem, k_pages = Some\<rparr>"

definition loaded :: "machine \<Rightarrow> drive \<Rightarrow> u16 list \<Rightarrow> bool" where
  "loaded m dsk as \<longleftrightarrow> length (m_idt m) = 256 \<and> (\<exists>mem. m_kernel m = static_kernel dsk as mem)"

section \<open>What each step leaves for the next\<close>

text \<open>The heap after mapping the framebuffer: at most one table per page.\<close>

lemma map_framebuffer_heap:
  assumes "tables_ok s" and "unat (heap_curr (pheap s)) mod 4096 = 0"
    and "unat (heap_curr (pheap s)) + 4096 * n < unat (heap_end (pheap s))"
    and "map_framebuffer (Suc n) fb_phys fb_size o1 s = Some s'"
  shows "unat (heap_curr (pheap s)) \<le> unat (heap_curr (pheap s'))
    \<and> unat (heap_curr (pheap s')) \<le> unat (heap_curr (pheap s)) + 4096 * n \<and> heap_end (pheap s') = heap_end (pheap s)"
  using assms
proof (induction n arbitrary: o1 s)
  case 0
  then show ?case by (auto split: if_splits)
next
  case (Suc n)
  show ?case
  proof (cases "o1 < fb_size")
    case False
    then show ?thesis using Suc.prems(4) by simp
  next
    case True
    define s1 where "s1 = MapMemory (fb_phys + o1) (fb_phys + o1) s"
    have rm: "unat (heap_curr (pheap s)) + 4096 < unat (heap_end (pheap s))" using Suc.prems(3) by simp
    note st = MapMemory_step [OF Suc.prems(1), of "fb_phys + o1" "fb_phys + o1", folded s1_def]
    have c1: "tables_ok s1" "unat (heap_curr (pheap s1)) \<in> {unat (heap_curr (pheap s)), unat (heap_curr (pheap s)) + 4096}"
      "heap_end (pheap s1) = heap_end (pheap s)"
      using st Suc.prems(2) rm by blast+
    have "unat (heap_curr (pheap s1)) mod 4096 = 0"
      "unat (heap_curr (pheap s1)) + 4096 * n < unat (heap_end (pheap s1))"
      using c1 Suc.prems(2,3) by auto
    moreover have "map_framebuffer (Suc n) fb_phys fb_size (o1 + 4096) s1 = Some s'"
      using Suc.prems(4) True by (simp add: s1_def)
    ultimately show ?thesis using Suc.IH [OF c1(1)] c1(2,3) by fastforce
  qed
qed

text \<open>A buffer switched off stays off, and the visible one keeps its pixels while another is drawn into.\<close>

definition same_buffer :: "console \<Rightarrow> console \<Rightarrow> bool" where
  "same_buffer c d \<longleftrightarrow> (back_buf d = Front \<longleftrightarrow> back_buf c = Front)"

lemma same_buffer_refl [simp]: "same_buffer c c"
  by (simp add: same_buffer_def)

lemma same_buffer_trans: "same_buffer c d \<Longrightarrow> same_buffer d e \<Longrightarrow> same_buffer c e"
  by (simp add: same_buffer_def)

lemma store_pixel_buffer: "store_pixel i col c = Some d \<Longrightarrow> same_buffer c d"
  by (cases "back_buf c") (auto simp: store_pixel_def same_buffer_def set_draw_buffer_def bind_eq_Some_conv)

lemma PutPixel_buffer: "PutPixel x y col c = Some d \<Longrightarrow> same_buffer c d"
  by (auto simp: PutPixel_def store_pixel_buffer split: if_splits)

lemma for_loop_buffer:
  assumes "\<And>i c d. body i c = Some d \<Longrightarrow> same_buffer c d"
  shows "for_loop n body c = Some e \<Longrightarrow> same_buffer c e"
proof (induction n arbitrary: e)
  case (Suc n)
  then obtain d where "for_loop n body c = Some d" "body n d = Some e" by (auto simp: bind_eq_Some_conv)
  then show ?case using Suc.IH assms same_buffer_trans by blast
qed simp

lemma Console_PutChar_buffer: "Console_PutChar ch col x y c = Some d \<Longrightarrow> same_buffer c d"
  by (auto simp: Console_PutChar_def Let_def bind_eq_Some_conv PutPixel_buffer split: if_splits
      elim!: for_loop_buffer [rotated])

lemma print_char_buffer:
  assumes "print_char ch c = Some d"
  shows "same_buffer c d"
proof -
  consider "ch = NL" | "ch = CHR 0x08" | "ch \<noteq> NL" "ch \<noteq> CHR 0x08" by blast
  then show ?thesis
  proof cases
    case 1
    then show ?thesis using assms by (auto simp: print_char_def print_newline_def same_buffer_def)
  next
    case 2
    define c1 where "c1 = (if 8 \<le> cursor_x c then c\<lparr>cursor_x := cursor_x c - 8\<rparr> else c)"
    have "same_buffer c1 d"
      using assms 2 by (auto simp: print_char_def c1_def [symmetric] Let_def PutPixel_buffer elim!: for_loop_buffer [rotated])
    moreover have "same_buffer c c1" by (simp add: c1_def same_buffer_def)
    ultimately show ?thesis by (rule same_buffer_trans [rotated])
  next
    case 3
    then obtain c1 where "Console_PutChar ch 0xFFFFFF (cursor_x c) (cursor_y c) c = Some c1"
        "back_buf d = back_buf c1"
      using assms by (auto simp: print_char_def bind_eq_Some_conv print_newline_def Let_def split: if_splits)
    then show ?thesis using Console_PutChar_buffer by (auto simp: same_buffer_def)
  qed
qed

lemma Console_Print_buffer: "Console_Print s c = Some d \<Longrightarrow> same_buffer c d"
proof (induction s arbitrary: c)
  case (Cons ch s)
  then obtain e where "print_char ch c = Some e" "Console_Print s e = Some d" by (auto simp: bind_eq_Some_conv)
  then show ?case using Cons.IH print_char_buffer same_buffer_trans by blast
qed simp

text \<open>The console while the kernel starts: drawing on the visible buffer, the text cursor not below row \<open>y\<close>.\<close>

definition boot_console :: "u32 \<Rightarrow> u32 \<Rightarrow> int \<Rightarrow> console \<Rightarrow> bool" where
  "boot_console w h y c \<longleftrightarrow> con_ok c \<and> back_buf c = Front \<and> screen_width c = w \<and> screen_height c = h
     \<and> uint (cursor_x c) < uint w \<and> uint (cursor_y c) \<le> y"

definition screen_fits :: "u32 \<Rightarrow> u32 \<Rightarrow> nat \<Rightarrow> bool" where
  "screen_fits w h n \<longleftrightarrow> 0 < uint w \<and> uint w < 2 ^ 30 \<and> uint h < 2 ^ 30 \<and> uint w * uint h < 2 ^ 30
     \<and> uint w * uint h \<le> int n"

lemma Console_Init_boot:
  assumes "screen_fits w h (length fb)" and "length (mouse_backbuffer c) = 216"
  shows "returns (Console_Init fb w h c) (boot_console w h 0)"
proof -
  let ?c = "c\<lparr>framebuffer := fb, screen_width := w, screen_height := h, back_buf := Front\<rparr>"
  have "con_ok ?c" using assms by (simp add: con_ok_def draw_buffer_def screen_fits_def)
  from Clear_spec [OF this, of "0x000080"] obtain d where d: "Console_Clear 0x000080 ?c = Some d"
    "cursor_x d = 0" "cursor_y d = 0" "drawn (?c\<lparr>cursor_x := 0, cursor_y := 0\<rparr>) d" by blast
  then show ?thesis using assms(1)
    by (auto simp: Console_Init_def returns_def boot_console_def drawn_def screen_fits_def)
qed

lemma Console_Print_boot:
  assumes "boot_console w h y c" and "y + 10 * int (length s) < 2 ^ 29"
  shows "returns (Console_Print s c) (boot_console w h (y + 10 * int (length s)))"
proof -
  obtain d where "Console_Print s c = Some d" "con_ok d" "uint (cursor_x d) < uint (screen_width c)"
    "screen_width d = screen_width c" "screen_height d = screen_height c"
    "uint (cursor_y d) \<le> uint (cursor_y c) + 10 * int (length s)"
    using Print_spec [of c s] assms by (auto simp: boot_console_def)
  then show ?thesis using Console_Print_buffer [of s c d] assms(1)
    by (auto simp: returns_def boot_console_def same_buffer_def)
qed

text \<open>The fourteen answers of a mouse controller that is always ready: the three that are data may be anything.\<close>

definition status_ready :: "u16 \<Rightarrow> bool" where
  "status_ready a \<longleftrightarrow> bit a 0 \<and> \<not> bit a 1"

definition controller_ready :: "u16 list \<Rightarrow> bool" where
  "controller_ready as \<longleftrightarrow> length as = 14 \<and> list_all (\<lambda>i. i \<in> {3, 9, 13} \<or> status_ready (as ! i)) [0..<14]"

lemma wait_ready:
  assumes "status_ready a" and "answers io = a # as"
  shows "returns (Mouse_WaitWrite io) (\<lambda>io'. answers io' = as)" "returns (Mouse_WaitRead io) (\<lambda>io'. answers io' = as)"
proof -
  have w: "100000 = Suc 99999" by simp
  have two: "(2 :: u8) = push_bit 1 1" by simp
  have "(ucast a :: u8) AND 2 = 0" "(ucast a :: u8) AND 1 = 1"
    using assms(1) unfolding two by (auto intro!: bit_word_eqI simp: status_ready_def bit_simps bit_1_iff)
  then have "returns (wait_write (Suc n) io) (\<lambda>io'. answers io' = as)" "returns (wait_read (Suc n) io) (\<lambda>io'. answers io' = as)" for n
    using assms(2) by (simp_all add: returns_def ReadPort_def)
  then show "returns (Mouse_WaitWrite io) (\<lambda>io'. answers io' = as)" "returns (Mouse_WaitRead io) (\<lambda>io'. answers io' = as)"
    unfolding Mouse_WaitWrite_def Mouse_WaitRead_def w by blast+
qed

lemma Mouse_Write_ready:
  assumes "status_ready a" "status_ready b" and "answers io = a # b # as"
  shows "returns (Mouse_Write v io) (\<lambda>io'. answers io' = as)"
  unfolding Mouse_Write_def
  by (rule returns_bind, rule wait_ready(1) [OF assms(1,3)], rule returns_bind, rule wait_ready(1) [OF assms(2)])
    (auto simp: WritePort_def returns_def)

lemma Mouse_Read_ready:
  assumes "status_ready a" and "answers io = a # v # as"
  shows "returns (Mouse_Read io) (\<lambda>r. answers (snd r) = as)"
  unfolding Mouse_Read_def
  by (rule returns_bind, rule wait_ready(2) [OF assms]) (auto simp: ReadPort_def returns_def)

lemma Mouse_Init_ready:
  assumes "controller_ready as" and "answers io = as @ rest"
  shows "returns (Mouse_Init io) (\<lambda>io'. answers io' = rest)"
proof -
  obtain s0 s1 s2 d0 s3 s4 s5 s6 s7 d1 s8 s9 s10 d2 where
    as: "as = [s0, s1, s2, d0, s3, s4, s5, s6, s7, d1, s8, s9, s10, d2]"
    using assms(1) by (auto simp: controller_ready_def numeral_eq_Suc length_Suc_conv)
  have r: "status_ready s0" "status_ready s1" "status_ready s2" "status_ready s3" "status_ready s4" "status_ready s5"
    "status_ready s6" "status_ready s7" "status_ready s8" "status_ready s9" "status_ready s10"
    using assms(1) by (simp_all add: controller_ready_def as upt_conv_Cons)
  have p [simp]: "answers (WritePort q v io) = answers io" for q v io by (simp add: WritePort_def)
  have d: "returns (ReadPort q io) (\<lambda>r. answers (snd r) = vs)" if "answers io = v # vs" for q io v vs
    using that by (simp add: ReadPort_def returns_def)
  have w: "returns (Mouse_WaitWrite io \<bind> f) P"
    if "status_ready a" "answers io = a # vs" "\<And>io. answers io = vs \<Longrightarrow> returns (f io) P" for a vs io P and f :: "io \<Rightarrow> io option"
    using that by (blast intro: returns_bind wait_ready)
  have rd: "returns (Mouse_WaitRead io \<bind> f) P"
    if "status_ready a" "answers io = a # vs" "\<And>io. answers io = vs \<Longrightarrow> returns (f io) P" for a vs io P and f :: "io \<Rightarrow> io option"
    using that by (blast intro: returns_bind wait_ready)
  have wr: "returns (Mouse_Write v io \<bind> f) P"
    if "status_ready a" "status_ready b" "answers io = a # b # vs" "\<And>io. answers io = vs \<Longrightarrow> returns (f io) P"
    for a b v vs io P and f :: "io \<Rightarrow> io option"
    using that by (blast intro: returns_bind Mouse_Write_ready)
  have mr: "returns (Mouse_Read io \<bind> f) P"
    if "status_ready a" "answers io = a # v # vs" "\<And>b io. answers io = vs \<Longrightarrow> returns (f (b, io)) P"
    for a v vs io P and f :: "u8 \<times> io \<Rightarrow> io option"
    by (rule returns_bind2 [where Q = "\<lambda>io. answers io = vs", OF Mouse_Read_ready [OF that(1,2)]]) (rule that(3))
  have dr: "returns (ReadPort q io \<bind> f) P"
    if "answers io = v # vs" "\<And>b io. answers io = vs \<Longrightarrow> returns (f (b, io)) P"
    for q v vs io P and f :: "u8 \<times> io \<Rightarrow> io option"
    by (rule returns_bind2 [where Q = "\<lambda>io. answers io = vs", OF d [OF that(1)]]) (rule that(2))
  have io: "answers io = s0 # s1 # s2 # d0 # s3 # s4 # s5 # s6 # s7 # d1 # s8 # s9 # s10 # d2 # rest"
    using assms(2) as by simp
  show ?thesis
    unfolding Mouse_Init_def Let_def
    apply (rule w [OF r(1) io])
    apply (rule w [OF r(2)], simp)
    apply (rule rd [OF r(3)], simp)
    apply (rule dr, simp)
    apply (simp only: prod.case)
    apply (rule w [OF r(4)], simp)
    apply (rule w [OF r(5)], simp)
    apply (rule wr [OF r(6,7)], simp)
    apply (rule mr [OF r(8)], simp)
    apply (simp only: prod.case)
    apply (rule wr [OF r(9,10)], simp)
    apply (rule mr [OF r(11)], simp)
    apply (simp add: returns_def)
    done
qed

text \<open>The file system: a foreign disk leaves it unmounted; a volume with blocks of 1, 2 or 4 KB is mounted.\<close>

definition disk_superblock :: "drive \<Rightarrow> ext4_superblock option" where
  "disk_superblock dsk = superblock_at (disk_read 2 dsk @ disk_read 3 dsk)"

lemma word_at_in: "i + 4 \<le> length m \<Longrightarrow> \<exists>w. word_at i m = Some w" and half_at_in: "i + 2 \<le> length m \<Longrightarrow> \<exists>w. half_at i m = Some w"
  by (auto simp: word_at_def half_at_def)

lemma group_desc_in: "12 \<le> length m \<Longrightarrow> \<exists>g. group_desc_at m = Some g"
  using word_at_in [of 0 m] word_at_in [of 4 m] word_at_in [of 8 m] by (auto simp: group_desc_at_def)

lemma ReadFSBlock_length:
  "drive_ok (e_disk s) \<Longrightarrow> length (ReadFSBlock s b) = unat (e_block_size s div 512) * 512"
  by (simp add: ReadFSBlock_def length_concat o_def sum_list_triv Let_def)

lemma ext4_Init_boot:
  assumes "drive_ok (e_disk s)" and "disk_superblock (e_disk s) = Some sb"
    and "sb_magic sb = 0xEF53 \<Longrightarrow> log_block_size sb \<le> 2" and "heap_room (e_heap s) (4099 + n)" and "e_log s = []"
  shows "returns (ext4_Init s) (\<lambda>t. heap_room (e_heap t) n \<and> length (concat (e_log t)) \<le> 100
    \<and> e_vfs t = e_vfs s \<and> e_disk t = e_disk s \<and> (e_sb t \<noteq> e_sb s \<longrightarrow> e_sb t = Some sb \<and> sb_magic sb = 0xEF53))"
proof (cases "sb_magic sb = 0xEF53")
  case False
  have "heap_room (e_heap s) n" using assms(4) by (simp add: heap_room_def)
  with False show ?thesis
    using assms(2,5) by (simp add: ext4_Init_def disk_superblock_def returns_def ext4_print_def)
next
  case True
  define bs :: u32 where "bs = push_bit (unat (log_block_size sb)) 1024"
  have l: "log_block_size sb \<in> {0, 1, 2}" using assms(3) [OF True] by (auto simp: u32_le_nat word_unat_eq_iff)
  then have bs: "block_size_of (log_block_size sb) = Some bs" "unat bs \<le> 4096" "2 \<le> unat (bs div 512)"
    by (auto simp: block_size_of_def bs_def)
  define s3 where "s3 = (ext4_print ((if bs = 1024 then ''[Ext4] Block Size: 1024''
          else if bs = 4096 then ''[Ext4] Block Size: 4096'' else ''[Ext4] Block Size: Unknown'') @ [NL])
     ((ext4_print (''[Ext4] Magic: OK (EF53)'' @ [NL]) s)\<lparr>e_sb := Some sb, e_block_size := bs\<rparr>))"
  have s3: "e_heap s3 = e_heap s" "e_disk s3 = e_disk s" "e_block_size s3 = bs" "e_vfs s3 = e_vfs s" "e_sb s3 = Some sb"
    "length (concat (e_log s3)) \<le> 60"
    using assms(5) by (simp_all add: s3_def ext4_print_def)
  have "heap_room (e_heap s3) (unat bs + 3 + n)"
    using assms(4) bs(2) s3(1) by (simp add: heap_room_def)
  from ext4_alloc_room [OF this] obtain h where h: "ext4_alloc bs s3 = Some (s3\<lparr>e_heap := h\<rparr>)" "heap_room h n" by blast
  have "12 \<le> length (ReadFSBlock (s3\<lparr>e_heap := h\<rparr>) b)" for b
    using ReadFSBlock_length [of s3 b] bs(3) s3 assms(1) by simp
  from group_desc_in [OF this] obtain g where
    g: "group_desc_at (ReadFSBlock (s3\<lparr>e_heap := h\<rparr>) (if bs = 1024 then 2 else 1)) = Some g" by blast
  have "ext4_Init s = Some (ext4_print (''[Ext4] Init Complete.'' @ [NL]) (s3\<lparr>e_bgd := g, e_heap := kfree 0 h\<rparr>))"
    using True assms(2) bs(1) h(1) g by (simp add: ext4_Init_def disk_superblock_def Let_def s3_def)
  then show ?thesis
    using h(2) s3 True by (simp add: returns_def ext4_print_def kfree_def)
qed

text \<open>The desktop, the window on it and the window's terminal.\<close>

lemma new_terminal_window_returns:
  assumes h: "length (history raw) = 10"
  shows "returns (new_terminal_window raw f io date time) (\<lambda>s. sh_fs s = f \<and> sh_io s = io \<and> cmds s = init_commands
    \<and> term_ok (sh_tm s) \<and> mode (sh_tm s) = SHELL \<and> line_ok (sh_tm s) \<and> line_text (sh_tm s) = []
    \<and> history_text (sh_tm s) = [] \<and> cwd s = ''/'')"
proof -
  have e: "SetEnv ''PS1'' default_ps1 [] = Some [(''PS1'', default_ps1)]"
    by (simp add: SetEnv_def env_scan_def default_ps1_def )
  define t0 where "t0 = Clear ((member_defaults raw)\<lparr>mode := SHELL, active_editor := False\<rparr>)"
  have "term_ok t0" by (simp add: t0_def Clear_def term_ok_def)
  from Print_safe [OF this, of "''Antigravity OS v1.1 [Disk Mounted]'' @ [NL]"] obtain t1 where
    t1: "TW_Print (''Antigravity OS v1.1 [Disk Mounted]'' @ [NL]) t0 = Some t1" "term_ok t1" "same_input t0 t1" by blast
  from Print_safe [OF t1(2), of "''root@fs:~$ ''"] obtain t2 where
    t2: "TW_Print ''root@fs:~$ '' t1 = Some t2" "term_ok t2" "same_input t1 t2" by blast
  have t0: "mode t0 = SHELL" "history_count t0 = 0" "history_idx t0 = 0" "length (history t0) = 10" using h by (simp_all add: t0_def Clear_def member_defaults_def)
  define t3 where "t3 = t2\<lparr>input_len := 0, input_cursor := 0, input := replicate 128 NUL\<rparr>"
  have p: "TW_Prompt t1 = Some t3" using t2(1) by (simp add: TW_Prompt_def t3_def del: TW_Print.simps)
  have t3: "term_ok t3" "mode t3 = SHELL" "line_ok t3" "line_text t3 = []" "history_text t3 = []"
    using t2(2,3) t1(3) t0
    by (simp_all add: t3_def term_ok_def same_input_def line_text_def line_ok_def history_text_def c_string_def)
  show ?thesis
    using e init_registry(1) t1(1) p t3
    by (simp add: new_terminal_window_def new_shell_def Sh_SetEnv_def on_tm_def Sh_Print_def returns_def
        t0_def [symmetric] del: TW_Print.simps)
qed

definition fresh_terminal :: "window \<Rightarrow> bool" where
  "fresh_terminal w \<longleftrightarrow> (win_x w, win_y w, win_width w, win_height w) = (150, 100, 400, 300)
     \<and> (\<exists>s. win_shell w = Some s \<and> mode (sh_tm s) = SHELL \<and> line_ok (sh_tm s) \<and> line_text (sh_tm s) = []
          \<and> history_text (sh_tm s) = [] \<and> cwd s = ''/'')"

lemma InitDoubleBuffer_room:
  assumes "boot_console w h y c" and "uint w * uint h \<le> int (length raw)" and "heap_room hp (4 * (unat w * unat h) + 3 + n)"
  shows "\<exists>c' hp'. InitDoubleBuffer raw hp c = (c', hp') \<and> con_ok c' \<and> unat (screen_size c') \<le> length (framebuffer c') \<and> heap_room hp' n"
proof -
  have ok: "con_ok c" "back_buf c = Front" "screen_width c = w" "screen_height c = h"
    using assms(1) by (simp_all add: boot_console_def)
  have wh: "uint w * uint h < 2 ^ 30" using ok by (simp add: con_ok_def)
  have u: "uint w * uint h = int (unat w * unat h)" by (simp only: uint_nat of_nat_mult)
  have n: "unat w * unat h < 2 ^ 30" using wh unfolding u by (simp del: of_nat_mult)
  have s: "unat (w * h) = unat w * unat h" using n by (simp add: unat_word_ariths)
  have b: "unat (w * h * 4) = 4 * (unat w * unat h)" 
  proof -
    define a where "a = unat w * unat h"
    have "unat (w * h * 4) = unat (w * h) * 4 mod 2 ^ 32" by (simp add: unat_word_ariths(2) [of "w * h"])
    then show ?thesis using n unfolding s a_def [symmetric] by simp
  qed
  have "heap_room hp (unat (w * h * 4) + 3 + n)" using assms(3) b by simp
  from kmalloc_room [OF this] obtain p hp' where p: "kmalloc (w * h * 4) hp = (p, hp')" "p \<noteq> 0" "heap_room hp' n" by blast
  define c' where "c' = c\<lparr>back_buf := Hidden (take (unat (w * h * 4) div 4) raw)\<rparr>"
  have i: "InitDoubleBuffer raw hp c = (c', hp')"
    using p(1,2) ok by (simp add: InitDoubleBuffer_def c'_def Let_def)
  have raw: "unat w * unat h \<le> length raw"
    using assms(2) unfolding u by linarith
  have "con_ok c'"
    using ok(1) raw assms(2) b ok(3,4) by (simp add: con_ok_def c'_def draw_buffer_def)
  moreover have "unat (screen_size c') \<le> length (framebuffer c')"
  proof -
    have "int (unat w * unat h) \<le> int (length (framebuffer c))"
      using ok unfolding con_ok_def draw_buffer_def u [symmetric] by auto
    then have "unat w * unat h \<le> length (framebuffer c)" by (simp only: of_nat_le_iff)
    then show ?thesis using ok(3,4) s by (simp add: c'_def screen_size_def)
  qed
  ultimately show ?thesis using i p(3) by blast
qed

lemma RTC_Read_rest: "RTC_Read reg io = Some (v, io') \<Longrightarrow> answers io' = drop 1 (answers io)"
  by (auto simp: RTC_Read_def ReadPort_def WritePort_def split: list.splits)

lemma Draw_answers: "Desktop_Draw d = Some e \<Longrightarrow> answers (dt_io e) = drop 2 (answers (dt_io d))"
  by (auto simp: Desktop_Draw_def RTC_GetHour_def RTC_GetMinute_def bind_eq_Some_conv numeral_2_eq_2 drop_Suc dest!: RTC_Read_rest)

lemma Desktop_Init_boot:
  assumes c: "boot_console w h y (dt_con d)" and raw: "uint w * uint h \<le> int (length raw_buffer)" "length raw_title = 32"
    and room: "heap_room (e_heap (dt_fs d)) (4 * (unat w * unat h) + unat (fst sizes) + unat (snd sizes) + 9 + n)"
    and ticks: "2 \<le> length (answers (dt_io d))" and hist: "length (history raw_terminal) = 10"
    and d: "objects d = []" "dt_mouse_x d = 400" "dt_mouse_y d = 300" "drag_window d = None" "drag_offset_x d = 0" "drag_offset_y d = 0"
  shows "returns (Desktop_Init sizes raw_buffer raw_title raw_terminal date time d)
    (\<lambda>e. desktop_ok e \<and> windows e = [0] \<and> active_window e = Some 0 \<and> list_all fresh_terminal (objects e) \<and> dt_cmds e = init_commands
       \<and> dt_mouse_x e = 400 \<and> dt_mouse_y e = 300 \<and> answers (dt_io e) = drop 2 (answers (dt_io d))
       \<and> heap_room (e_heap (dt_fs e)) n)"
proof -
  have "heap_room (e_heap (dt_fs d)) (4 * (unat w * unat h) + 3 + (unat (fst sizes) + 3 + (unat (snd sizes) + 3 + n)))"
    using room by (simp add: add_ac)
  from InitDoubleBuffer_room [OF c raw(1) this] obtain c' hp where
    b: "InitDoubleBuffer raw_buffer (e_heap (dt_fs d)) (dt_con d) = (c', hp)" "con_ok c'"
       "unat (screen_size c') \<le> length (framebuffer c')" "heap_room hp (unat (fst sizes) + 3 + (unat (snd sizes) + 3 + n))" by blast
  have "heap_room (e_heap ((dt_fs d)\<lparr>e_heap := hp\<rparr>)) (unat (fst sizes) + 3 + (unat (snd sizes) + 3 + n))" using b(4) by simp
  from ext4_alloc_room [OF this] obtain h1 where
    h1: "ext4_alloc (fst sizes) ((dt_fs d)\<lparr>e_heap := hp\<rparr>) = Some ((dt_fs d)\<lparr>e_heap := h1\<rparr>)" "heap_room h1 (unat (snd sizes) + 3 + n)" by auto
  have "heap_room (e_heap ((dt_fs d)\<lparr>e_heap := h1\<rparr>)) (unat (snd sizes) + 3 + n)" using h1(2) by simp
  from ext4_alloc_room [OF this] obtain h2 where
    h2: "ext4_alloc (snd sizes) ((dt_fs d)\<lparr>e_heap := h1\<rparr>) = Some ((dt_fs d)\<lparr>e_heap := h2\<rparr>)" "heap_room h2 n" by auto
  from new_terminal_window_returns [OF hist, of "(dt_fs d)\<lparr>e_heap := h2\<rparr>" "dt_io d" date time] obtain s where
    s: "new_terminal_window raw_terminal ((dt_fs d)\<lparr>e_heap := h2\<rparr>) (dt_io d) date time = Some s"
       "sh_fs s = (dt_fs d)\<lparr>e_heap := h2\<rparr>" "sh_io s = dt_io d" "cmds s = init_commands" "term_ok (sh_tm s)"
       "mode (sh_tm s) = SHELL" "line_ok (sh_tm s)" "line_text (sh_tm s) = []" "history_text (sh_tm s) = []" "cwd s = ''/''"
    unfolding returns_def by blast
  define wn where "wn = (new_window raw_title 150 100 400 300 ''Terminal'')\<lparr>win_shell := Some s\<rparr>"
  have wn: "window_ok wn" "fresh_terminal wn"
    using s(5-10) raw(2) by (simp_all add: wn_def window_ok_def new_window_def window_near_def init_title_def fresh_terminal_def)
  define e0 where "e0 = AddWindow 0 (d\<lparr>dt_con := c', windows := [], active_window := None,
    objects := [wn], dt_fs := sh_fs s, dt_io := sh_io s, dt_cmds := cmds s\<rparr>)"
  have e0: "desktop_ok e0" "windows e0 = [0]" "active_window e0 = Some 0" "objects e0 = [wn]" "dt_cmds e0 = init_commands"
    "dt_mouse_x e0 = 400" "dt_mouse_y e0 = 300" "ticks e0 = length (answers (dt_io d))" "dt_fs e0 = (dt_fs d)\<lparr>e_heap := h2\<rparr>"
    using b(2,3) wn(1) s(2-4) d by (simp_all add: e0_def AddWindow_def desktop_ok_def ticks_def)
  from Draw_ok [OF e0(1)] ticks e0(8) obtain e where
    e: "Desktop_Draw e0 = Some e" "desktop_ok e" "same_desktop e0 e" by auto
  have "dt_io e0 = dt_io d" using s(3) by (simp add: e0_def AddWindow_def)
  then have a: "answers (dt_io e) = drop 2 (answers (dt_io d))" using Draw_answers [OF e(1)] by simp
  have "Desktop_Init sizes raw_buffer raw_title raw_terminal date time d = Some e"
    using b(1) h1(1) h2(1) s(1) e(1) d(1) by (simp add: Desktop_Init_def Let_def e0_def wn_def)
  then show ?thesis
    using e(2) a same_desktop_fields [OF e(3)] e0 wn(2) h2(2) by (simp add: returns_def)
qed

section \<open>The whole start\<close>

definition fb_phys :: "multiboot \<Rightarrow> u32" where
  "fb_phys mbi = ucast (framebuffer_addr mbi)"

definition fb_bytes :: "multiboot \<Rightarrow> u32" where
  "fb_bytes mbi = framebuffer_height mbi * framebuffer_pitch mbi"

definition fb_pages :: "multiboot \<Rightarrow> nat" where
  "fb_pages mbi = (unat (fb_bytes mbi) + 4095) div 4096"

text \<open>The screen and the two objects fit: into the memory behind the addresses and into what 33 double pages
  leave of the ten megabytes of heap. The framebuffer is a memory of its own, beyond the 128 MB the kernel maps.\<close>

definition platform_fits :: "platform \<Rightarrow> multiboot \<Rightarrow> bool" where
  "platform_fits pf mbi \<longleftrightarrow> page_aligned (fb_phys mbi) \<and> 128 * 1024 * 1024 \<le> unat (fb_phys mbi)
     \<and> unat (framebuffer_height mbi) * unat (framebuffer_pitch mbi) \<le> 2 ^ 32 - 4096
     \<and> unat (fb_phys mbi) + unat (fb_bytes mbi) \<le> 2 ^ 32
     \<and> screen_fits (framebuffer_width mbi) (framebuffer_height mbi) (length (screen_memory pf))
     \<and> uint (framebuffer_width mbi) * uint (framebuffer_height mbi) \<le> int (length (buffer_memory pf))
     \<and> length (title_memory pf) = 32 \<and> length (history (window_memory pf)) = 10
     \<and> 4096 * fb_pages mbi + 4 * (unat (framebuffer_width mbi) * unat (framebuffer_height mbi))
        + unat (fst (object_sizes pf)) + unat (snd (object_sizes pf)) + 4108 < 0x9BE000"

text \<open>And a pixel takes four bytes: the rows of the mode are at least that long.\<close>

definition platform_ok :: "platform \<Rightarrow> multiboot \<Rightarrow> bool" where
  "platform_ok pf mbi \<longleftrightarrow> platform_fits pf mbi \<and> 4 * unat (framebuffer_width mbi) \<le> unat (framebuffer_pitch mbi)"

text \<open>Where the boot loader may leave its record: in the memory the kernel maps, and not where its heap will be.\<close>

definition record_in_reach :: "u32 \<Rightarrow> bool" where
  "record_in_reach ptr \<longleftrightarrow> unat ptr + 108 \<le> 0xA00000 \<or> 0x1400000 \<le> unat ptr \<and> unat ptr + 108 \<le> 128 * 1024 * 1024"

text \<open>The record as the loader left it.\<close>

definition loader_record :: "memory \<Rightarrow> u32 \<Rightarrow> multiboot" where
  "loader_record m p = \<lparr>framebuffer_addr = ucast (load32 m (p + 88)) OR push_bit 32 (ucast (load32 m (p + 92))),
     framebuffer_pitch = load32 m (p + 96), framebuffer_width = load32 m (p + 100), framebuffer_height = load32 m (p + 104)\<rparr>"

lemma linear_word_loader:
  assumes "\<And>a. unat a \<in> {unat v ..< unat v + 4} \<Longrightarrow> page_walk p a = Some a \<and> \<not> (heap_start (pheap p) \<le> a \<and> a < heap_curr (pheap p))"
    and "unat v + 4 \<le> 2 ^ 32"
  shows "linear_word p m v = Some (load32 m v)"
proof -
  have b: "linear_byte p m a = Some (m a)" if "unat a \<in> {unat v ..< unat v + 4}" for a
    using assms(1) [OF that] by (auto simp: linear_byte_def phys_byte_def)
  show ?thesis using b [of v] b [of "v + 1"] b [of "v + 2"] b [of "v + 3"] assms(2)
    by (simp add: linear_word_def load32_def unat_offsets)
qed

lemma multiboot_at_loader:
  assumes "record_in_reach ptr" and "\<And>v. unat v < 128 * 1024 * 1024 \<Longrightarrow> page_walk p v = Some v"
    and "heap_start (pheap p) = 0xA00000" "unat (heap_curr (pheap p)) \<le> 0x1400000"
  shows "multiboot_at p m ptr = Some (loader_record m ptr)"
proof -
  have w: "linear_word p m (ptr + of_nat k) = Some (load32 m (ptr + of_nat k))" if "k \<le> 104" for k
  proof (rule linear_word_loader)
    have p: "unat ptr + k < 2 ^ 32" using assms(1) that by (auto simp: record_in_reach_def)
    then have u: "unat (ptr + of_nat k) = unat ptr + k" by (rule unat_offset)
    then show "unat (ptr + of_nat k) + 4 \<le> 2 ^ 32" using assms(1) that by (auto simp: record_in_reach_def)
    fix a :: u32 assume a: "unat a \<in> {unat (ptr + of_nat k) ..< unat (ptr + of_nat k) + 4}"
    then have r: "unat ptr \<le> unat a" "unat a < unat ptr + 108" using u that by auto
    then have "unat a < 128 * 1024 * 1024" using assms(1) by (auto simp: record_in_reach_def)
    moreover have "\<not> (heap_start (pheap p) \<le> a \<and> a < heap_curr (pheap p))"
      using assms(1,3,4) r by (auto simp: record_in_reach_def word_le_nat_alt word_less_nat_alt)
    ultimately show "page_walk p a = Some a \<and> \<not> (heap_start (pheap p) \<le> a \<and> a < heap_curr (pheap p))"
      using assms(2) by blast
  qed
  show ?thesis using w [of 88] w [of 92] w [of 96] w [of 100] w [of 104]
    by (simp add: multiboot_at_def loader_record_def)
qed

text \<open>The pages of the framebuffer cover the pixels when the rows are long enough.\<close>

lemma pixels_in_framebuffer:
  assumes "platform_ok pf mbi"
  shows "4 * (unat (framebuffer_width mbi) * unat (framebuffer_height mbi)) \<le> unat (fb_bytes mbi)"
    "unat (framebuffer_width mbi * framebuffer_height mbi) = unat (framebuffer_width mbi) * unat (framebuffer_height mbi)"
proof -
  note pf = assms [unfolded platform_ok_def platform_fits_def]
  let ?w = "unat (framebuffer_width mbi)" and ?h = "unat (framebuffer_height mbi)" and ?p = "unat (framebuffer_pitch mbi)"
  have b: "unat (fb_bytes mbi) = ?h * ?p" using pf by (simp add: fb_bytes_def unat_word_ariths)
  have "4 * ?w * ?h \<le> ?p * ?h" using pf by (intro mult_right_mono) auto
  then show c: "4 * (?w * ?h) \<le> unat (fb_bytes mbi)" by (simp add: b ac_simps)
  define n where "n = ?w * ?h"
  have "n < 2 ^ 32" using c unat_u32_less [of "fb_bytes mbi"] unfolding n_def [symmetric] by simp
  then show "unat (framebuffer_width mbi * framebuffer_height mbi) = ?w * ?h" by (simp add: unat_word_ariths n_def)
qed

lemma pixels_mapped_framebuffer:
  assumes "platform_ok pf mbi"
    and "\<forall>d < unat (fb_bytes mbi). page_walk q (fb_phys mbi + of_nat d) = Some (fb_phys mbi + of_nat d)"
  shows "pixels_mapped q (fb_phys mbi) (framebuffer_width mbi * framebuffer_height mbi)"
proof -
  note px = pixels_in_framebuffer [OF assms(1)]
  have "page_walk q (fb_phys mbi + 4 * of_nat i + of_nat b) = Some (fb_phys mbi + 4 * of_nat i + of_nat b)"
    if "i < unat (framebuffer_width mbi * framebuffer_height mbi)" "b < 4" for i b
  proof -
    have "4 * i + b < unat (fb_bytes mbi)" using that px by simp
    with assms(2) have "page_walk q (fb_phys mbi + of_nat (4 * i + b)) = Some (fb_phys mbi + of_nat (4 * i + b))" by blast
    then show ?thesis by (simp add: add.assoc)
  qed
  from this [of _ 0] this [of _ 1] this [of _ 2] this [of _ 3] show ?thesis
    by (simp add: pixels_mapped_def list_all_iff)
qed

lemma page_walk_heap [simp]: "page_walk (p\<lparr>pheap := h\<rparr>) = page_walk p"
  by (simp add: page_walk_alt present_def table_of_def pde_def fun_eq_iff)

lemma kmalloc_start: "heap_start (snd (kmalloc n h)) = heap_start h"
  by (simp add: kmalloc_def Let_def)

lemma Init_start: "heap_start (pheap (PageTableManager_Init s)) = heap_start (pheap s)"
proof -
  have t: "heap_start (pheap (init_table i s)) = heap_start (pheap s)" for i s
    using kmalloc_start [of 8192 "pheap s"] by (cases "kmalloc 8192 (pheap s)") (simp add: init_table_def Let_def)
  have "heap_start (pheap (init_tables n s)) = heap_start (pheap s)" for n s by (induction n) (simp_all add: t)
  then show ?thesis using kmalloc_start [of 8192 "pheap s"]
    by (cases "kmalloc 8192 (pheap s)") (simp add: Init_fields init_directory_def Let_def)
qed

text \<open>The tables before the framebuffer is mapped.\<close>

lemma boot_tables_spec:
  fixes p :: paging
  defines "s \<equiv> PageTableManager_Init (p\<lparr>pheap := kheap_init 0x00A00000 0x00A00000\<rparr>)"
  shows "tables_ok s" "unat (heap_curr (pheap s)) = 0x00A42000" "unat (heap_end (pheap s)) = 0x01400000"
    "heap_start (pheap s) = 0xA00000" "page_walk s v = (if unat v < 128 * 1024 * 1024 then Some v else None)"
proof -
  let ?s = "p\<lparr>pheap := kheap_init 0x00A00000 0x00A00000\<rparr>"
  have h: "pheap ?s = boot_heap" by (simp add: boot_heap_def)
  have inv: "init_inv (pheap ?s) 32 (init_tables 32 (init_directory ?s))"
    by (rule PageTableManager_Init_inv) (simp_all only: h boot_heap_ok boot_heap_numbers)
  then show "tables_ok s" "unat (heap_curr (pheap s)) = 0x00A42000" "unat (heap_end (pheap s)) = 0x01400000"
    by (simp_all only: s_def init_inv_def Init_fields h boot_heap_numbers) simp_all
  show "heap_start (pheap s) = 0xA00000" unfolding s_def Init_start h by (simp add: boot_heap_def kheap_init_def)
  have "unat v < 128 * 1024 * 1024 \<longleftrightarrow> unat v div 4194304 < 32" by (simp add: less_mult_imp_div_less) linarith
  then show "page_walk s v = (if unat v < 128 * 1024 * 1024 then Some v else None)"
    using inv pd_index_unat [of v] pd_index_less [of v] unfolding s_def init_inv_def Init_fields identity_at_def
    by (auto simp: page_walk_alt)
qed

lemma boot_pages:
  assumes "platform_fits pf mbi"
  shows "returns (map_framebuffer (Suc (fb_pages mbi)) (fb_phys mbi) (fb_bytes mbi) 0
      (PageTableManager_Init (p\<lparr>pheap := kheap_init 0x00A00000 0x00A00000\<rparr>)))
    (\<lambda>q. heap_room (pheap q) (4108 + 4 * (unat (framebuffer_width mbi) * unat (framebuffer_height mbi))
           + unat (fst (object_sizes pf)) + unat (snd (object_sizes pf)))
       \<and> (\<forall>v. unat v < 128 * 1024 * 1024 \<longrightarrow> page_walk q v = Some v)
       \<and> (\<forall>d < unat (fb_bytes mbi). page_walk q (fb_phys mbi + of_nat d) = Some (fb_phys mbi + of_nat d)))"
proof -
  let ?s1 = "PageTableManager_Init (p\<lparr>pheap := kheap_init 0x00A00000 0x00A00000\<rparr>)" and ?n = "fb_pages mbi"
  note pf = assms [unfolded platform_fits_def]
  have "unat (fb_bytes mbi) = unat (framebuffer_height mbi) * unat (framebuffer_pitch mbi)"
    using pf by (simp add: fb_bytes_def unat_word_ariths)
  then have bytes: "unat (fb_bytes mbi) \<le> 2 ^ 32 - 4096" using pf by linarith
  note s1 = boot_tables_spec [of p]
  have a: "unat (heap_curr (pheap ?s1)) mod 4096 = 0" "unat (heap_curr (pheap ?s1)) + 4096 * ?n < unat (heap_end (pheap ?s1))"
    using s1(2,3) pf by simp_all
  from map_framebuffer_all [OF s1(1) a(1) fb_pages_def _ a(2)] pf bytes obtain q where
    q: "map_framebuffer (Suc ?n) (fb_phys mbi) (fb_bytes mbi) 0 ?s1 = Some q" "tables_ok q"
      "\<forall>v. page_walk ?s1 v = Some v \<longrightarrow> page_walk q v = Some v"
      "\<forall>d < unat (fb_bytes mbi). page_walk q (fb_phys mbi + of_nat d) = Some (fb_phys mbi + of_nat d)" by blast
  note c = map_framebuffer_heap [OF s1(1) a q(1)]
  have "heap_room (pheap q) (4108 + 4 * (unat (framebuffer_width mbi) * unat (framebuffer_height mbi))
           + unat (fst (object_sizes pf)) + unat (snd (object_sizes pf)))"
    using q(2) c s1(2,3) pf by (simp add: heap_room_def tables_ok_def u32_less_nat)
  then show ?thesis using q(1,3,4) s1(5) by (auto intro!: returnsI)
qed

lemma boot_record:
  assumes "record_in_reach ptr"
  shows "multiboot_at (PageTableManager_Init (p\<lparr>pheap := kheap_init 0x00A00000 0x00A00000\<rparr>)) m ptr = Some (loader_record m ptr)"
  using assms boot_tables_spec [of p] by (intro multiboot_at_loader) simp_all

text \<open>Printing takes the console from one step to the next: the start prints less than a thousand characters.\<close>

lemma boot_print:
  assumes "boot_console w h y c" and "length s \<le> 100" and "y \<le> 10000"
  shows "returns (Console_Print s c) (boot_console w h (y + 1000))"
  using Console_Print_boot [OF assms(1), of s] assms(2,3)
  by (auto elim!: returns_mono simp: boot_console_def)

lemma serial_answers: "answers (serial_init io) = answers io"
  by (simp add: serial_init_def WritePort_def)

lemma RemapPIC_answers: "answers (RemapPIC io) = answers io"
  by (simp add: RemapPIC_def WritePort_def)

text \<open>The machine \<open>kernel_main\<close> leaves to the interrupts.\<close>

definition booted :: "platform \<Rightarrow> multiboot \<Rightarrow> machine \<Rightarrow> machine \<Rightarrow> bool" where
  "booted pf mbi m b \<longleftrightarrow> kernel_ok (m_kernel b)
     \<and> windows (k_desktop (m_kernel b)) = [0] \<and> active_window (k_desktop (m_kernel b)) = Some 0
     \<and> list_all fresh_terminal (objects (k_desktop (m_kernel b)))
     \<and> (\<forall>v. unat v < 128 * 1024 * 1024 \<longrightarrow> page_walk (m_paging b) v = Some v)
     \<and> (\<forall>d < unat (fb_bytes mbi). page_walk (m_paging b) (fb_phys mbi + of_nat d) = Some (fb_phys mbi + of_nat d))
     \<and> k_pages (m_kernel b) = page_walk (m_paging b)
     \<and> answers (k_io (m_kernel b)) = drop 16 (answers (k_io (m_kernel m))) \<and> m_gdt b = gdt_init (gdt_address pf + 48)
     \<and> m_cpu b = Activate (idt_load (idt_address pf) (gdt_load (gdt_address pf) (m_gdt b) (m_cpu m)))
     \<and> m_idt b = fst (InterruptManager_init (handlers pf) (m_gdt b) (m_idt m) (dt_io (k_desktop (m_kernel m))))"

lemma kernel_main_booted:
  assumes m: "loaded m dsk (as @ rest)" and mouse: "controller_ready as" and clock: "2 \<le> length rest"
    and disk: "drive_ok dsk" "disk_superblock dsk = Some sb" "sb_magic sb = 0xEF53 \<Longrightarrow> log_block_size sb \<le> 2"
    and pf: "platform_ok pf mbi" and mb: "record_in_reach ptr" "loader_record (k_mem (m_kernel m)) ptr = mbi"
  shows "\<exists>b. kernel_main (Suc (fb_pages mbi)) pf magic ptr m = Some b \<and> booted pf mbi m b"
proof -
  obtain mem where k: "m_kernel m = static_kernel dsk (as @ rest) mem" using m by (auto simp: loaded_def)
  let ?d = "k_desktop (m_kernel m)" and ?w = "framebuffer_width mbi" and ?h = "framebuffer_height mbi"
  let ?n = "4 * (unat ?w * unat ?h) + unat (fst (object_sizes pf)) + unat (snd (object_sizes pf)) + 9"
  have st: "e_log (dt_fs ?d) = []" "e_disk (dt_fs ?d) = dsk" "objects ?d = []" "dt_mouse_x ?d = 400" "dt_mouse_y ?d = 300"
    "drag_window ?d = None" "drag_offset_x ?d = 0" "drag_offset_y ?d = 0" "k_mouse (m_kernel m) = mouse_start"
    "user_heap_end (m_kernel m) = 0x00800000" "length (mouse_backbuffer (dt_con ?d)) = 216"
    by (simp_all add: k static_kernel_def static_desktop_def static_ext4_def static_console_def)
  obtain idt io where im: "InterruptManager_init (handlers pf) (gdt_init (gdt_address pf + 48)) (m_idt m) (dt_io ?d) = (idt, io)"
    by (cases "InterruptManager_init (handlers pf) (gdt_init (gdt_address pf + 48)) (m_idt m) (dt_io ?d)")
  then have io: "answers (serial_init io) = as @ rest"
    by (auto simp: InterruptManager_init_def Let_def RemapPIC_answers serial_answers k static_kernel_def static_desktop_def)
  obtain q where q: "map_framebuffer (Suc (fb_pages mbi)) (fb_phys mbi) (fb_bytes mbi) 0
        (PageTableManager_Init ((m_paging m)\<lparr>pheap := kheap_init 0x00A00000 0x00A00000\<rparr>)) = Some q"
      "heap_room (pheap q) (4108 + 4 * (unat ?w * unat ?h) + unat (fst (object_sizes pf)) + unat (snd (object_sizes pf)))"
      "\<forall>v. unat v < 128 * 1024 * 1024 \<longrightarrow> page_walk q v = Some v"
      "\<forall>d < unat (fb_bytes mbi). page_walk q (fb_phys mbi + of_nat d) = Some (fb_phys mbi + of_nat d)"
    using boot_pages [of pf mbi "m_paging m"] pf unfolding returns_def platform_ok_def by blast
  have rec: "multiboot_at (PageTableManager_Init ((m_paging m)\<lparr>pheap := kheap_init 0x00A00000 0x00A00000\<rparr>))
      (k_mem (m_kernel m)) ptr = Some mbi" using boot_record [OF mb(1)] mb(2) by simp
  have px: "pixels_mapped q (fb_phys mbi) (?w * ?h)" by (rule pixels_mapped_framebuffer [OF pf q(4)])
  have fits: "screen_fits ?w ?h (length (screen_memory pf))" using pf by (simp add: platform_ok_def platform_fits_def)
  obtain c0 where c0: "Console_Init (screen_memory pf) ?w ?h (dt_con ?d) = Some c0" "boot_console ?w ?h 0 c0"
    using Console_Init_boot [OF fits st(11)] unfolding returns_def by blast
  obtain c1 where c1: "Console_Print (''System Graphics Initialized.'' @ [NL]) c0 = Some c1" "boot_console ?w ?h 1000 c1"
    using boot_print [OF c0(2), of "''System Graphics Initialized.'' @ [NL]"] by (auto simp: returns_def simp del: Console_Print.simps)
  obtain c2 where c2: "Console_Print (''Loading Modules...'' @ [NL]) c1 = Some c2" "boot_console ?w ?h 2000 c2"
    using boot_print [OF c1(2), of "''Loading Modules...'' @ [NL]"] by (auto simp: returns_def simp del: Console_Print.simps)
  obtain io' where io': "Mouse_Init (serial_init io) = Some io'" "answers io' = rest"
    using Mouse_Init_ready [OF mouse io] unfolding returns_def by blast
  obtain c3 where c3: "Console_Print (''[Kernel] Mouse Initialized.'' @ [NL]) c2 = Some c3" "boot_console ?w ?h 3000 c3"
    using boot_print [OF c2(2), of "''[Kernel] Mouse Initialized.'' @ [NL]"] by (auto simp: returns_def simp del: Console_Print.simps)
  let ?s = "(dt_fs ?d)\<lparr>e_heap := pheap q\<rparr>"
  have "heap_room (e_heap ?s) (4099 + ?n)" using q(2) by (simp add: algebra_simps)
  from ext4_Init_boot [of ?s, OF _ _ disk(3) this] disk(1,2) st(1,2) obtain f where
    f: "ext4_Init ?s = Some f" "heap_room (e_heap f) ?n" "length (concat (e_log f)) \<le> 100" by (auto simp: returns_def)
  obtain c4 where c4: "Console_Print (concat (drop (length (e_log (dt_fs ?d))) (e_log f))) c3 = Some c4" "boot_console ?w ?h 4000 c4"
    using boot_print [OF c3(2), of "concat (e_log f)"] f(3) st(1) by (auto simp: returns_def)
  let ?d1 = "?d\<lparr>dt_con := c4, dt_io := io', dt_fs := f\<rparr>"
  obtain e where e: "Desktop_Init (object_sizes pf) (buffer_memory pf) (title_memory pf) (window_memory pf)
        (compile_date pf) (compile_time pf) ?d1 = Some e"
      "desktop_ok e" "windows e = [0]" "active_window e = Some 0" "list_all fresh_terminal (objects e)"
      "dt_mouse_x e = 400" "dt_mouse_y e = 300" "answers (dt_io e) = drop 2 rest"
    using Desktop_Init_boot [of ?w ?h 4000 ?d1 "buffer_memory pf" "title_memory pf" "object_sizes pf" 0 "window_memory pf"
        "compile_date pf" "compile_time pf"] c4(2) f(2) pf clock io'(2) st(3-8)
    unfolding returns_def platform_ok_def platform_fits_def by (auto simp: algebra_simps)
  define b where "b = \<lparr>m_gdt = gdt_init (gdt_address pf + 48),
    m_cpu = Activate (idt_load (idt_address pf) (gdt_load (gdt_address pf) (gdt_init (gdt_address pf + 48)) (m_cpu m))), m_idt = idt, m_paging = q\<lparr>pheap := e_heap (dt_fs e)\<rparr>,
    m_kernel = (m_kernel m)\<lparr>k_desktop := e, k_pages := page_walk q\<rparr>\<rparr>"
  have "kernel_main (Suc (fb_pages mbi)) pf magic ptr m = Some b"
    unfolding kernel_main_def Let_def im prod.case rec Option.bind.simps fb_phys_def [symmetric] fb_bytes_def [symmetric]
      q(1) if_P [OF px] c0(1) c1(1) c2(1) io'(1) c3(1) f(1) c4(1) e(1) option.simps Option.bind.simps b_def by (rule refl)
  moreover have "booted pf mbi m b"
    using e(2-8) q(3,4) im st(9,10) mouse
    by (simp add: booted_def b_def kernel_ok_def mouse_ok_def mouse_start_def pointer_agrees_def brk_ok_def k_io_def
        k static_kernel_def static_desktop_def controller_ready_def)
  ultimately show ?thesis by blast
qed

text \<open>C3: the kernel starts. On a machine as the loader leaves it, with the multiboot record in the first 128 MB outside
  the kernel's heap, a page-aligned 32-bit framebuffer beyond them whose rows hold four bytes per pixel, a screen and two
  object sizes that fit the memory, a mouse controller that is ready, a clock that answers twice and a disk that is either
  foreign or a volume with blocks of at most 4 KB, \<open>kernel_main\<close> reaches its endless loop without a fault, the record read
  and every pixel drawn through the page tables, within one turn of the mapping loop per page of the framebuffer. Then the
  kernel is in order; one terminal window with an empty line and history lies on the desktop and has the focus; the first
  128 MB and the whole framebuffer translate to themselves; and the interrupts of keyboard and mouse, the page fault and
  the system call lead to their stubs, the last one alone open to ring 3.\<close>

theorem kernel_boots:
  assumes "loaded m dsk (as @ rest)" and "controller_ready as" and "2 \<le> length rest"
    and "drive_ok dsk" "disk_superblock dsk = Some sb" "sb_magic sb = 0xEF53 \<Longrightarrow> log_block_size sb \<le> 2"
    and "platform_ok pf mbi" and "record_in_reach ptr" and "loader_record (k_mem (m_kernel m)) ptr = mbi"
  shows "\<exists>b. kernel_main (Suc (fb_pages mbi)) pf magic ptr m = Some b \<and> booted pf mbi m b
    \<and> gate_is (stub_keyboard (handlers pf)) 8 0 (m_idt b ! 0x21) \<and> gate_is (stub_mouse (handlers pf)) 8 0 (m_idt b ! 0x2C)
    \<and> gate_is (stub_page_fault (handlers pf)) 8 0 (m_idt b ! 14) \<and> gate_is (stub_syscall (handlers pf)) 8 3 (m_idt b ! 0x80)"
proof -
  from kernel_main_booted [OF assms] obtain b where
    b: "kernel_main (Suc (fb_pages mbi)) pf magic ptr m = Some b" "booted pf mbi m b" by blast
  obtain io where "InterruptManager_init (handlers pf) (m_gdt b) (m_idt m) (dt_io (k_desktop (m_kernel m))) = (m_idt b, io)"
    using b(2) by (metis booted_def prod.collapse)
  note g = InterruptManager_gates [OF _ this]
  have "length (m_idt m) = 256" "CodeSegmentSelector (m_gdt b) = 8"
    using assms(1) b(2) by (simp_all add: loaded_def booted_def CodeSegmentSelector_def gdt_init_def)
  then show ?thesis using b g [of "0x21"] g [of "0x2C"] g [of 14] g [of "0x80"] by auto
qed

definition demo_platform :: platform where
  "demo_platform = \<lparr>gdt_address = 0x109000, idt_address = 0x10A000, handlers = \<lparr>stub_ignore = 0x100000, stub_timer = 0x100010, stub_keyboard = 0x100020,
     stub_mouse = 0x100030, stub_syscall = 0x100040, stub_page_fault = 0x100050\<rparr>, object_sizes = (0x1000, 0x2000),
     screen_memory = replicate 1200 0, buffer_memory = replicate 1200 0, title_memory = replicate 32 NUL,
     window_memory = blank_terminal, compile_date = ''Jan  1 2026'', compile_time = ''00:00:00''\<rparr>"

definition demo_multiboot :: multiboot where
  "demo_multiboot = \<lparr>framebuffer_addr = 0xFD000000, framebuffer_pitch = 160, framebuffer_width = 40, framebuffer_height = 30\<rparr>"

definition demo_memory :: memory where
  "demo_memory = store32 0x9058 0xFD000000 (store32 0x9060 160 (store32 0x9064 40 (store32 0x9068 30 (\<lambda>_. 0))))"

definition volume :: drive where
  "volume s = (if s = 2 then replicate 56 0 @ [0x53, 0xEF] @ replicate 454 0 else replicate 512 0)"

definition demo_machine :: "u16 list \<Rightarrow> machine" where
  "demo_machine as = \<lparr>m_gdt = gdt_init 0, m_cpu = \<lparr>gdtr_limit = 0, gdtr_base = 0, cpu_cs = 0, cpu_data = [], cpu_tr = 0,
     idtr_limit = 0, idtr_base = 0, interrupts_on = False\<rparr>, m_idt = replicate 256 \<lparr>handlerAddressLowBits = 0, gdt_codeSegmentSelector = 0, gate_reserved = 0,
       gate_access = 0, handlerAddressHighBits = 0\<rparr>, m_paging = boot_paging,
     m_kernel = static_kernel volume (replicate 14 1 @ as) demo_memory\<rparr>"

lemma volume_superblock:
  "\<exists>sb. disk_superblock volume = Some sb \<and> sb_magic sb = 0xEF53 \<and> log_block_size sb = 0"
proof -
  have [simp]: "length (disk_read s volume) = 512" for s by (simp add: disk_read_def volume_def)
  let ?m = "disk_read 2 volume @ disk_read 3 volume"
  obtain sb where sb: "superblock_at ?m = Some sb"
    unfolding superblock_at_def by (simp add: word_at_def half_at_def)
  have "half_at 56 ?m = Some (sb_magic sb)" "word_at 24 ?m = Some (log_block_size sb)"
    using sb by (auto simp: superblock_at_def bind_eq_Some_conv)
  moreover have "half_at 56 ?m = Some 0xEF53" "word_at 24 ?m = Some 0"
    by (simp_all add: half_at_def word_at_def word_of_bytes_def disk_read_def volume_def nth_append le32_def)
  ultimately show ?thesis using sb by (auto simp: disk_superblock_def)
qed

lemma demo_start:
  "loaded (demo_machine as) volume (replicate 14 1 @ as)" "controller_ready (replicate 14 1)" "drive_ok volume"
  "fb_pages demo_multiboot = 2" "unat (fb_bytes demo_multiboot) = 4800" "fb_phys demo_multiboot = 0xFD000000"
  "platform_ok demo_platform demo_multiboot" "record_in_reach 0x9000"
  "loader_record (k_mem (m_kernel (demo_machine as))) 0x9000 = demo_multiboot"
proof -
  show "loaded (demo_machine as) volume (replicate 14 1 @ as)"
    unfolding loaded_def demo_machine_def by (simp only: machine.simps length_replicate) blast
  show "controller_ready (replicate 14 1)" by (simp add: controller_ready_def status_ready_def nth_replicate upt_conv_Cons)
  show "drive_ok volume" by (simp add: drive_ok_def volume_def)
  show n: "fb_pages demo_multiboot = 2" "unat (fb_bytes demo_multiboot) = 4800" "fb_phys demo_multiboot = 0xFD000000"
    by (simp_all add: fb_pages_def fb_bytes_def fb_phys_def demo_multiboot_def)
  have "length (replicate 1200 (0 :: u32)) = 1200" by (simp only: length_replicate)
  then show "platform_ok demo_platform demo_multiboot" using n
    by (simp add: platform_ok_def platform_fits_def demo_platform_def blank_terminal_def demo_multiboot_def screen_fits_def page_aligned_def)
  show "record_in_reach 0x9000" by (simp add: record_in_reach_def)
  have z: "le32 0 0 0 0 = 0" by (simp add: le32_def)
  show "loader_record (k_mem (m_kernel (demo_machine as))) 0x9000 = demo_multiboot"
    by (simp add: z le32_byte_at_Suc demo_machine_def static_kernel_def loader_record_def demo_memory_def demo_multiboot_def load32_def store32_def)
qed

theorem kernel_boots_witness:
  "\<exists>b. kernel_main 3 demo_platform 0x2BADB002 0x9000 (demo_machine [0x09, 0x30]) = Some b \<and> kernel_ok (m_kernel b)
     \<and> page_walk (m_paging b) 0xFD001000 = Some 0xFD001000 \<and> gate_is 0x100040 8 3 (m_idt b ! 0x80)"
proof -
  obtain sb where sb: "disk_superblock volume = Some sb" "sb_magic sb = 0xEF53" "log_block_size sb = 0"
    using volume_superblock by blast
  from kernel_boots [where magic = "0x2BADB002", OF demo_start(1) [of "[0x09, 0x30]"] demo_start(2) _ demo_start(3) sb(1) _ demo_start(7-9)] sb(3) demo_start(4) obtain b where
    b: "kernel_main 3 demo_platform 0x2BADB002 0x9000 (demo_machine [0x09, 0x30]) = Some b"
      "booted demo_platform demo_multiboot (demo_machine [0x09, 0x30]) b"
      "gate_is 0x100040 8 3 (m_idt b ! 0x80)" by (auto simp: demo_platform_def numeral_3_eq_3)
  have "4096 < unat (fb_bytes demo_multiboot)" using demo_start(5) by simp
  then have "page_walk (m_paging b) (fb_phys demo_multiboot + of_nat 4096) = Some (fb_phys demo_multiboot + of_nat 4096)"
    using b(2) unfolding booted_def by blast
  then show ?thesis using b demo_start(6) by (auto simp: booted_def)
qed

section \<open>A mode with fewer than 32 bits per pixel\<close>

text \<open>Mapping the framebuffer changes the translation of its pages only.\<close>

lemma map_framebuffer_other:
  assumes "tables_ok s" and "unat (heap_curr (pheap s)) mod 4096 = 0"
    and "unat (heap_curr (pheap s)) + 4096 * n < unat (heap_end (pheap s))" and "unat fb_size \<le> 2 ^ 32 - 4096"
    and "map_framebuffer (Suc n) fb fb_size o1 s = Some s'"
    and "\<And>d. d < unat fb_size \<Longrightarrow> unat v div 4096 \<noteq> unat (fb + of_nat d) div 4096"
  shows "page_walk s' v = page_walk s v"
  using assms(1-3,5)
proof (induction n arbitrary: o1 s)
  case 0
  then show ?case by (auto split: if_splits)
next
  case (Suc n)
  show ?case
  proof (cases "o1 < fb_size")
    case False
    then show ?thesis using Suc.prems(4) by simp
  next
    case True
    define s1 where "s1 = MapMemory (fb + o1) (fb + o1) s"
    have rm: "unat (heap_curr (pheap s)) + 4096 < unat (heap_end (pheap s))" using Suc.prems(3) by simp
    note st = MapMemory_step [OF Suc.prems(1), of "fb + o1" "fb + o1", folded s1_def]
    have c1: "tables_ok s1" "unat (heap_curr (pheap s1)) \<in> {unat (heap_curr (pheap s)), unat (heap_curr (pheap s)) + 4096}"
      "heap_end (pheap s1) = heap_end (pheap s)"
      using st Suc.prems(2) rm by blast+
    have "unat v div 4096 \<noteq> unat (fb + o1) div 4096" using assms(6) [of "unat o1"] True by (simp add: word_less_nat_alt)
    then have w: "page_walk s1 v = page_walk s v" using st(1) [of v] Suc.prems(2) rm by auto
    have "unat (heap_curr (pheap s1)) mod 4096 = 0"
      "unat (heap_curr (pheap s1)) + 4096 * n < unat (heap_end (pheap s1))"
      using c1 Suc.prems(2,3) by auto
    moreover have "map_framebuffer (Suc n) fb fb_size (o1 + 4096) s1 = Some s'"
      using Suc.prems(4) True by (simp add: s1_def)
    ultimately show ?thesis using Suc.IH [OF c1(1)] w by simp
  qed
qed

text \<open>The pages are counted from the pitch and the pixels from the width: when the rows of the mode are so short that a
  pixel lies beyond the mapped pages (16 bits per pixel), clearing the screen is a page fault and the kernel does not start.\<close>

theorem kernel_faults_on_short_rows:
  assumes pf: "platform_fits pf mbi" and rec: "record_in_reach ptr" "loader_record (k_mem (m_kernel m)) ptr = mbi"
    and i: "i < unat (framebuffer_width mbi * framebuffer_height mbi)" "4096 * fb_pages mbi \<le> 4 * i"
      "unat (fb_phys mbi) + 4 * i < 2 ^ 32"
  shows "\<exists>q. map_framebuffer (Suc (fb_pages mbi)) (fb_phys mbi) (fb_bytes mbi) 0
        (PageTableManager_Init ((m_paging m)\<lparr>pheap := kheap_init 0x00A00000 0x00A00000\<rparr>)) = Some q
      \<and> page_walk q (fb_phys mbi + 4 * of_nat i) = None
    \<and> kernel_main (Suc (fb_pages mbi)) pf magic ptr m = None"
proof -
  let ?s = "PageTableManager_Init ((m_paging m)\<lparr>pheap := kheap_init 0x00A00000 0x00A00000\<rparr>)"
    and ?v = "fb_phys mbi + 4 * of_nat i"
  obtain q where q: "map_framebuffer (Suc (fb_pages mbi)) (fb_phys mbi) (fb_bytes mbi) 0 ?s = Some q"
    using boot_pages [OF pf, of "m_paging m"] unfolding returns_def by blast
  note s = boot_tables_spec [of "m_paging m"]
  note f = pf [unfolded platform_fits_def]
  have b: "unat (fb_bytes mbi) = unat (framebuffer_height mbi) * unat (framebuffer_pitch mbi)"
    using f by (simp add: fb_bytes_def unat_word_ariths)
  then have bytes: "unat (fb_bytes mbi) \<le> 2 ^ 32 - 4096" using f by linarith
  have v: "unat ?v = unat (fb_phys mbi) + 4 * i" using unat_offset [of "fb_phys mbi" "4 * i"] i(3) by simp
  have al: "unat (fb_phys mbi) mod 4096 = 0" using f by (simp add: page_aligned_def)
  have pages: "unat (fb_bytes mbi) \<le> 4096 * fb_pages mbi" by (simp add: fb_pages_def)
  have other: "unat ?v div 4096 \<noteq> unat (fb_phys mbi + of_nat d) div 4096" if d: "d < unat (fb_bytes mbi)" for d
  proof -
    have u: "unat (fb_phys mbi + of_nat d) = unat (fb_phys mbi) + d" using d f by (intro unat_offset) simp
    obtain k where "unat (fb_phys mbi) = 4096 * k" using al by (auto simp: mod_eq_0_iff_dvd dvd_def)
    moreover have "d < 4096 * fb_pages mbi" using d pages by simp
    then have "d div 4096 < fb_pages mbi" by (simp add: less_mult_imp_div_less mult.commute)
    moreover have "fb_pages mbi \<le> 4 * i div 4096" using i(2) by (simp add: less_eq_div_iff_mult_less_eq mult.commute)
    ultimately have "(unat (fb_phys mbi) + d) div 4096 < (unat (fb_phys mbi) + 4 * i) div 4096"
by simp
    then show ?thesis using u v by simp
  qed
  have "page_walk q ?v = page_walk ?s ?v"
    using s(2,3) f by (intro map_framebuffer_other [OF s(1) _ _ bytes q other]) simp_all
  then have none: "page_walk q ?v = None" using s(5) f v by simp
  have "\<not> pixels_mapped q (fb_phys mbi) (framebuffer_width mbi * framebuffer_height mbi)"
    using i(1) none by (auto simp: pixels_mapped_def list_all_iff intro!: bexI [of _ i])
  then have "kernel_main (Suc (fb_pages mbi)) pf magic ptr m = None"
    using q boot_record [OF rec(1), of "m_paging m" "k_mem (m_kernel m)"] rec(2)
    by (simp add: kernel_main_def Let_def fb_phys_def fb_bytes_def split: prod.split)
  then show ?thesis using q none by blast
qed

definition short_rows :: multiboot where
  "short_rows = demo_multiboot\<lparr>framebuffer_pitch := 80\<rparr>"

definition short_memory :: memory where
  "short_memory = store32 0x9058 0xFD000000 (store32 0x9060 80 (store32 0x9064 40 (store32 0x9068 30 (\<lambda>_. 0))))"

theorem kernel_faults_on_short_rows_witness:
  "kernel_main 2 demo_platform 0x2BADB002 0x9000
     ((demo_machine [])\<lparr>m_kernel := static_kernel volume (replicate 14 1) short_memory\<rparr>) = None"
proof -
  let ?m = "(demo_machine [])\<lparr>m_kernel := static_kernel volume (replicate 14 1) short_memory\<rparr>"
  have n: "fb_pages short_rows = 1" "unat (fb_bytes short_rows) = 2400" "fb_phys short_rows = 0xFD000000"
    by (simp_all add: fb_pages_def fb_bytes_def fb_phys_def short_rows_def demo_multiboot_def)
  have l: "length (replicate 1200 (0 :: u32)) = 1200" by (simp only: length_replicate)
  then have pf: "platform_fits demo_platform short_rows" using n
    by (simp add: platform_fits_def demo_platform_def blank_terminal_def short_rows_def demo_multiboot_def screen_fits_def page_aligned_def)
  have z: "le32 0 0 0 0 = 0" by (simp add: le32_def)
  have r: "loader_record (k_mem (m_kernel ?m)) 0x9000 = short_rows"
    by (simp add: z le32_byte_at_Suc static_kernel_def loader_record_def short_memory_def short_rows_def demo_multiboot_def load32_def store32_def)
  have "1024 < unat (framebuffer_width short_rows * framebuffer_height short_rows)" by (simp add: short_rows_def demo_multiboot_def)
  moreover have "4096 * fb_pages short_rows \<le> 4 * 1024" "unat (fb_phys short_rows) + 4 * 1024 < 2 ^ 32" using n by simp_all
  ultimately have "kernel_main (Suc (fb_pages short_rows)) demo_platform 0x2BADB002 0x9000 ?m = None"
    using kernel_faults_on_short_rows [OF pf demo_start(8) r, where magic = "0x2BADB002"] by blast
  then show ?thesis unfolding n by (simp only: numeral_2_eq_2 One_nat_def)
qed

end
