(* ===== verification/Typing.thy ===== *)
theory Typing
  imports Kernel
begin

text \<open>
  From the key to the line: the keyboard's interrupts, the desktop's focus, the terminal's line editor and
  the painting put together. The abstract typist has a line and an index into the history; every
  interrupt, taken through \<open>HandleInterrupt\<close>, is one of its steps.
\<close>

section \<open>The shell that has the focus\<close>

definition focus :: "desktop \<Rightarrow> (nat \<times> shell) option" where
  "focus d = do {
     p \<leftarrow> active_window d;
     w \<leftarrow> get_window d p;
     s \<leftarrow> win_shell w;
     if mode (sh_tm s) = SHELL then Some (p, s) else None
   }"

definition typing_ok :: "kernel \<Rightarrow> shell \<Rightarrow> bool" where
  "typing_ok k s \<longleftrightarrow> kernel_ok k \<and> (\<exists>p. focus (k_desktop k) = Some (p, s)) \<and> line_ok (sh_tm s)"

text \<open>What the typist sees of the shell.\<close>

definition typed :: "shell \<Rightarrow> string \<times> int" where
  "typed s = (line_text (sh_tm s), history_idx (sh_tm s))"

text \<open>A release and the control key draw nothing; every other key repaints, and the clock is read twice.\<close>

definition repaints :: "u8 \<Rightarrow> bool" where
  "repaints sc \<longleftrightarrow> sc AND 0x80 = 0 \<and> sc \<noteq> 0x1D"

definition key_step :: "string list \<Rightarrow> u8 \<Rightarrow> string \<times> int \<Rightarrow> string \<times> int" where
  "key_step hist sc x = (if repaints sc then line_step (uint sc) (ScancodeToAscii sc) hist x else x)"

lemma focusE:
  assumes "focus d = Some (p, s)"
  obtains w where "active_window d = Some p" "p < length (objects d)" "objects d ! p = w" "win_shell w = Some s"
    "mode (sh_tm s) = SHELL" "get_window d p = Some w"
proof -
  from assms obtain w where w: "active_window d = Some p" "get_window d p = Some w" "win_shell w = Some s" "mode (sh_tm s) = SHELL"
    by (auto simp: focus_def bind_eq_Some_conv split: if_splits)
  then have "p < length (objects d) \<and> objects d ! p = w" by (auto simp: get_window_def arr_get_def split: if_splits)
  with w that show thesis by blast
qed

lemma focusI:
  assumes "active_window d = Some p" "p < length (objects d)" "win_shell (objects d ! p) = Some s" "mode (sh_tm s) = SHELL"
  shows "focus d = Some (p, s)"
  using assms by (simp add: focus_def get_window_def arr_get_def)

section \<open>One key\<close>

text \<open>The window's part: the terminal of the focused shell takes the key, nothing is printed on the console, and the
  desktop stays in order.\<close>

lemma window_key_line:
  assumes ok: "desktop_ok d" and f: "focus d = Some (p, s)" and l: "line_ok (sh_tm s)" and key: "scancode \<noteq> 0x0F" "scancode \<noteq> 0x1C"
  shows "\<exists>e s'. window_key n p scancode ascii d = Some e \<and> desktop_ok e \<and> focus e = Some (p, s') \<and> line_ok (sh_tm s')
    \<and> history_text (sh_tm s') = history_text (sh_tm s) \<and> typed s' = line_step scancode ascii (history_text (sh_tm s)) (typed s)
    \<and> dt_io e = dt_io d \<and> dt_mouse_x e = dt_mouse_x d \<and> dt_mouse_y e = dt_mouse_y d \<and> windows e = windows d"
proof -
  from f obtain w where w: "active_window d = Some p" "p < length (objects d)" "objects d ! p = w" "win_shell w = Some s"
    "mode (sh_tm s) = SHELL" "get_window d p = Some w" by (rule focusE)
  have wok: "window_ok w" using ok w(2,3) by (auto simp: desktop_ok_def)
  then have t: "term_ok (sh_tm s)" using w(4) by (simp add: window_ok_def)
  let ?s = "lend d s"
  have tm: "sh_tm ?s = sh_tm s" by (simp add: lend_def)
  from TW_OnKeyDown_line [of ?s, unfolded tm, OF l t w(5) key, of n "IsCtrlPressed d" ascii] obtain u where
    u: "TW_OnKeyDown n (IsCtrlPressed d) scancode ascii ?s = Some (?s\<lparr>sh_tm := u\<rparr>)" "line_ok u" "term_ok u"
      "history_text u = history_text (sh_tm s)"
      "(line_text u, history_idx u) = line_step scancode ascii (history_text (sh_tm s)) (line_text (sh_tm s), history_idx (sh_tm s))"
    and mode: "mode u = SHELL" by blast
  define s' where "s' = ?s\<lparr>sh_tm := u\<rparr>"
  define e where "e = set_window p (w\<lparr>win_shell := Some s'\<rparr>) d"
  have "take_back p w s' d = Some e"
    by (simp add: take_back_def s'_def lend_def e_def set_window_def)
  then have call: "window_key n p scancode ascii d = Some e"
    using w u(1) by (simp add: window_key_def s'_def)
  have "window_ok (w\<lparr>win_shell := Some s'\<rparr>)" using wok u(3) by (simp add: window_ok_def window_near_def s'_def)
  then have "desktop_ok e" using ok unfolding desktop_ok_def e_def set_window_def
    by (auto dest!: set_update_subset_insert [THEN subsetD])
  moreover have "focus e = Some (p, s')"
    using w mode by (intro focusI) (simp_all add: e_def set_window_def s'_def)
  moreover have "typed s' = line_step scancode ascii (history_text (sh_tm s)) (typed s)" using u(5) by (simp add: typed_def s'_def)
  moreover have "dt_io e = dt_io d" "dt_mouse_x e = dt_mouse_x d" "dt_mouse_y e = dt_mouse_y d" "windows e = windows d"
    by (simp_all add: e_def set_window_def)
  ultimately show ?thesis using call u(2,4) by (intro exI [of _ e] exI [of _ s']) (simp add: s'_def)
qed

lemma focus_cong: "objects d = objects e \<Longrightarrow> active_window d = active_window e \<Longrightarrow> focus d = focus e"
  by (simp add: focus_def get_window_def)

text \<open>The desktop's part: the control key is noted, every other key goes to the window and repaints.\<close>

lemma OnKeyDown_line:
  assumes ok: "desktop_ok d" and f: "focus d = Some (p, s)" and l: "line_ok (sh_tm s)" and key: "scancode \<noteq> 0x0F" "scancode \<noteq> 0x1C"
    and t: "scancode \<noteq> 0x1D \<Longrightarrow> 2 \<le> ticks d"
  shows "\<exists>e s'. OnKeyDown n scancode d = Some e \<and> desktop_ok e \<and> focus e = Some (p, s') \<and> line_ok (sh_tm s')
    \<and> history_text (sh_tm s') = history_text (sh_tm s) \<and> dt_mouse_x e = dt_mouse_x d \<and> dt_mouse_y e = dt_mouse_y d
    \<and> windows e = windows d \<and> (if scancode = 0x1D then typed s' = typed s \<and> answers (dt_io e) = answers (dt_io d)
       else typed s' = line_step scancode (ScancodeToAscii (word_of_int scancode)) (history_text (sh_tm s)) (typed s)
         \<and> answers (dt_io e) = drop 2 (answers (dt_io d)))"
proof (cases "scancode = 0x1D")
  case True
  let ?e = "d\<lparr>ctrl_pressed := True\<rparr>"
  have "desktop_ok ?e" "focus ?e = focus d" using ok focus_cong [of ?e d] by (simp_all add: desktop_ok_def)
  then show ?thesis using True f l by (simp add: OnKeyDown_def)
next
  case False
  have a: "active_window d = Some p" using f by (rule focusE)
  from window_key_line [OF ok f l key, of n "ScancodeToAscii (word_of_int scancode)"] obtain d1 s' where
    d1: "window_key n p scancode (ScancodeToAscii (word_of_int scancode)) d = Some d1" "desktop_ok d1" "focus d1 = Some (p, s')"
      "line_ok (sh_tm s')" "history_text (sh_tm s') = history_text (sh_tm s)"
      "typed s' = line_step scancode (ScancodeToAscii (word_of_int scancode)) (history_text (sh_tm s)) (typed s)"
      "dt_io d1 = dt_io d" "dt_mouse_x d1 = dt_mouse_x d" "dt_mouse_y d1 = dt_mouse_y d" "windows d1 = windows d" by blast
  from Draw_ok [OF d1(2)] t [OF False] d1(7) obtain e where
    e: "Desktop_Draw d1 = Some e" "desktop_ok e" "same_desktop d1 e" by (auto simp: ticks_def)
  note sm = same_desktop_fields [OF e(3)]
  have "focus e = Some (p, s')" using d1(3) focus_cong [OF sm(1,3)] by simp
  moreover have "OnKeyDown n scancode d = Some e" using False a d1(1) e(1) by (simp add: OnKeyDown_def)
  ultimately show ?thesis using False e(2) d1(4-10) sm Draw_answers [OF e(1)] by (intro exI [of _ e] exI [of _ s']) simp
qed

text \<open>The kernel's part: vector 0x21 through the handler and its acknowledgement.\<close>

lemma key_interrupt_step:
  assumes ok: "typing_ok k s" and a: "answers (k_io k) = a # rest" and sc: "sc = ucast a" "sc \<noteq> 0x0F" "sc \<noteq> 0x1C"
    and t: "repaints sc \<Longrightarrow> 2 \<le> length rest"
  shows "\<exists>k' s'. HandleInterrupt n waits cr2 0x21 regs k = Some (Returned k' regs) \<and> typing_ok k' s'
    \<and> typed s' = key_step (history_text (sh_tm s)) sc (typed s) \<and> history_text (sh_tm s') = history_text (sh_tm s)
    \<and> windows (k_desktop k') = windows (k_desktop k) \<and> active_window (k_desktop k') = active_window (k_desktop k)
    \<and> answers (k_io k') = (if repaints sc then drop 2 rest else rest)"
proof -
  obtain p where k: "kernel_ok k" "focus (k_desktop k) = Some (p, s)" "line_ok (sh_tm s)" using ok by (auto simp: typing_ok_def)
  define io where "io = (k_io k)\<lparr>answers := rest, events := events (k_io k) @ [InB 0x60 sc]\<rparr>"
  define k1 where "k1 = set_io io k"
  define d where "d = (k_desktop k)\<lparr>dt_io := io\<rparr>"
  have d: "desktop_ok d" "focus d = Some (p, s)" "answers (dt_io d) = rest" "k_desktop k1 = d"
    "dt_mouse_x d = dt_mouse_x (k_desktop k)" "dt_mouse_y d = dt_mouse_y (k_desktop k)" "windows d = windows (k_desktop k)"
    using k(1,2) focus_cong [of d "k_desktop k"] by (simp_all add: d_def kernel_ok_def desktop_ok_def io_def k1_def set_io_def)
  have rd: "ReadPort 0x60 (k_io k) = Some (sc, io)" using a sc(1) by (simp add: ReadPort_def io_def)
  have "\<exists>e s' c. keyboard_interrupt n k = Some (k1\<lparr>lastKey := c, k_desktop := e\<rparr>) \<and> desktop_ok e \<and> focus e = Some (p, s')
    \<and> line_ok (sh_tm s') \<and> history_text (sh_tm s') = history_text (sh_tm s) \<and> typed s' = key_step (history_text (sh_tm s)) sc (typed s)
    \<and> dt_mouse_x e = dt_mouse_x d \<and> dt_mouse_y e = dt_mouse_y d \<and> answers (dt_io e) = (if repaints sc then drop 2 rest else rest)
    \<and> windows e = windows d"
  proof (cases "sc AND 0x80 = 0")
    case False
    define e where "e = OnKeyUp (uint (sc AND 0x7F)) d"
    have "keyboard_interrupt n k = Some (k1\<lparr>lastKey := lastKey k1, k_desktop := e\<rparr>)"
      using False rd d(4) by (simp add: keyboard_interrupt_def keyboard_scancode_def on_desktop_def e_def k1_def)
    moreover have "desktop_ok e" "focus e = focus d" 
      using d(1) focus_cong [of e d] by (simp_all add: e_def OnKeyUp_def desktop_ok_def)
    ultimately show ?thesis using False d k(3)
      by (intro exI [of _ e] exI [of _ s] exI [of _ "lastKey k1"]) (simp add: key_step_def repaints_def e_def OnKeyUp_def)
  next
    case True
    let ?c = "ScancodeToAscii sc"
    have u: "uint sc \<noteq> 0x0F" "uint sc \<noteq> 0x1C" "(uint sc = 0x1D) = (sc = 0x1D)" "word_of_int (uint sc) = sc"
      using sc(2,3) by (auto simp: word_uint_eq_iff)
    have "uint sc \<noteq> 0x1D \<Longrightarrow> 2 \<le> ticks d" using t True u(3) d(3) by (simp add: repaints_def ticks_def)
    from OnKeyDown_line [OF d(1,2) k(3) u(1,2) this, of n] obtain e s' where
      e: "OnKeyDown n (uint sc) d = Some e" "desktop_ok e" "focus e = Some (p, s')" "line_ok (sh_tm s')"
        "history_text (sh_tm s') = history_text (sh_tm s)" "dt_mouse_x e = dt_mouse_x d" "dt_mouse_y e = dt_mouse_y d" "windows e = windows d"
        "if sc = 0x1D then typed s' = typed s \<and> answers (dt_io e) = rest
         else typed s' = line_step (uint sc) ?c (history_text (sh_tm s)) (typed s) \<and> answers (dt_io e) = drop 2 rest"
      unfolding u(3,4) d(3) by blast
    define c where "c = (if ?c \<noteq> NUL then ?c else lastKey k1)"
    have "keyboard_interrupt n k = Some (k1\<lparr>lastKey := c, k_desktop := e\<rparr>)"
      using True rd d(4) e(1) no_release_bit [OF True]
      by (simp add: keyboard_interrupt_def keyboard_scancode_def on_desktop_def Let_def c_def k1_def)
    moreover have "repaints sc \<longleftrightarrow> sc \<noteq> 0x1D" using True by (simp add: repaints_def)
    ultimately show ?thesis using e by (intro exI [of _ e] exI [of _ s'] exI [of _ c]) (auto simp: key_step_def)
  qed
  then obtain e s' c where e: "keyboard_interrupt n k = Some (k1\<lparr>lastKey := c, k_desktop := e\<rparr>)" "desktop_ok e" "focus e = Some (p, s')"
    "line_ok (sh_tm s')" "history_text (sh_tm s') = history_text (sh_tm s)" "typed s' = key_step (history_text (sh_tm s)) sc (typed s)"
    "dt_mouse_x e = dt_mouse_x d" "dt_mouse_y e = dt_mouse_y d" "answers (dt_io e) = (if repaints sc then drop 2 rest else rest)"
    "windows e = windows d" by blast
  define k' where "k' = acknowledge_k 0x21 (k1\<lparr>lastKey := c, k_desktop := e\<rparr>)"
  have "HandleInterrupt n waits cr2 0x21 regs k = Some (Returned k' regs)"
    using e(1) by (simp add: HandleInterrupt_def k'_def)
  moreover have "kernel_ok (k1\<lparr>lastKey := c, k_desktop := e\<rparr>)"
    using k(1) e(2,7,8) d(5,6) by (simp add: kernel_ok_def k1_def set_io_def pointer_agrees_def)
  then have "kernel_ok k'" by (simp add: k'_def acknowledge_k_simps)
  moreover have "focus (k_desktop k') = Some (p, s')"
    using e(3) focus_cong [of "k_desktop k'" e] by (simp add: k'_def acknowledge_k_def set_io_def)
  moreover have "answers (k_io k') = (if repaints sc then drop 2 rest else rest)"
    using e(9) unfolding k'_def acknowledge_k_simps(3) by (simp add: k_io_def)
  moreover have "windows (k_desktop k') = windows (k_desktop k)"
    using e(10) d(7) by (simp add: k'_def acknowledge_k_def set_io_def)
  moreover have "active_window e = Some p" "active_window (k_desktop k) = Some p" using e(3) k(2) by (auto elim: focusE)
  then have "active_window (k_desktop k') = active_window (k_desktop k)" by (simp add: k'_def acknowledge_k_def set_io_def)
  ultimately show ?thesis using e(4-6) by (intro exI [of _ k'] exI [of _ s']) (auto simp: typing_ok_def)
qed

section \<open>A run of keys\<close>

text \<open>A key is its scancode with what the clock answers if the desktop repaints for it.\<close>

fun key_answers :: "(u8 \<times> u16 \<times> u16) list \<Rightarrow> u16 list" where
  "key_answers [] = []"
| "key_answers ((sc, h, m) # ks) = ucast sc # (if repaints sc then [h, m] else []) @ key_answers ks"

fun key_interrupts :: "nat \<Rightarrow> nat \<Rightarrow> kernel \<Rightarrow> kernel option" where
  "key_interrupts n 0 k = Some k"
| "key_interrupts n (Suc i) k = (case HandleInterrupt n [] 0 0x21 [] k of
     Some (Returned k' _) \<Rightarrow> key_interrupts n i k' | _ \<Rightarrow> None)"

definition editing_key :: "u8 \<Rightarrow> bool" where
  "editing_key sc \<longleftrightarrow> sc \<noteq> 0x0F \<and> sc \<noteq> 0x1C"

lemma key_interrupts_run:
  assumes "typing_ok k s" and "answers (k_io k) = key_answers ks @ rest" and "list_all (\<lambda>(sc, _). editing_key sc) ks"
  shows "\<exists>k' s'. key_interrupts n (length ks) k = Some k' \<and> typing_ok k' s' \<and> answers (k_io k') = rest
    \<and> active_window (k_desktop k') = active_window (k_desktop k) \<and> windows (k_desktop k') = windows (k_desktop k)
    \<and> typed s' = fold (key_step (history_text (sh_tm s))) (map fst ks) (typed s)"
  using assms
proof (induction ks arbitrary: k s)
  case (Cons x ks)
  obtain sc h m where x: "x = (sc, h, m)" by (cases x)
  let ?rest = "(if repaints sc then [h, m] else []) @ key_answers ks @ rest"
  have a: "answers (k_io k) = ucast sc # ?rest" using Cons.prems(2) x by simp
  have sc: "sc = ucast (ucast sc :: u16)" "sc \<noteq> 0x0F" "sc \<noteq> 0x1C"
    using Cons.prems(3) x by (simp_all add: editing_key_def) (rule bit_word_eqI, simp add: bit_simps)
  have "repaints sc \<Longrightarrow> 2 \<le> length ?rest" by simp
  from key_interrupt_step [OF Cons.prems(1) a sc this, of n "[]" 0 "[]"] obtain k1 s1 where
    k1: "HandleInterrupt n [] 0 0x21 [] k = Some (Returned k1 [])" "typing_ok k1 s1"
      "typed s1 = key_step (history_text (sh_tm s)) sc (typed s)" "history_text (sh_tm s1) = history_text (sh_tm s)"
      "active_window (k_desktop k1) = active_window (k_desktop k)" "windows (k_desktop k1) = windows (k_desktop k)"
      "answers (k_io k1) = key_answers ks @ rest" by (auto split: if_splits)
  have "list_all (\<lambda>(sc, _). editing_key sc) ks" using Cons.prems(3) by simp
  from Cons.IH [OF k1(2,7) this] k1 x show ?case by auto
qed auto

text \<open>The start of the kernel puts the focus on a terminal with an empty line.\<close>

lemma booted_typing:
  assumes "booted pf mbi m b"
  shows "\<exists>s. typing_ok (m_kernel b) s \<and> typed s = ([], 0) \<and> history_text (sh_tm s) = []"
proof -
  let ?d = "k_desktop (m_kernel b)"
  have d: "kernel_ok (m_kernel b)" "windows ?d = [0]" "active_window ?d = Some 0" "list_all fresh_terminal (objects ?d)"
    using assms by (simp_all add: booted_def)
  have l: "0 < length (objects ?d)" using d(1,2) by (simp add: kernel_ok_def desktop_ok_def)
  then have "fresh_terminal (objects ?d ! 0)" using d(4) by (simp add: list_all_length)
  then obtain s where s: "win_shell (objects ?d ! 0) = Some s" "mode (sh_tm s) = SHELL" "line_ok (sh_tm s)"
    "line_text (sh_tm s) = []" "history_text (sh_tm s) = []" by (auto simp: fresh_terminal_def)
  have "focus ?d = Some (0, s)" using d(3) l s(1,2) by (rule focusI)
  moreover have "typed s = ([], 0)"
    using s(3-5) history_length [OF s(3)] by (simp add: typed_def line_ok_def)
  ultimately show ?thesis using d(1) s(3,5) by (auto simp: typing_ok_def)
qed

section \<open>Properties\<close>

text \<open>C12: keys reach the line. Whatever editing keys are pressed and released, one interrupt after the other, on a kernel
  in order whose focus is on a terminal in shell mode, each interrupt returns with the kernel in order and the same window
  in focus, the windows in the same order, and the line and the place in the history are those of the abstract typist after these keys.\<close>

theorem keys_reach_line:
  assumes "typing_ok k s" and "answers (k_io k) = key_answers ks @ rest" and "list_all (\<lambda>(sc, _). editing_key sc) ks"
  shows "\<exists>k' s'. key_interrupts n (length ks) k = Some k' \<and> typing_ok k' s' \<and> answers (k_io k') = rest
    \<and> active_window (k_desktop k') = active_window (k_desktop k) \<and> windows (k_desktop k') = windows (k_desktop k)
    \<and> typed s' = fold (key_step (history_text (sh_tm s))) (map fst ks) (typed s)"
  by (rule key_interrupts_run [OF assms])

text \<open>From power-on to a typed line. On a machine as in \<open>kernel_boots\<close>, \<open>kernel_main\<close> followed by any editing keys
  reaches a kernel in order with the focus on the terminal that \<open>Desktop::Init\<close> opened, whose line is what these keys
  make of an empty line without history.\<close>

theorem boot_then_type:
  assumes "loaded m dsk (as @ h # t # key_answers ks @ rest)" and "controller_ready as"
    and "drive_ok dsk" "disk_superblock dsk = Some sb" "sb_magic sb = 0xEF53 \<Longrightarrow> log_block_size sb \<le> 2"
    and "platform_ok pf mbi" and "record_in_reach ptr" "loader_record (k_mem (m_kernel m)) ptr = mbi" and "list_all (\<lambda>(sc, _). editing_key sc) ks"
  shows "\<exists>b k s. kernel_main (Suc (fb_pages mbi)) pf magic ptr m = Some b \<and> key_interrupts n (length ks) (m_kernel b) = Some k
    \<and> typing_ok k s \<and> typed s = fold (key_step []) (map fst ks) ([], 0)"
proof -
  have "2 \<le> length (h # t # key_answers ks @ rest)" by simp
  from kernel_main_booted [OF assms(1,2) this assms(3-8), of magic] obtain b where
    b: "kernel_main (Suc (fb_pages mbi)) pf magic ptr m = Some b" "booted pf mbi m b" by blast
  from booted_typing [OF b(2)] obtain s where
    s: "typing_ok (m_kernel b) s" "typed s = ([], 0)" "history_text (sh_tm s) = []" by blast
  have "answers (k_io (m_kernel m)) = as @ h # t # key_answers ks @ rest" "length as = 14"
    using assms(1,2) by (auto simp: loaded_def static_kernel_def static_desktop_def k_io_def controller_ready_def)
  then have "answers (k_io (m_kernel b)) = key_answers ks @ rest"
    using b(2) by (simp add: booted_def)
  from key_interrupts_run [OF s(1) this assms(9), of n] b(1) s(2,3) show ?thesis by metis
qed

text \<open>The keys l and s, pressed and released.\<close>

definition demo_keys :: "(u8 \<times> u16 \<times> u16) list" where
  "demo_keys = [(0x26, 0x09, 0x30), (0xA6, 0, 0), (0x1F, 0x09, 0x30), (0x9F, 0, 0)]"

lemma demo_keys_facts:
  "list_all (\<lambda>(sc, _). editing_key sc) demo_keys" "length demo_keys = 4"
  "fold (key_step []) (map fst demo_keys) ([], 0) = (''ls'', 0)"
  by (simp_all add: demo_keys_def editing_key_def key_step_def repaints_def line_step_def ScancodeToAscii_def)

lemma demo_boot:
  "\<exists>b. kernel_main 3 demo_platform 0x2BADB002 0x9000 (demo_machine (0x09 # 0x30 # key_answers demo_keys)) = Some b
    \<and> booted demo_platform demo_multiboot (demo_machine (0x09 # 0x30 # key_answers demo_keys)) b"
proof -
  obtain sb where sb: "disk_superblock volume = Some sb" "sb_magic sb = 0xEF53" "log_block_size sb = 0"
    using volume_superblock by blast
  show ?thesis
    using kernel_main_booted [where magic = "0x2BADB002", OF demo_start(1) [of "0x09 # 0x30 # key_answers demo_keys"] demo_start(2) _ demo_start(3) sb(1)
        _ demo_start(7-9)]
      sb(3) demo_start(4) by (simp add: numeral_3_eq_3)
qed

theorem keys_reach_line_witness:
  "\<exists>b k s. kernel_main 3 demo_platform 0x2BADB002 0x9000 (demo_machine (0x09 # 0x30 # key_answers demo_keys)) = Some b
    \<and> key_interrupts 1 4 (m_kernel b) = Some k \<and> answers (k_io k) = [] \<and> line_text (sh_tm s) = ''ls'' \<and> typing_ok k s
    \<and> active_window (k_desktop k) = Some 0"
proof -
  from demo_boot obtain b where b: "kernel_main 3 demo_platform 0x2BADB002 0x9000 (demo_machine (0x09 # 0x30 # key_answers demo_keys)) = Some b"
    "booted demo_platform demo_multiboot (demo_machine (0x09 # 0x30 # key_answers demo_keys)) b" by blast
  from booted_typing [OF b(2)] obtain s where
    s: "typing_ok (m_kernel b) s" "typed s = ([], 0)" "history_text (sh_tm s) = []" by blast
  have a: "answers (k_io (m_kernel b)) = key_answers demo_keys @ []"
    using b(2) by (simp add: booted_def demo_machine_def static_kernel_def static_desktop_def k_io_def)
  have "active_window (k_desktop (m_kernel b)) = Some 0" using b(2) by (simp add: booted_def)
  with keys_reach_line [OF s(1) a demo_keys_facts(1), of 1] b(1) s(2,3) demo_keys_facts(2,3) show ?thesis
    by (auto simp: typed_def)
qed

theorem boot_then_type_witness:
  "\<exists>b k s. kernel_main 3 demo_platform 0x2BADB002 0x9000 (demo_machine (0x09 # 0x30 # key_answers demo_keys)) = Some b
    \<and> key_interrupts 1 4 (m_kernel b) = Some k \<and> line_text (sh_tm s) = ''ls'' \<and> typing_ok k s"
proof -
  obtain sb where sb: "disk_superblock volume = Some sb" "sb_magic sb = 0xEF53" "log_block_size sb = 0"
    using volume_superblock by blast
  have l: "loaded (demo_machine (0x09 # 0x30 # key_answers demo_keys)) volume
      (replicate 14 1 @ 0x09 # 0x30 # key_answers demo_keys @ [])" using demo_start(1) by simp
  from boot_then_type [where magic = "0x2BADB002" and n = 1, OF l demo_start(2,3) sb(1) _ demo_start(7-9) demo_keys_facts(1)] sb(3) demo_start(4) show ?thesis
    by (auto simp: demo_keys_facts numeral_3_eq_3 typed_def)
qed

end
