(* ===== verification/Session.thy ===== *)
theory Session
  imports Typing
begin

text \<open>
  A session: the kernel as \<open>kernel_main\<close> leaves it, driven by interrupts of the keyboard, the mouse and the timer in
  any order. A step is one interrupt through the handler; the devices' answers come with it. The mouse moves, focuses
  and drags windows but leaves the shells alone, so what is typed depends on the keys alone.
\<close>

section \<open>Steps\<close>

definition with_answers :: "u16 list \<Rightarrow> kernel \<Rightarrow> kernel" where
  "with_answers as k = set_io ((k_io k)\<lparr>answers := as\<rparr>) k"

text \<open>An event is a vector with what the devices will answer.\<close>

inductive sys_step :: "kernel \<Rightarrow> u8 \<times> u16 list \<Rightarrow> kernel \<Rightarrow> bool" where
  sys_step: "HandleInterrupt n waits cr2 v regs (with_answers as k) = Some (Returned k' regs') \<Longrightarrow> sys_step k (v, as) k'"

inductive sys_run :: "kernel \<Rightarrow> (u8 \<times> u16 list) list \<Rightarrow> kernel \<Rightarrow> bool" where
  stop: "sys_run k [] k"
| more: "sys_step k e k1 \<Longrightarrow> sys_run k1 es k' \<Longrightarrow> sys_run k (e # es) k'"

inductive_cases sys_stepE: "sys_step k (v, as) k'"
inductive_simps sys_run_Nil [simp]: "sys_run k [] k'"
inductive_simps sys_run_Cons [simp]: "sys_run k (e # es) k'"

text \<open>The events of a session: editing keys, the mouse, and every vector that only needs its acknowledgement. The devices have
  answers for what the handler reads.\<close>

definition session_event :: "u8 \<times> u16 list \<Rightarrow> bool" where
  "session_event e \<longleftrightarrow> (case e of (v, as) \<Rightarrow>
     if v = 0x21 then as \<noteq> [] \<and> editing_key (ucast (hd as)) \<and> (repaints (ucast (hd as)) \<longrightarrow> 3 \<le> length as)
     else v \<noteq> 14 \<and> v \<noteq> 0x80 \<and> 6 \<le> length as)"

definition session_key :: "string list \<Rightarrow> u8 \<times> u16 list \<Rightarrow> string \<times> int \<Rightarrow> string \<times> int" where
  "session_key hist e x = (if fst e = 0x21 then key_step hist (ucast (hd (snd e))) x else x)"

section \<open>What the mouse leaves alone\<close>

definition same_shells :: "desktop \<Rightarrow> desktop \<Rightarrow> bool" where
  "same_shells d e \<longleftrightarrow> map win_shell (objects e) = map win_shell (objects d) \<and> windows e = windows d
     \<and> (active_window e = active_window d \<or> (\<exists>q \<in> set (windows d). active_window e = Some q))"

lemma same_shells_refl [simp]: "same_shells d d"
  by (simp add: same_shells_def)

lemma same_shells_trans: "same_shells d e \<Longrightarrow> same_shells e f \<Longrightarrow> same_shells d f"
  by (auto simp: same_shells_def)

lemma same_desktop_shells: "same_desktop d e \<Longrightarrow> same_shells d e"
  by (simp add: same_shells_def same_desktop_fields)

lemma Draw_same: "Desktop_Draw d = Some e \<Longrightarrow> same_desktop d e"
  by (auto simp: Desktop_Draw_def same_desktop_def bind_eq_Some_conv Let_def split: prod.splits)

lemma Draw_shells: "Desktop_Draw d1 = Some e \<Longrightarrow> same_shells d d1 \<Longrightarrow> same_shells d e"
  using Draw_same same_desktop_shells same_shells_trans by blast

lemma hit_scan_mem: "hit_scan ps d = Some (Some (p, w)) \<Longrightarrow> p \<in> set ps"
  by (induction ps) (auto simp: bind_eq_Some_conv split: if_splits)

lemma set_window_shells:
  "get_window d p = Some w \<Longrightarrow> win_shell w' = win_shell w \<Longrightarrow> same_shells d (set_window p w' d)"
  by (auto simp: same_shells_def set_window_def get_window_def arr_get_def map_update list_update_same_conv split: if_splits)

lemma do_call_shells:
  assumes "do_call c d = Some e"
  shows "same_shells d e"
proof (cases c)
  case (MouseMove x y)
  let ?d = "d\<lparr>dt_mouse_x := x, dt_mouse_y := y\<rparr>"
  have s: "same_shells d ?d" by (simp add: same_shells_def)
  show ?thesis
  proof (cases "drag_window d")
    case None
    then show ?thesis using assms MouseMove s by (auto simp: OnMouseMove_def intro: Draw_shells)
  next
    case (Some p)
    then obtain w where w: "get_window ?d p = Some w"
      "Desktop_Draw (set_window p (w\<lparr>win_x := x - drag_offset_x d, win_y := y - drag_offset_y d\<rparr>) ?d) = Some e"
      using assms MouseMove by (auto simp: OnMouseMove_def Let_def bind_eq_Some_conv)
    have "same_shells d (set_window p (w\<lparr>win_x := x - drag_offset_x d, win_y := y - drag_offset_y d\<rparr>) ?d)"
      by (rule same_shells_trans [OF s set_window_shells [OF w(1)]]) simp
    then show ?thesis using w(2) by (rule Draw_shells [rotated])
  qed
next
  case (MouseDown b)
  show ?thesis
  proof (cases "b = 1 \<and> \<not> (560 < dt_mouse_y d \<and> dt_mouse_x d < 90)")
    case True
    then obtain r where r: "hit_scan (rev (windows d)) d = Some r" using assms MouseDown
      by (auto simp: OnMouseDown_def bind_eq_Some_conv)
    show ?thesis
    proof (cases r)
      case None
      then show ?thesis using True assms MouseDown r by (auto simp: OnMouseDown_def split: if_splits)
    next
      case (Some pw)
      then obtain p w where pw: "pw = (p, w)" "p \<in> set (windows d)" using hit_scan_mem r by (cases pw) fastforce
      define d2 where "d2 = (let d1 = d\<lparr>active_window := Some p\<rparr> in
        if dt_mouse_y d < win_y w + 20
        then d1\<lparr>drag_window := Some p, drag_offset_x := dt_mouse_x d - win_x w, drag_offset_y := dt_mouse_y d - win_y w\<rparr> else d1)"
      have "Desktop_Draw d2 = Some e" using True assms MouseDown r Some pw(1)
        by (auto simp: OnMouseDown_def Let_def d2_def split: if_splits)
      moreover have "same_shells d d2" using pw(2) by (simp add: same_shells_def d2_def Let_def)
      ultimately show ?thesis by (rule Draw_shells)
    qed
  next
    case False
    have m: "same_shells d (d\<lparr>show_start_menu := \<not> show_start_menu d\<rparr>)" by (simp add: same_shells_def)
    show ?thesis using False assms MouseDown Draw_shells [OF _ m] by (auto simp: OnMouseDown_def split: if_splits)
  qed
next
  case (MouseUp b)
  then show ?thesis using assms by (auto simp: OnMouseUp_def same_shells_def)
qed

lemma run_calls_shells: "run_calls cs d = Some e \<Longrightarrow> same_shells d e"
proof (induction cs arbitrary: d)
  case (Cons c cs)
  then obtain d1 where "do_call c d = Some d1" "run_calls cs d1 = Some e" by (auto simp: bind_eq_Some_conv)
  then show ?case using Cons.IH do_call_shells same_shells_trans by blast
qed simp

lemma mouse_interrupt_shells: "mouse_interrupt k = Some k1 \<Longrightarrow> same_shells (k_desktop k) (k_desktop k1)"
proof -
  assume "mouse_interrupt k = Some k1"
  then obtain m calls io e where e: "run_calls calls (k_desktop (set_io io (k\<lparr>k_mouse := m\<rparr>))) = Some e" "k_desktop k1 = e"
    by (auto simp: mouse_interrupt_def on_desktop_def bind_eq_Some_conv split: prod.splits)
  have "same_shells (k_desktop k) (k_desktop (set_io io (k\<lparr>k_mouse := m\<rparr>)))" by (simp add: same_shells_def set_io_def)
  then show ?thesis using run_calls_shells [OF e(1)] e(2) same_shells_trans by blast
qed

section \<open>One step of a session\<close>

text \<open>The kernel is in order and one terminal in shell mode lies on the desktop and has the focus.\<close>

definition session_ok :: "kernel \<Rightarrow> shell \<Rightarrow> bool" where
  "session_ok k s \<longleftrightarrow> typing_ok k s \<and> (\<exists>p. windows (k_desktop k) = [p] \<and> active_window (k_desktop k) = Some p)"

lemma shells_focus:
  assumes "same_shells d e" "windows d = [p]" "active_window d = Some p" "focus d = Some (p, s)"
  shows "windows e = [p]" "active_window e = Some p" "focus e = Some (p, s)"
proof -
  show e: "windows e = [p]" "active_window e = Some p" using assms(1-3) by (auto simp: same_shells_def)
  from assms(4) have p: "p < length (objects d)" "win_shell (objects d ! p) = Some s" "mode (sh_tm s) = SHELL"
    by (auto elim!: focusE)
  have m: "map win_shell (objects e) = map win_shell (objects d)" using assms(1) by (simp add: same_shells_def)
  from arg_cong [OF m, of length] have l: "length (objects e) = length (objects d)" by simp
  have "win_shell (objects e ! p) = win_shell (objects d ! p)"
    using arg_cong [OF m, of "\<lambda>l. l ! p"] p(1) l by simp
  then show "focus e = Some (p, s)" using e(2) p l by (intro focusI) simp_all
qed

lemma typing_focus: "typing_ok k s \<Longrightarrow> active_window (k_desktop k) = Some p \<Longrightarrow> focus (k_desktop k) = Some (p, s)"
  by (auto simp: typing_ok_def elim!: focusE) (auto simp: focus_def)

lemma with_answers_facts:
  "k_io (with_answers as k) = (k_io k)\<lparr>answers := as\<rparr>" "same_shells (k_desktop k) (k_desktop (with_answers as k))"
  "kernel_ok (with_answers as k) = kernel_ok k"
  by (simp_all add: with_answers_def set_io_def k_io_def same_shells_def kernel_ok_def desktop_ok_def pointer_agrees_def)

lemma session_shells:
  assumes "session_ok k s" "same_shells (k_desktop k) (k_desktop k')" "kernel_ok k'"
  shows "session_ok k' s"
proof -
  from assms(1) obtain p where p: "typing_ok k s" "windows (k_desktop k) = [p]" "active_window (k_desktop k) = Some p"
    by (auto simp: session_ok_def)
  note f = shells_focus [OF assms(2) p(2,3) typing_focus [OF p(1,3)]]
  show ?thesis using f p(1) assms(3) by (auto simp: session_ok_def typing_ok_def)
qed

text \<open>Any interrupt of a session, with any parameters, returns and does to the line what its key says.\<close>

lemma session_handle:
  assumes ok: "session_ok k s" and e: "session_event (v, as)"
  shows "\<exists>k' s'. HandleInterrupt n waits cr2 v regs (with_answers as k) = Some (Returned k' regs) \<and> session_ok k' s'
    \<and> typed s' = session_key (history_text (sh_tm s)) (v, as) (typed s) \<and> history_text (sh_tm s') = history_text (sh_tm s)"
proof -
  let ?k = "with_answers as k"
  have k: "kernel_ok k" using ok by (simp add: session_ok_def typing_ok_def)
  then have ok1: "session_ok ?k s" by (intro session_shells [OF ok]) (simp_all add: with_answers_facts)
  have a: "answers (k_io ?k) = as" by (simp add: with_answers_facts)
  show ?thesis
  proof (cases "v = 0x21")
    case True
    obtain x rest where x: "as = x # rest" using e True by (cases as) (auto simp: session_event_def)
    let ?sc = "ucast x :: u8"
    have sc: "?sc = ucast x" "?sc \<noteq> 0x0F" "?sc \<noteq> 0x1C" "repaints ?sc \<Longrightarrow> 2 \<le> length rest"
      using e True x by (auto simp: session_event_def editing_key_def)
    from ok1 obtain p where p: "typing_ok ?k s" "windows (k_desktop ?k) = [p]" "active_window (k_desktop ?k) = Some p"
      by (auto simp: session_ok_def)
    from key_interrupt_step [OF p(1) _ sc, of n waits cr2 regs] a x obtain k' s' where
      k': "HandleInterrupt n waits cr2 0x21 regs ?k = Some (Returned k' regs)" "typing_ok k' s'"
        "typed s' = key_step (history_text (sh_tm s)) ?sc (typed s)" "history_text (sh_tm s') = history_text (sh_tm s)"
        "windows (k_desktop k') = windows (k_desktop ?k)" "active_window (k_desktop k') = active_window (k_desktop ?k)" by auto
    then show ?thesis using True x p by (auto simp: session_ok_def session_key_def)
  next
    case False
    then have v: "v \<noteq> 14" "v \<noteq> 0x80" "6 \<le> length as" using e by (auto simp: session_event_def)
    have "\<exists>k1. (if v = 0x2C then mouse_interrupt ?k else Some ?k) = Some k1 \<and> kernel_ok k1
      \<and> same_shells (k_desktop ?k) (k_desktop k1)"
    proof (cases "v = 0x2C")
      case True
      have "kernel_ok ?k" "6 \<le> length (answers (k_io ?k))" using k v(3) by (simp_all add: with_answers_facts)
      then show ?thesis using True mouse_interrupt_ok mouse_interrupt_shells by fastforce
    qed (use k in \<open>simp add: with_answers_facts\<close>)
    then obtain k1 where k1: "(if v = 0x2C then mouse_interrupt ?k else Some ?k) = Some k1" "kernel_ok k1"
      "same_shells (k_desktop ?k) (k_desktop k1)" by blast
    let ?k' = "acknowledge_k v k1"
    have "HandleInterrupt n waits cr2 v regs ?k = Some (Returned ?k' regs)"
      using k1(1) v False by (simp add: HandleInterrupt_def split: if_splits)
    moreover have "same_shells (k_desktop k1) (k_desktop ?k')" by (simp add: same_shells_def acknowledge_k_def set_io_def)
    then have "session_ok ?k' s" 
      using k1(2,3) same_shells_trans by (intro session_shells [OF ok1]) (auto simp: acknowledge_k_simps)
    ultimately show ?thesis using False by (intro exI [of _ ?k'] exI [of _ s]) (simp add: session_key_def)
  qed
qed

lemma session_step:
  assumes "session_ok k s" "session_event e" "sys_step k e k'"
  shows "\<exists>s'. session_ok k' s' \<and> typed s' = session_key (history_text (sh_tm s)) e (typed s)
    \<and> history_text (sh_tm s') = history_text (sh_tm s)"
proof (cases e)
  case (Pair v as)
  from assms(3) [unfolded Pair] obtain n waits cr2 regs regs' where
    h: "HandleInterrupt n waits cr2 v regs (with_answers as k) = Some (Returned k' regs')" by (rule sys_stepE)
  from session_handle [OF assms(1), of v as n waits cr2 regs] assms(2) h Pair show ?thesis by auto
qed

lemma session_progress:
  assumes "session_ok k s" "session_event e"
  shows "\<exists>k'. sys_step k e k'"
proof (cases e)
  case (Pair v as)
  then show ?thesis using session_handle [OF assms(1), of v as 0 "[]" 0 "[]"] assms(2) sys_step.intros by blast
qed

section \<open>Runs\<close>

lemma session_run:
  "sys_run k es k' \<Longrightarrow> session_ok k s \<Longrightarrow> list_all session_event es \<Longrightarrow>
   \<exists>s'. session_ok k' s' \<and> typed s' = fold (session_key (history_text (sh_tm s))) es (typed s)"
proof (induction arbitrary: s rule: sys_run.induct)
  case (more k e k1 es k')
  from session_step [OF more.prems(1) _ more.hyps(1)] more.prems(2) obtain s1 where
    s1: "session_ok k1 s1" "typed s1 = session_key (history_text (sh_tm s)) e (typed s)"
      "history_text (sh_tm s1) = history_text (sh_tm s)" by auto
  from more.IH [OF s1(1)] more.prems(2) s1(2,3) show ?case by auto
qed auto

lemma session_runs: "session_ok k s \<Longrightarrow> list_all session_event es \<Longrightarrow> \<exists>k'. sys_run k es k'"
proof (induction es arbitrary: k s)
  case (Cons e es)
  have e: "session_event e" "list_all session_event es" using Cons.prems(2) by simp_all
  obtain k1 where k1: "sys_step k e k1" using session_progress [OF Cons.prems(1) e(1)] by blast
  obtain s1 where "session_ok k1 s1" using session_step [OF Cons.prems(1) e(1) k1] by blast
  from Cons.IH [OF this e(2)] k1 show ?case by auto
qed (auto intro: stop)

lemma booted_session:
  assumes "booted pf mbi m b"
  shows "\<exists>s. session_ok (m_kernel b) s \<and> typed s = ([], 0) \<and> history_text (sh_tm s) = []"
  using booted_typing [OF assms] assms by (auto simp: session_ok_def booted_def)

section \<open>Properties\<close>

text \<open>C2: what is typed depends on the keys alone. From the kernel as \<open>kernel_main\<close> leaves it, any interleaving of editing
  keys with interrupts of the mouse, the timer and the other lines runs to its end, one interrupt after the other. After
  every such run the kernel is in order, the terminal is still the window in focus, however the mouse has pointed,
  clicked and dragged, and its line is what the keys of the run, in their order, make of an empty line.\<close>

theorem session_types:
  assumes "booted pf mbi m b" and "list_all session_event es"
  shows "(\<exists>k. sys_run (m_kernel b) es k)
    \<and> (\<forall>k. sys_run (m_kernel b) es k \<longrightarrow> (\<exists>s. session_ok k s \<and> typed s = fold (session_key []) es ([], 0)))"
proof -
  from booted_session [OF assms(1)] obtain s where
    s: "session_ok (m_kernel b) s" "typed s = ([], 0)" "history_text (sh_tm s) = []" by blast
  show ?thesis using session_runs [OF s(1) assms(2)] session_run [OF _ s(1) assms(2)] unfolding s(2,3) by blast
qed

text \<open>The key l, a mouse packet's first byte with the button down, the key s, the timer, a byte of movement.\<close>

definition demo_events :: "(u8 \<times> u16 list) list" where
  "demo_events = [(0x21, [0x26, 0x09, 0x30]), (0x2C, [0x21, 0x09, 1, 2, 3, 4]), (0x21, [0x1F, 0x09, 0x30]),
     (0x20, replicate 6 0), (0x2C, [0x21, 0x05, 1, 2, 3, 4])]"

theorem session_types_witness:
  "\<exists>b k s. booted demo_platform demo_multiboot (demo_machine (0x09 # 0x30 # key_answers demo_keys)) b
    \<and> sys_run (m_kernel b) demo_events k \<and> session_ok k s \<and> line_text (sh_tm s) = ''ls''"
proof -
  obtain b where b: "booted demo_platform demo_multiboot (demo_machine (0x09 # 0x30 # key_answers demo_keys)) b"
    using demo_boot by blast
  have e: "list_all session_event demo_events"
    by (simp add: demo_events_def session_event_def editing_key_def)
  have "fold (session_key []) demo_events ([], 0) = (''ls'', 0)"
    by (simp add: demo_events_def session_key_def key_step_def repaints_def line_step_def ScancodeToAscii_def)
  with session_types [OF b e] obtain k s where
    "sys_run (m_kernel b) demo_events k" "session_ok k s" "typed s = (''ls'', 0)" by metis
  then show ?thesis using b by (auto simp: typed_def)
qed

end
