(* ===== verification/SdkHeap.thy ===== *)
theory SdkHeap
  imports UserHeap
begin

text \<open>
  The allocator of the first SDK, legacy_v1/sdk/stdlib.cpp: first fit on a list that grows at its end, blocks
  rounded to eight bytes, \<open>calloc\<close> and \<open>realloc\<close> on top. The kernel that served its \<open>sbrk\<close> (number 11) is not in
  the repository, so the wrapper \<open>sbrk\<close> together with the call behind it is a parameter \<open>brk\<close>, taken as the
  source means it, with its argument outside EAX (\<open>sdk_sbrk\<close> of theory SdkPrograms has its registers, and what
  happens when the compiler chooses EAX); \<open>sbrk_ok\<close> states what such a call does: all ones for a failure, else
  the start of a new area at the end of the program.
\<close>

section \<open>Operations\<close>

text \<open>The search remembers the last block it saw.\<close>

partial_function (option) sdk_search :: "memory \<Rightarrow> u32 \<Rightarrow> u32 \<Rightarrow> u32 \<Rightarrow> (u32 \<times> u32) option" where
  [code]: "sdk_search m n current before =
     (if current = 0 then Some (0, before)
      else if m (current + 4) \<noteq> 0 \<and> n \<le> load32 m current then Some (current, before)
      else sdk_search m n (load32 m (current + 8)) current)"

definition aligned_size :: "u32 \<Rightarrow> u32" where
  "aligned_size n = (n + 7) AND NOT 7"

lemma aligned_size_wraps: "aligned_size (- 1) = 0"
  by (simp add: aligned_size_def)

definition sdk_malloc :: "(u32 \<Rightarrow> 'k \<Rightarrow> u32 \<times> 'k) \<Rightarrow> u32 \<Rightarrow> 'k user \<Rightarrow> (u32 \<times> 'k user) option" where
  "sdk_malloc brk n u =
     (if n = 0 then Some (0, u)
      else do {
        let total_size = 12 + aligned_size n;
        (current, before) \<leftarrow> sdk_search (umem u) (aligned_size n) (heap_head u) 0;
        if current \<noteq> 0 then Some (current + 12, u\<lparr>umem := (umem u)(current + 4 := 0)\<rparr>)
        else let (p, k) = brk total_size (kern u) in
          if p = -1 then Some (0, u\<lparr>kern := k\<rparr>)
          else let m = store_header p (aligned_size n) 0 (umem u) in
            Some (p + 12, if before \<noteq> 0 then u\<lparr>umem := store32 (before + 8) p m, kern := k\<rparr>
              else u\<lparr>umem := m, heap_head := p, kern := k\<rparr>)
      })"

definition sdk_free :: "u32 \<Rightarrow> 'k user \<Rightarrow> 'k user" where
  "sdk_free p u = (if p = 0 then u else u\<lparr>umem := (umem u)(p - 12 + 4 := 1)\<rparr>)"

fun fill_bytes :: "nat \<Rightarrow> u32 \<Rightarrow> u8 \<Rightarrow> memory \<Rightarrow> memory" where
  "fill_bytes 0 p v m = m"
| "fill_bytes (Suc i) p v m = (fill_bytes i p v m)(p + of_nat i := v)"

fun copy_bytes :: "nat \<Rightarrow> u32 \<Rightarrow> u32 \<Rightarrow> memory \<Rightarrow> memory" where
  "copy_bytes 0 d s m = m"
| "copy_bytes (Suc i) d s m = (let m1 = copy_bytes i d s m in m1(d + of_nat i := m1 (s + of_nat i)))"

definition sdk_calloc :: "(u32 \<Rightarrow> 'k \<Rightarrow> u32 \<times> 'k) \<Rightarrow> u32 \<Rightarrow> u32 \<Rightarrow> 'k user \<Rightarrow> (u32 \<times> 'k user) option" where
  "sdk_calloc brk num sz u = do {
     let total = num * sz;
     (p, u1) \<leftarrow> sdk_malloc brk total u;
     Some (p, if p \<noteq> 0 then u1\<lparr>umem := fill_bytes (unat total) p 0 (umem u1)\<rparr> else u1)
   }"

definition sdk_realloc :: "(u32 \<Rightarrow> 'k \<Rightarrow> u32 \<times> 'k) \<Rightarrow> u32 \<Rightarrow> u32 \<Rightarrow> 'k user \<Rightarrow> (u32 \<times> 'k user) option" where
  "sdk_realloc brk p n u =
     (if p = 0 then sdk_malloc brk n u
      else if n = 0 then Some (0, sdk_free p u)
      else if n \<le> load32 (umem u) (p - 12) then Some (p, u)
      else do {
        (q, u1) \<leftarrow> sdk_malloc brk n u;
        Some (q, if q \<noteq> 0 then sdk_free p (u1\<lparr>umem := copy_bytes (unat (load32 (umem u1) (p - 12))) q p (umem u1)\<rparr>) else u1)
      })"

section \<open>The pieces\<close>

lemma sdk_free_eq: "sdk_free = user_free"
  by (simp add: fun_eq_iff sdk_free_def user_free_def)

lemma sdk_search_chain:
  "chain m p bs \<Longrightarrow> (case List.find (fits n) bs of
      None \<Rightarrow> sdk_search m n p l = Some (0, if bs = [] then l else b_addr (last bs))
    | Some b \<Rightarrow> \<exists>l'. sdk_search m n p l = Some (b_addr b, l'))"
proof (induction bs arbitrary: p l)
  case Nil
  then show ?case by (simp add: sdk_search.simps)
next
  case (Cons b bs)
  show ?case
  proof (cases "fits n b")
    case True
    then show ?thesis using Cons.prems by (subst sdk_search.simps) (auto simp: fits_def)
  next
    case False
    then have "sdk_search m n p l = sdk_search m n (load32 m (p + 8)) p"
      using Cons.prems by (subst sdk_search.simps) (auto simp: fits_def)
    then show ?thesis using Cons False by (auto split: option.splits)
  qed
qed

lemma aligned_size_unat:
  assumes "unat n < 2 ^ 31"
  shows "unat n \<le> unat (aligned_size n)" "unat (aligned_size n) < unat n + 8"
proof -
  have u: "unat (n + 7) = unat n + 7" using assms by (subst unat_plus_no_wrap) simp_all
  have seven: "(7 :: u32) = mask 3" by (simp add: mask_eq_exp_minus_1)
  have "aligned_size n = push_bit 3 (drop_bit 3 (n + 7))"
    unfolding aligned_size_def seven by (rule bit_word_eqI) (auto simp: bit_simps)
  moreover have "unat (drop_bit 3 (n + 7)) = unat (n + 7) div 8" by (simp add: drop_bit_eq_div unat_div)
  moreover have "unat (push_bit 3 w) = unat w * 8" if "unat w * 8 < 2 ^ 32" for w :: u32
    using that by (simp add: push_bit_eq_mult unat_word_ariths mult.commute)
  moreover have "unat (n + 7) div 8 * 8 < 2 ^ 32"
    using div_times_less_eq_dividend [of "unat (n + 7)" 8] unat_u32_less [of "n + 7"] by simp
  ultimately have "unat (aligned_size n) = unat (n + 7) div 8 * 8" by simp
  then show "unat n \<le> unat (aligned_size n)" "unat (aligned_size n) < unat n + 8" using u by linarith+
qed

lemma fill_bytes_spec:
  "i \<le> 2 ^ 32 - unat p \<Longrightarrow> fill_bytes i p v m a = (if unat a \<in> {unat p ..< unat p + i} then v else m a)"
proof (induction i)
  case (Suc i)
  have "unat (p + of_nat i) = unat p + i" using Suc.prems by (simp add: unat_word_ariths unat_of_nat)
  then show ?case using Suc by (auto simp: word_unat_eq_iff)
qed simp

lemma copy_bytes_spec:
  assumes "unat d + i \<le> 2 ^ 32" "unat s + i \<le> 2 ^ 32" "{unat d ..< unat d + i} \<inter> {unat s ..< unat s + i} = {}"
  shows "same_on (- {unat d ..< unat d + i}) m (copy_bytes i d s m)
    \<and> (\<forall>j < i. copy_bytes i d s m (d + of_nat j) = m (s + of_nat j))"
  using assms
proof (induction i)
  case (Suc i)
  have o: "unat (d + of_nat j) = unat d + j" "unat (s + of_nat j) = unat s + j" if "j \<le> i" for j
    using Suc.prems(1,2) that unat_offset [of d j] unat_offset [of s j] by simp_all
  have "{unat d ..< unat d + i} \<inter> {unat s ..< unat s + i} = {}"
    using Suc.prems(3) [unfolded disjoint_iff] unfolding disjoint_iff by auto
  then have IH: "same_on (- {unat d ..< unat d + i}) m (copy_bytes i d s m)"
    "\<forall>j < i. copy_bytes i d s m (d + of_nat j) = m (s + of_nat j)" using Suc.IH Suc.prems(1,2) by simp_all
  have "unat s + i \<notin> {unat d ..< unat d + Suc i}" using Suc.prems(3) [unfolded disjoint_iff] by auto
  then have src: "copy_bytes i d s m (s + of_nat i) = m (s + of_nat i)"
    using IH(1) o(2) [of i] by (auto simp: same_on_def)
  have ne: "d + of_nat j \<noteq> d + of_nat i" if "j < i" for j using o(1) [of i] o(1) [of j] that by (metis less_imp_le nat_add_left_cancel_less nat_neq_iff order_refl)
  have "same_on (- {unat d ..< unat d + Suc i}) m (copy_bytes (Suc i) d s m)"
    using IH(1) o(1) [of i] by (auto simp: same_on_def Let_def)
  moreover have "copy_bytes (Suc i) d s m (d + of_nat j) = m (s + of_nat j)" if "j < Suc i" for j
    using IH(2) src ne that by (cases "j = i") (auto simp: Let_def)
  ultimately show ?case by blast
qed simp

section \<open>The list grows at its end\<close>

text \<open>Linking a new block behind the last one.\<close>

lemma chain_append:
  assumes c: "chain m p (xs @ [c])" and ap: "\<forall>x \<in> set xs. apart c x" and bl: "\<forall>x \<in> set (xs @ [c]). block_in lo hi x" "hi \<le> 2 ^ 32"
    and q: "chain m q [b]" "q = b_addr b" and ab: "hi \<le> unat q" "unat q + 12 \<le> 2 ^ 32"
  shows "chain (store32 (b_addr c + 8) q m) p (xs @ [c, b])"
proof -
  let ?a = "b_addr c" and ?m = "store32 (b_addr c + 8) q m"
  have inc: "unat ?a + 12 \<le> hi" using bl(1) by (auto simp: block_in_def)
  then have o: "unat (?a + 4) = unat ?a + 4" "unat (?a + 8) = unat ?a + 8" using bl(2) by (simp_all add: unat_offsets)
  have same: "same_on A m ?m" if "A \<inter> header c = {}" for A
    using inc bl(2) that by (intro store32_same_on) (auto simp: o header_def)
  have s8: "same_on {unat ?a ..< unat ?a + 8} m ?m" using inc bl(2) by (intro store32_same_on) (auto simp: o)
  have h: "load32 ?m ?a = load32 m ?a"
    by (rule load32_same) (use inc bl(2) same_on_mono [OF s8, of "{unat ?a ..< unat ?a + 4}"] in auto)
  have h': "?m (?a + 4) = m (?a + 4)" using s8 by (simp add: same_on_def o)
  have "{unat q ..< unat q + 12} \<inter> header c = {}" using inc ab(1) by (auto simp: header_def)
  then have hq: "load32 ?m q = load32 m q" "load32 ?m (q + 8) = load32 m (q + 8)" "?m (q + 4) = m (q + 4)"
    using header_same [OF ab(2) same] by simp_all
  have "chain ?m r [c, b]" if "chain m r [c]" for r
    using that q h h' hq by auto
  moreover have "\<forall>x \<in> set xs. block_in lo hi x \<and> same_on (header x) m ?m"
    using bl(1) ap apartD(1) by (auto intro!: same)
  ultimately show ?thesis using bl(2) by (intro chain_prefix [OF c]) auto
qed

text \<open>What the kernel's \<open>sbrk\<close> did: a failure is all ones and leaves the end of the program where it was.\<close>

definition sbrk_ok :: "(u32 \<Rightarrow> 'k \<Rightarrow> u32 \<times> 'k) \<Rightarrow> ('k \<Rightarrow> nat) \<Rightarrow> nat \<Rightarrow> bool" where
  "sbrk_ok brk pend limit \<longleftrightarrow> limit < 2 ^ 32 - 1 \<and> (\<forall>n k. pend k \<le> limit \<longrightarrow> 0 < pend k \<longrightarrow> unat n < 2 ^ 31 \<longrightarrow>
     (let (p, k') = brk n k in if p = -1 then pend k' = pend k
        else unat p = pend k \<and> pend k' = pend k + unat n \<and> pend k' \<le> limit))"

lemma sbrk_okD:
  assumes "sbrk_ok brk pend limit" "pend k \<le> limit" "0 < pend k" "unat n < 2 ^ 31" "brk n k = (p, k')"
  shows "p = -1 \<Longrightarrow> pend k' = pend k" "p \<noteq> -1 \<Longrightarrow> unat p = pend k \<and> pend k' = pend k + unat n \<and> pend k' \<le> limit"
    "limit < 2 ^ 32 - 1"
  using assms unfolding sbrk_ok_def by (fastforce split: if_splits)+

text \<open>The heap of a program: its blocks between \<open>lo\<close> and the program's end.\<close>

definition sdk_heap :: "('k \<Rightarrow> nat) \<Rightarrow> nat \<Rightarrow> nat \<Rightarrow> 'k user \<Rightarrow> blk list \<Rightarrow> bool" where
  "sdk_heap pend limit lo u bs \<longleftrightarrow> heap_repr lo (pend (kern u)) u bs \<and> lo \<le> pend (kern u) \<and> pend (kern u) \<le> limit \<and> 0 < pend (kern u)"

text \<open>A fresh block behind the others: the first of all, or linked to the last.\<close>

lemma sdk_malloc_fresh:
  assumes sb: "sbrk_ok brk pend limit" and h: "sdk_heap pend limit lo u bs" and n: "n \<noteq> 0" "unat n < 2 ^ 31 - 20"
    and none: "List.find (fits (aligned_size n)) bs = None"
  shows "\<exists>p u' bs'. sdk_malloc brk n u = Some (p, u') \<and> sdk_heap pend limit lo u' bs'
    \<and> (\<forall>c \<in> set bs. same_on (block (data c)) (umem u) (umem u'))
    \<and> (if p = 0 then bs' = bs \<and> fst (brk (12 + aligned_size n) (kern u)) = -1
       else (unat p, unat (aligned_size n)) \<notin> live bs \<and> live bs' = insert (unat p, unat (aligned_size n)) (live bs))"
proof -
  let ?a = "aligned_size n" and ?f = "pend (kern u)"
  have rep: "chain (umem u) (heap_head u) bs" "sorted_wrt apart bs" "\<forall>b \<in> set bs. block_in lo ?f b"
    and f: "lo \<le> ?f" "?f \<le> limit" "0 < ?f" using h by (simp_all add: sdk_heap_def heap_repr_def)
  have "unat n < 2 ^ 31" using n(2) by simp
  from aligned_size_unat(2) [OF this] have a: "unat ?a + 12 < 2 ^ 31" using n(2) by simp
  then have t: "unat (12 + ?a) = 12 + unat ?a" by (subst unat_plus_no_wrap) simp_all
  obtain q k where qk: "brk (12 + ?a) (kern u) = (q, k)" by (cases "brk (12 + ?a) (kern u)")
  have t31: "unat (12 + ?a) < 2 ^ 31" using a t by simp
  note sbD = sbrk_okD [OF sb f(2,3) t31 qk]
  have se: "sdk_search (umem u) ?a (heap_head u) 0 = Some (0, if bs = [] then 0 else b_addr (last bs))"
    using sdk_search_chain [OF rep(1), of ?a 0] none by simp
  show ?thesis
  proof (cases "q = -1")
    case True
    have "sdk_malloc brk n u = Some (0, u\<lparr>kern := k\<rparr>)" using se qk True n(1) by (simp add: sdk_malloc_def)
    moreover have "sdk_heap pend limit lo (u\<lparr>kern := k\<rparr>) bs" using h sbD(1) True by (simp add: sdk_heap_def heap_repr_def)
    ultimately show ?thesis using qk True by (intro exI [of _ 0] exI [of _ "u\<lparr>kern := k\<rparr>"] exI [of _ bs]) simp
  next
    case False
    have q: "unat q = ?f" "pend k = ?f + 12 + unat ?a" "pend k \<le> limit" "limit < 2 ^ 32 - 1" using sbD False t by simp_all
    have q12: "unat q + 12 < 2 ^ 32" "unat (q + 12) = unat q + 12" "q \<noteq> 0"
      using q f(3) by (auto simp: unat_offsets)
    have p0: "q + 12 \<noteq> 0" using q12 by (metis add_eq_0_iff_both_eq_0 unsigned_0 zero_neq_numeral)
    define m where "m = store_header q ?a 0 (umem u)"
    define nb where "nb = \<lparr>b_addr = q, b_size = ?a, b_free = False\<rparr>"
    have below: "same_on A (umem u) m" if "A \<subseteq> {0 ..< unat q}" for A
      unfolding m_def using q12 that by (intro store_header_same) auto
    have old: "chain m (heap_head u) bs"
    proof (rule chain_same [OF rep(1)])
      show "\<forall>c \<in> set bs. block_in lo ?f c \<and> same_on (header c) (umem u) m"
        using rep(3) q(1) by (fastforce intro!: below simp: header_def block_in_def)
    qed (use q in simp)
    have nbc: "chain m q [nb]"
      using q12 store_header_fields [of q ?a 0 "umem u"] by (simp add: nb_def m_def)
    have d: "data nb = (unat (q + 12), unat ?a)" using q12 by (simp add: data_def nb_def)
    have ab: "\<forall>c \<in> set bs. above nb c" using rep(3) q(1) by (fastforce simp: above_def nb_def block_in_def)
    then have dn: "data nb \<notin> live bs" by (auto simp: live_def above_def data_def)
    have lv: "live (bs @ [nb]) = insert (data nb) (live bs)" by (auto simp: live_def nb_def)
    have dat: "same_on (block (data c)) (umem u) m" if "c \<in> set bs" for c
      using rep(3) q(1) that by (fastforce intro!: below simp: block_def data_def block_in_def)
    have heap: "sdk_heap pend limit lo u' (bs @ [nb])"
      if "chain (umem u') (heap_head u') (bs @ [nb])" "kern u' = k" for u' :: "'a user"
      using that rep(2,3) ab q f(1)
      unfolding sdk_heap_def heap_repr_def sorted_wrt_append apart_def by (fastforce simp: nb_def block_in_def)
    show ?thesis
    proof (cases bs rule: rev_cases)
      case Nil
      define u' where "u' = u\<lparr>umem := m, heap_head := q, kern := k\<rparr>"
      have "sdk_malloc brk n u = Some (q + 12, u')" using se qk False n(1) Nil by (simp add: sdk_malloc_def u'_def m_def Let_def)
      moreover have "sdk_heap pend limit lo u' (bs @ [nb])" by (rule heap) (use nbc in \<open>auto simp: u'_def Nil\<close>)
      ultimately show ?thesis using p0 d dn lv dat
        by (intro exI [of _ "q + 12"] exI [of _ u'] exI [of _ "bs @ [nb]"]) (simp add: u'_def)
    next
      case (snoc xs c)
      define m' where "m' = store32 (b_addr c + 8) q m"
      define u' where "u' = u\<lparr>umem := m', kern := k\<rparr>"
      have "b_addr c \<noteq> 0"
      proof -
        have "chain m r (xs @ [c]) \<Longrightarrow> b_addr c \<noteq> 0" for r by (induction xs arbitrary: r) auto
        then show ?thesis using old snoc by simp
      qed
      then have "sdk_malloc brk n u = Some (q + 12, u')"
        using se qk False n(1) snoc by (simp add: sdk_malloc_def u'_def m'_def m_def Let_def)
      moreover have "chain m' (heap_head u) (xs @ [c, nb])" unfolding m'_def
      proof (rule chain_append)
        show "chain m (heap_head u) (xs @ [c])" "\<forall>x \<in> set (xs @ [c]). block_in lo ?f x" using old rep(3) by (simp_all add: snoc)
        show "\<forall>x \<in> set xs. apart c x" using rep(2) by (auto simp: snoc sorted_wrt_append intro: apart_sym)
      qed (use q q12 nbc in \<open>simp_all add: nb_def\<close>)
      then have "sdk_heap pend limit lo u' (bs @ [nb])" by (intro heap) (simp_all add: u'_def snoc)
      moreover have "\<forall>x \<in> set bs. same_on (block (data x)) (umem u) m'"
      proof
        fix x assume x: "x \<in> set bs"
        have c: "block_in lo ?f c" "c \<in> set bs" using rep(3) by (simp_all add: snoc)
        then have o: "unat (b_addr c + 8) = unat (b_addr c) + 8" using q by (simp add: block_in_def unat_offsets)
        have "header c \<inter> block (data x) = {}"
        proof (cases "x = c")
          case True
          then show ?thesis by (auto simp: header_def block_def data_def)
        next
          case False
          then show ?thesis using apartD(2) [OF blocks_apart [OF rep(2) c(2) x]] by simp
        qed
        then have "same_on (block (data x)) m m'" unfolding m'_def using c(1) q
          by (intro store32_same_on) (auto simp: o header_def block_in_def disjoint_iff)
        then show "same_on (block (data x)) (umem u) m'" using dat [OF x] by (rule same_on_trans [rotated])
      qed
      ultimately show ?thesis using p0 d dn lv
        by (intro exI [of _ "q + 12"] exI [of _ u'] exI [of _ "bs @ [nb]"]) (simp add: u'_def)
    qed
  qed
qed

lemma sdk_malloc_spec:
  assumes sb: "sbrk_ok brk pend limit" and h: "sdk_heap pend limit lo u bs" and n: "n \<noteq> 0" "unat n < 2 ^ 31 - 20"
  shows "\<exists>p u' bs'. sdk_malloc brk n u = Some (p, u') \<and> sdk_heap pend limit lo u' bs'
    \<and> (\<forall>c \<in> set bs. same_on (block (data c)) (umem u) (umem u'))
    \<and> (if p = 0 then bs' = bs \<and> List.find (fits (aligned_size n)) bs = None \<and> fst (brk (12 + aligned_size n) (kern u)) = -1
       else \<exists>s. unat n \<le> s \<and> (unat p, s) \<notin> live bs \<and> live bs' = insert (unat p, s) (live bs))"
proof (cases "List.find (fits (aligned_size n)) bs")
  case None
  have "unat n < 2 ^ 31" using n(2) by simp
  then have a: "unat n \<le> unat (aligned_size n)" by (rule aligned_size_unat)
  from sdk_malloc_fresh [OF assms None] obtain p u' bs' where r: "sdk_malloc brk n u = Some (p, u')" "sdk_heap pend limit lo u' bs'"
    "\<forall>c \<in> set bs. same_on (block (data c)) (umem u) (umem u')"
    "if p = 0 then bs' = bs \<and> fst (brk (12 + aligned_size n) (kern u)) = -1
       else (unat p, unat (aligned_size n)) \<notin> live bs \<and> live bs' = insert (unat p, unat (aligned_size n)) (live bs)" by blast
  then show ?thesis using a None
    by (intro exI [of _ p] exI [of _ u'] exI [of _ bs']) (auto split: if_splits)
next
  case (Some b)
  have "unat n < 2 ^ 31" using n(2) by simp
  then have a: "unat n \<le> unat (aligned_size n)" by (rule aligned_size_unat)
  have rep: "heap_repr lo (pend (kern u)) u bs" "pend (kern u) \<le> limit" using h by (simp_all add: sdk_heap_def)
  have "limit < 2 ^ 32" using sb by (simp add: sbrk_ok_def)
  then have hi: "pend (kern u) < 2 ^ 32" using rep(2) by simp
  from reuse_block [OF rep(1) hi Some] obtain bs' where
    r: "b_addr b \<noteq> 0" "b_addr b + 12 \<noteq> 0" "unat (b_addr b + 12) = unat (b_addr b) + 12"
      "heap_repr lo (pend (kern u)) (u\<lparr>umem := (umem u)(b_addr b + 4 := 0)\<rparr>) bs'"
      "unat (aligned_size n) \<le> unat (b_size b)" "data b \<notin> live bs" "live bs' = insert (data b) (live bs)"
      "\<forall>c \<in> set bs. same_on (block (data c)) (umem u) ((umem u)(b_addr b + 4 := 0))" by blast
  have "chain (umem u) (heap_head u) bs" using rep(1) by (simp add: heap_repr_def)
  from sdk_search_chain [OF this, of "aligned_size n" 0] Some obtain l' where
    "sdk_search (umem u) (aligned_size n) (heap_head u) 0 = Some (b_addr b, l')" by auto
  then have "sdk_malloc brk n u = Some (b_addr b + 12, u\<lparr>umem := (umem u)(b_addr b + 4 := 0)\<rparr>)"
    using n(1) r(1) by (simp add: sdk_malloc_def)
  moreover have "sdk_heap pend limit lo (u\<lparr>umem := (umem u)(b_addr b + 4 := 0)\<rparr>) bs'"
    using h r(4) by (simp add: sdk_heap_def)
  moreover have "\<exists>s. unat n \<le> s \<and> (unat (b_addr b + 12), s) \<notin> live bs \<and> live bs' = insert (unat (b_addr b + 12), s) (live bs)"
    using r(3,5-7) a by (intro exI [of _ "unat (b_size b)"]) (simp add: data_def)
  ultimately show ?thesis using r(2,8)
    by (intro exI [of _ "b_addr b + 12"] exI [of _ "u\<lparr>umem := (umem u)(b_addr b + 4 := 0)\<rparr>"] exI [of _ bs'])
      (simp del: fun_upd_apply)
qed

lemma sdk_free_spec:
  assumes "sbrk_ok brk pend limit" "sdk_heap pend limit lo u bs" "(unat p, s) \<in> live bs"
  shows "\<exists>bs'. sdk_heap pend limit lo (sdk_free p u) bs' \<and> live bs' = live bs - {(unat p, s)}
    \<and> (\<forall>b \<in> live bs. same_on (block b) (umem u) (umem (sdk_free p u)))
    \<and> (\<exists>b \<in> set bs'. b_free b \<and> data b = (unat p, s))"
proof -
  have rep: "heap_repr lo (pend (kern u)) u bs" "pend (kern u) < 2 ^ 32"
    using assms(1,2) by (simp_all add: sdk_heap_def sbrk_ok_def)
  from user_free_spec [OF rep assms(3)] obtain bs' where
    r: "heap_repr lo (pend (kern u)) (sdk_free p u) bs'" "live bs' = live bs - {(unat p, s)}"
      "\<forall>c \<in> set bs. same_on (block (data c)) (umem u) (umem (sdk_free p u))"
      "\<exists>b \<in> set bs'. b_free b \<and> data b = (unat p, s)" unfolding sdk_free_eq by blast
  have "kern (sdk_free p u) = kern u" by (simp add: sdk_free_def)
  then have "sdk_heap pend limit lo (sdk_free p u) bs'" using assms(2) r(1) by (simp add: sdk_heap_def)
  then show ?thesis using r(2,4) live_same [OF r(3)] by blast
qed

lemma sdk_realloc_spec:
  assumes sb: "sbrk_ok brk pend limit" and h: "sdk_heap pend limit lo u bs" and p: "(unat p, s) \<in> live bs"
    and n: "n \<noteq> 0" "unat n < 2 ^ 31 - 20"
  shows "\<exists>q u' bs'. sdk_realloc brk p n u = Some (q, u') \<and> sdk_heap pend limit lo u' bs'
    \<and> (\<forall>b \<in> live bs. b \<noteq> (unat p, s) \<longrightarrow> same_on (block b) (umem u) (umem u'))
    \<and> (if q = 0 then live bs' = live bs \<and> same_on (block (unat p, s)) (umem u) (umem u') \<and> fst (brk (12 + aligned_size n) (kern u)) = -1
       else (\<forall>i < s. umem u' (q + of_nat i) = umem u (p + of_nat i))
         \<and> (\<exists>t. unat n \<le> t \<and> s \<le> t \<and> live bs' = insert (unat q, t) (live bs - {(unat p, s)})))"
proof -
  have rep: "heap_repr lo (pend (kern u)) u bs" and lim: "pend (kern u) \<le> limit" "limit < 2 ^ 32"
    using h sb by (simp_all add: sdk_heap_def sbrk_ok_def)
  then have hi: "pend (kern u) < 2 ^ 32" by simp
  note lh = live_header [OF rep hi p]
  show ?thesis
  proof (cases "n \<le> load32 (umem u) (p - 12)")
    case True
    have "sdk_realloc brk p n u = Some (p, u)" using True lh(3) n(1) by (simp add: sdk_realloc_def)
    moreover have "unat n \<le> s" using True lh(1) by (simp add: u32_le_nat)
    moreover have "live bs = insert (unat p, s) (live bs - {(unat p, s)})" using p by blast
    ultimately show ?thesis using h lh(3) by (intro exI [of _ p] exI [of _ u] exI [of _ bs]) auto
  next
    case False
    from sdk_malloc_spec [OF sb h n] obtain q u1 bs1 where r: "sdk_malloc brk n u = Some (q, u1)" "sdk_heap pend limit lo u1 bs1"
      "\<forall>c \<in> set bs. same_on (block (data c)) (umem u) (umem u1)"
      "if q = 0 then bs1 = bs \<and> List.find (fits (aligned_size n)) bs = None \<and> fst (brk (12 + aligned_size n) (kern u)) = -1
       else \<exists>t. unat n \<le> t \<and> (unat q, t) \<notin> live bs \<and> live bs1 = insert (unat q, t) (live bs)" by blast
    note keep = live_same [OF r(3)]
    show ?thesis
    proof (cases "q = 0")
      case True
      then have "sdk_realloc brk p n u = Some (0, u1)" using False lh(3) n(1) r(1) by (simp add: sdk_realloc_def)
      then show ?thesis using True r(2,4) keep p by (intro exI [of _ 0] exI [of _ u1] exI [of _ bs1]) auto
    next
      case q: False
      then obtain t where t: "unat n \<le> t" "(unat q, t) \<notin> live bs" "live bs1 = insert (unat q, t) (live bs)" using r(4) by auto
      have rep1: "heap_repr lo (pend (kern u1)) u1 bs1" and hi1: "pend (kern u1) < 2 ^ 32"
        using r(2) lim(2) by (simp_all add: sdk_heap_def)
      have p1: "(unat p, s) \<in> live bs1" "(unat q, t) \<in> live bs1" using t(3) p by simp_all
      note lp = live_header [OF rep1 hi1 p1(1)] and lq = live_header [OF rep1 hi1 p1(2)]
      have st: "s \<le> t" using False lh(1) t(1) by (simp add: u32_le_nat)
      obtain b where b: "b \<in> set bs1" "data b = (unat q, t)" using lq(4) by blast
      have srt: "sorted_wrt apart bs1" using rep1 by (simp add: heap_repr_def)
      have dj: "block (unat q, t) \<inter> block c = {}" if "c \<in> live bs" for c
        using live_disjoint [OF srt p1(2), of c] that t(2,3) by (intro disjoint_blocks_block) auto
      define m where "m = copy_bytes s q p (umem u1)"
      have "{unat q ..< unat q + s} \<inter> {unat p ..< unat p + s} = {}"
        using dj [OF p] st by (auto simp: block_def disjoint_iff)
      from copy_bytes_spec [OF _ _ this, of "umem u1"] lp(2) lq(2) st hi1
      have m: "same_on (- {unat q ..< unat q + s}) (umem u1) m" "\<forall>j < s. m (q + of_nat j) = umem u1 (p + of_nat j)"
        by (simp_all add: m_def)
      have sub: "{unat q ..< unat q + s} \<subseteq> block (unat q, t)" using st by (auto simp: block_def)
      have "same_on (- block (data b)) (umem u1) m" unfolding b(2) using sub by (intro same_on_mono [OF m(1)]) blast
      from heap_repr_data [OF rep1 hi1 b(1) this] have rep2: "heap_repr lo (pend (kern u1)) (u1\<lparr>umem := m\<rparr>) bs1" .
      from user_free_spec [OF rep2 hi1 p1(1)] obtain bs' where
        f: "heap_repr lo (pend (kern u1)) (user_free p (u1\<lparr>umem := m\<rparr>)) bs'" "live bs' = live bs1 - {(unat p, s)}"
          "\<forall>c \<in> set bs1. same_on (block (data c)) m (umem (user_free p (u1\<lparr>umem := m\<rparr>)))" by auto
      define u' where "u' = user_free p (u1\<lparr>umem := m\<rparr>)"
      have call: "sdk_realloc brk p n u = Some (q, u')"
        using False lh(3) n(1) r(1) q lp(1) by (simp add: sdk_realloc_def u'_def m_def sdk_free_eq)
      have heap: "sdk_heap pend limit lo u' bs'"
        using f(1) r(2) lh(3) by (simp add: sdk_heap_def u'_def user_free_def)
      have other: "same_on (block c) (umem u) (umem u')" if "c \<in> live bs" for c
      proof -
        have "same_on (block c) (umem u1) m" using dj [OF that] sub by (intro same_on_mono [OF m(1)]) blast
        moreover have "same_on (block c) m (umem u')" using live_same [OF f(3), of c] that t(3) by (simp add: u'_def)
        ultimately show ?thesis using keep [OF that] by (blast intro: same_on_trans)
      qed
      have "umem u' (q + of_nat i) = umem u (p + of_nat i)" if i: "i < s" for i
      proof -
        have o: "unat (q + of_nat i) = unat q + i" "unat (p + of_nat i) = unat p + i"
          using lq(2) lp(2) hi1 st i by (simp_all add: unat_offset)
        have "same_on (block (unat q, t)) m (umem u')" using live_same [OF f(3) p1(2)] by (simp add: u'_def)
        then have "umem u' (q + of_nat i) = m (q + of_nat i)" using o(1) i st by (simp add: same_on_def block_def)
        also have "\<dots> = umem u1 (p + of_nat i)" using m(2) i by simp
        also have "\<dots> = umem u (p + of_nat i)" using keep [OF p] o(2) i by (simp add: same_on_def block_def)
        finally show ?thesis .
      qed
      moreover have "live bs' = insert (unat q, t) (live bs - {(unat p, s)})" using f(2) t(2,3) p by auto
      ultimately show ?thesis using call heap other q t(1) st by (intro exI [of _ q] exI [of _ u'] exI [of _ bs']) auto
    qed
  qed
qed

lemma sdk_calloc_spec:
  assumes sb: "sbrk_ok brk pend limit" and h: "sdk_heap pend limit lo u bs"
    and n: "0 < unat num * unat sz" "unat num * unat sz < 2 ^ 31 - 20"
  shows "\<exists>p u' bs'. sdk_calloc brk num sz u = Some (p, u') \<and> sdk_heap pend limit lo u' bs'
    \<and> (\<forall>b \<in> live bs. same_on (block b) (umem u) (umem u'))
    \<and> (if p = 0 then live bs' = live bs
       else (\<forall>i < unat num * unat sz. umem u' (p + of_nat i) = 0)
         \<and> (\<exists>t. unat num * unat sz \<le> t \<and> (unat p, t) \<notin> live bs \<and> live bs' = insert (unat p, t) (live bs)))"
proof -
  have tot: "unat (num * sz) = unat num * unat sz" using n(2) by (simp add: unat_word_ariths)
  have n': "num * sz \<noteq> 0" "unat (num * sz) < 2 ^ 31 - 20" using n tot by auto
  from sdk_malloc_spec [OF sb h n'] obtain p u1 bs1 where r: "sdk_malloc brk (num * sz) u = Some (p, u1)" "sdk_heap pend limit lo u1 bs1"
    "\<forall>c \<in> set bs. same_on (block (data c)) (umem u) (umem u1)"
    "if p = 0 then bs1 = bs \<and> List.find (fits (aligned_size (num * sz))) bs = None \<and> fst (brk (12 + aligned_size (num * sz)) (kern u)) = -1
       else \<exists>t. unat (num * sz) \<le> t \<and> (unat p, t) \<notin> live bs \<and> live bs1 = insert (unat p, t) (live bs)" by blast
  note keep = live_same [OF r(3)]
  show ?thesis
  proof (cases "p = 0")
    case True
    then have "sdk_calloc brk num sz u = Some (0, u1)" using r(1) by (simp add: sdk_calloc_def)
    then show ?thesis using True r(2,4) keep by (intro exI [of _ 0] exI [of _ u1] exI [of _ bs1]) auto
  next
    case p: False
    then obtain t where t: "unat num * unat sz \<le> t" "(unat p, t) \<notin> live bs" "live bs1 = insert (unat p, t) (live bs)"
      using r(4) tot by auto
    have rep1: "heap_repr lo (pend (kern u1)) u1 bs1" and hi1: "pend (kern u1) < 2 ^ 32"
      using r(2) sb by (simp_all add: sdk_heap_def sbrk_ok_def)
    have p1: "(unat p, t) \<in> live bs1" using t(3) by simp
    note lp = live_header [OF rep1 hi1 p1]
    obtain b where b: "b \<in> set bs1" "data b = (unat p, t)" using lp(4) by blast
    define m where "m = fill_bytes (unat num * unat sz) p 0 (umem u1)"
    have f: "m a = (if unat a \<in> {unat p ..< unat p + unat num * unat sz} then 0 else umem u1 a)" for a
      using fill_bytes_spec [of "unat num * unat sz" p 0 "umem u1" a] lp(2) t(1) hi1 by (simp add: m_def)
    have sm: "same_on (- block (data b)) (umem u1) m" using f t(1) by (auto simp: same_on_def b(2) block_def)
    define u' where "u' = u1\<lparr>umem := m\<rparr>"
    have "sdk_calloc brk num sz u = Some (p, u')" using p r(1) tot by (simp add: sdk_calloc_def u'_def m_def)
    moreover have "sdk_heap pend limit lo u' bs1"
      using heap_repr_data [OF rep1 hi1 b(1) sm] r(2) by (simp add: sdk_heap_def u'_def)
    moreover have "same_on (block c) (umem u) (umem u')" if c: "c \<in> live bs" for c
    proof -
      have "sorted_wrt apart bs1" using rep1 by (simp add: heap_repr_def)
      then have "block (unat p, t) \<inter> block c = {}"
        using live_disjoint [of bs1 "(unat p, t)" c] c t(2,3) by (intro disjoint_blocks_block) auto
      then have "same_on (block c) (umem u1) m" by (intro same_on_mono [OF sm]) (auto simp: b(2))
      then show ?thesis using keep [OF c] by (auto intro: same_on_trans simp: u'_def)
    qed
    moreover have "umem u' (p + of_nat i) = 0" if i: "i < unat num * unat sz" for i
      using f [of "p + of_nat i"] unat_offset [of p i] lp(2) hi1 t(1) i by (simp add: u'_def)
    ultimately show ?thesis using p t by (intro exI [of _ p] exI [of _ u'] exI [of _ bs1]) auto
  qed
qed

section \<open>Properties\<close>

text \<open>A break to try the operations on: memory up to 8 MB.\<close>

definition demo_brk :: "u32 \<Rightarrow> u32 \<Rightarrow> u32 \<times> u32" where
  "demo_brk n k = (if unat k + unat n \<le> 0x800000 then (k, k + n) else (-1, k))"

lemma demo_brk_ok: "sbrk_ok demo_brk unat 0x800000"
proof -
  have "let (p, k') = demo_brk n k in if p = -1 then unat k' = unat k
      else unat p = unat k \<and> unat k' = unat k + unat n \<and> unat k' \<le> 0x800000"
    if "unat k \<le> 0x800000" for n k
  proof (cases "unat k + unat n \<le> 0x800000")
    case True
    then have "unat (k + n) = unat k + unat n" by (intro unat_plus_no_wrap) simp
    moreover have "unat (-1 :: u32) = 2 ^ 32 - 1" by (simp add: unsigned_minus_1_eq_mask mask_eq_exp_minus_1)
    then have "k \<noteq> -1" using that by auto
    ultimately show ?thesis using True by (simp add: demo_brk_def)
  qed (simp add: demo_brk_def)
  then show ?thesis by (simp add: sbrk_ok_def)
qed

text \<open>A heap with one block of eight bytes that begins with an A.\<close>

definition demo_sdk :: "u32 user" where
  "demo_sdk = \<lparr>umem = store_header 0x500000 8 0 (\<lambda>a. if a = 0x50000C then 0x41 else 0), heap_head = 0x500000, kern = 0x500014\<rparr>"

definition demo_block :: blk where
  "demo_block = \<lparr>b_addr = 0x500000, b_size = 8, b_free = False\<rparr>"

lemma demo_sdk_ok: "sdk_heap unat 0x800000 0x500000 demo_sdk [demo_block]" "live [demo_block] = {(0x50000C, 8)}"
  "umem demo_sdk 0x50000C = 0x41"
proof -
  note f = store_header_fields [of "0x500000 :: u32"]
  show "sdk_heap unat 0x800000 0x500000 demo_sdk [demo_block]"
    using f by (simp add: sdk_heap_def heap_repr_def demo_sdk_def demo_block_def block_in_def)
  show "live [demo_block] = {(0x50000C, 8)}" by (auto simp: live_def data_def demo_block_def)
  show "umem demo_sdk 0x50000C = 0x41" by (simp add: demo_sdk_def store_header_def store32_def)
qed

text \<open>C21: growing a block keeps what it holds. On a heap in order over a break that works, \<open>realloc\<close> of a live block to a
  size above zero (and below 2 GB) returns: with no memory left, null and the block as it was; else a block of at least
  the new size whose first bytes, as many as the old block had, are the old ones, in exchange for the old block. All
  other live blocks keep their bytes, and the heap stays in order.\<close>

theorem realloc_keeps_contents:
  assumes "sbrk_ok brk pend limit" and "sdk_heap pend limit lo u bs" and "(unat p, s) \<in> live bs"
    and "n \<noteq> 0" "unat n < 2 ^ 31 - 20"
  shows "\<exists>q u' bs'. sdk_realloc brk p n u = Some (q, u') \<and> sdk_heap pend limit lo u' bs'
    \<and> (\<forall>b \<in> live bs. b \<noteq> (unat p, s) \<longrightarrow> same_on (block b) (umem u) (umem u'))
    \<and> (if q = 0 then live bs' = live bs \<and> same_on (block (unat p, s)) (umem u) (umem u') \<and> fst (brk (12 + aligned_size n) (kern u)) = -1
       else (\<forall>i < s. umem u' (q + of_nat i) = umem u (p + of_nat i))
         \<and> (\<exists>t. unat n \<le> t \<and> s \<le> t \<and> live bs' = insert (unat q, t) (live bs - {(unat p, s)})))"
  by (rule sdk_realloc_spec [OF assms])

theorem realloc_keeps_contents_witness:
  "\<exists>q u'. sdk_realloc demo_brk 0x50000C 20 demo_sdk = Some (q, u') \<and> q \<noteq> 0 \<and> umem u' q = 0x41"
proof -
  have p: "(unat (0x50000C :: u32), 8) \<in> live [demo_block]" by (simp add: demo_sdk_ok)
  from realloc_keeps_contents [OF demo_brk_ok demo_sdk_ok(1) p, of 20] obtain q u' where
    r: "sdk_realloc demo_brk 0x50000C 20 demo_sdk = Some (q, u')"
      "if q = 0 then fst (demo_brk (12 + aligned_size 20) (kern demo_sdk)) = -1
       else (\<forall>i < 8. umem u' (q + of_nat i) = umem demo_sdk (0x50000C + of_nat i))" by (auto split: if_splits)
  have "fst (demo_brk (12 + aligned_size 20) (kern demo_sdk)) \<noteq> -1"
    by (simp add: aligned_size_def demo_brk_def demo_sdk_def)
  then have q: "q \<noteq> 0" "\<forall>i < 8. umem u' (q + of_nat i) = umem demo_sdk (0x50000C + of_nat i)" using r(2) by (simp_all split: if_splits)
  show ?thesis using r(1) q(1) spec [OF q(2), of 0] demo_sdk_ok(3) by simp
qed

text \<open>An array of zeros. When the product does not overflow, \<open>calloc\<close> returns null, or a new block that holds all elements,
  every byte of them zero; the live blocks keep their bytes either way.\<close>

theorem calloc_zeroes:
  assumes "sbrk_ok brk pend limit" and "sdk_heap pend limit lo u bs"
    and "0 < unat num * unat sz" "unat num * unat sz < 2 ^ 31 - 20"
  shows "\<exists>p u' bs'. sdk_calloc brk num sz u = Some (p, u') \<and> sdk_heap pend limit lo u' bs'
    \<and> (\<forall>b \<in> live bs. same_on (block b) (umem u) (umem u'))
    \<and> (if p = 0 then live bs' = live bs
       else (\<forall>i < unat num * unat sz. umem u' (p + of_nat i) = 0)
         \<and> (\<exists>t. unat num * unat sz \<le> t \<and> (unat p, t) \<notin> live bs \<and> live bs' = insert (unat p, t) (live bs)))"
  by (rule sdk_calloc_spec [OF assms])

theorem calloc_zeroes_witness:
  "\<exists>p u' bs'. sdk_calloc demo_brk 5 4 demo_sdk = Some (p, u') \<and> sdk_heap unat 0x800000 0x500000 u' bs' \<and> umem u' 0x50000C = 0x41"
proof -
  from calloc_zeroes [OF demo_brk_ok demo_sdk_ok(1), of 5 4] obtain p u' bs' where
    "sdk_calloc demo_brk 5 4 demo_sdk = Some (p, u')" "sdk_heap unat 0x800000 0x500000 u' bs'"
    "same_on (block (0x50000C, 8)) (umem demo_sdk) (umem u')" by (auto simp: demo_sdk_ok(2))
  then show ?thesis using demo_sdk_ok(3) by (auto simp: same_on_def block_def)
qed

text \<open>C0: \<open>calloc\<close> multiplies in 32 bits: a request for 0x20000001 elements of eight bytes, more than 4 GB, is served as
  one for eight single bytes, whatever the heap and the break.\<close>

theorem calloc_wraps: "sdk_calloc brk 0x20000001 8 u = sdk_calloc brk 8 1 u"
proof -
  have "(0x20000001 :: u32) * 8 = 8" by (subst word_uint_eq_iff) simp
  then show ?thesis by (simp only: sdk_calloc_def mult_1_right)
qed

section \<open>A program on this heap\<close>

text \<open>\<open>malloc\<close> and \<open>free\<close> provide the same interface as the newer allocator's, over any break that works.\<close>

definition sdk_may :: "u32 \<Rightarrow> 'k user \<Rightarrow> bool" where
  "sdk_may n u \<longleftrightarrow> unat n < 2 ^ 31 - 20"

lemma sdk_block_allocator:
  assumes sb: "sbrk_ok brk pend limit"
  shows "block_allocator (sdk_malloc brk) sdk_free (sdk_heap pend limit lo) sdk_may (\<lambda>k k'. pend k' = pend k) lo limit"
proof unfold_locales
  fix u u' :: "'a user" and bs and n p :: u32 and s and b and a :: u32 and v and m and k
  assume h: "sdk_heap pend limit lo u bs"
  then have rep: "heap_repr lo (pend (kern u)) u bs" and hi: "pend (kern u) < 2 ^ 32" "pend (kern u) \<le> limit"
    using sb by (simp_all add: sdk_heap_def sbrk_ok_def)
  show "sorted_wrt apart bs" using rep by (simp add: heap_repr_def)
  show "\<exists>bs'. sdk_heap pend limit lo u' bs' \<and> (\<forall>b \<in> live bs. same_on (block b) (umem u) (umem u'))
    \<and> (if p = 0 then live bs' = live bs else \<exists>s. unat n \<le> s \<and> (unat p, s) \<notin> live bs \<and> live bs' = insert (unat p, s) (live bs))"
    if call: "sdk_malloc brk n u = Some (p, u')" and n: "sdk_may n u'"
  proof (cases "n = 0")
    case True
    then show ?thesis using h call by (intro exI [of _ bs]) (auto simp: sdk_malloc_def)
  next
    case False
    have "unat n < 2 ^ 31 - 20" using n by (simp add: sdk_may_def)
    from sdk_malloc_spec [OF sb h False this] call obtain bs' where r: "sdk_heap pend limit lo u' bs'"
      "\<forall>c \<in> set bs. same_on (block (data c)) (umem u) (umem u')"
      "if p = 0 then bs' = bs \<and> List.find (fits (aligned_size n)) bs = None \<and> fst (brk (12 + aligned_size n) (kern u)) = -1
       else \<exists>s. unat n \<le> s \<and> (unat p, s) \<notin> live bs \<and> live bs' = insert (unat p, s) (live bs)" by auto
    then show ?thesis using live_same [OF r(2)] by (intro exI [of _ bs']) (auto split: if_splits)
  qed
  show "\<exists>bs'. sdk_heap pend limit lo (sdk_free p u) bs' \<and> live bs' = live bs - {(unat p, s)}
    \<and> (\<forall>b \<in> live bs. same_on (block b) (umem u) (umem (sdk_free p u)))" if p: "(unat p, s) \<in> live bs"
    using sdk_free_spec [OF sb h p] by blast
  show "b \<in> live bs \<Longrightarrow> unat a \<in> block b \<Longrightarrow> sdk_heap pend limit lo (u\<lparr>umem := (umem u)(a := v)\<rparr>) bs"
    using heap_repr_store [OF rep hi(1), of b a v] h by (simp add: sdk_heap_def)
  show "sdk_heap pend limit lo (u\<lparr>umem := m, kern := k\<rparr>) bs"
    if "same_on {lo ..< limit} (umem u) m" "pend k = pend (kern u)"
    using heap_repr_other [OF rep hi(2) _ that(1), of k] hi(1) h that(2) by (simp add: sdk_heap_def)
  show "b \<in> live bs \<Longrightarrow> lo \<le> fst b \<and> fst b + snd b \<le> limit"
    using heap_repr_bounds [OF rep, of b] hi(2) by auto
qed

text \<open>C20: a program on the SDK's heap that keeps to its blocks and asks for less than 2 GB at a time (20 bytes less; a size
  near 4 GB wraps to a block of no bytes) has its memory to itself. From a heap in order that holds nothing, over a break
  that works, through any sequence of such \<open>malloc\<close>, of \<open>free\<close> of what it holds and writes inside what it holds, and
  whatever the system changes in between outside the heap's memory and other than the break, the blocks the program holds
  are pairwise disjoint, lie inside the heap, and hold exactly the bytes it last wrote there.\<close>

theorem sdk_heap_separation:
  assumes "program_reach (sdk_malloc brk) sdk_free sdk_may (\<lambda>k k'. pend k' = pend k) lo limit u0 u own cont"
    and "sbrk_ok brk pend limit" and "sdk_heap pend limit lo u0 bs0" and "live bs0 = {}"
  shows "(\<forall>b \<in> own. \<forall>c \<in> own. b \<noteq> c \<longrightarrow> disjoint_blocks b c)
    \<and> (\<forall>b \<in> own. lo \<le> fst b \<and> fst b + snd b \<le> limit)
    \<and> (\<forall>b \<in> own. \<forall>a. unat a \<in> block b \<longrightarrow> umem u a = cont a)"
  by (rule block_allocator.reach_separation [OF sdk_block_allocator [OF assms(2)] assms(1,3,4)])

definition empty_sdk :: "u32 user" where
  "empty_sdk = \<lparr>umem = (\<lambda>_. 0), heap_head = 0, kern = 0x500000\<rparr>"

abbreviation demo_reach :: "u32 user \<Rightarrow> (nat \<times> nat) set \<Rightarrow> memory \<Rightarrow> bool" where
  "demo_reach \<equiv> program_reach (sdk_malloc demo_brk) sdk_free sdk_may (\<lambda>k k'. unat k' = unat k) 0x500000 0x800000 empty_sdk"

theorem sdk_heap_separation_witness:
  "\<exists>u c. demo_reach u {(0x50000C, 50)} c \<and> umem u 0x50000D = 7 \<and> c 0x50000D = 7"
proof -
  have "sdk_search (umem empty_sdk) (aligned_size 50) (heap_head empty_sdk) 0 = Some (0, 0)"
    by (subst sdk_search.simps) (simp add: empty_sdk_def)
  moreover have "aligned_size 50 = 56" by (simp add: aligned_size_def)
  ultimately obtain u1 where m: "sdk_malloc demo_brk 50 empty_sdk = Some (0x50000C, u1)"
    by (simp add: sdk_malloc_def demo_brk_def empty_sdk_def)
  have "sdk_may 50 u1" by (simp add: sdk_may_def)
  from program_reach.alloc [where request = "sdk_malloc demo_brk" and may = sdk_may and u = empty_sdk, OF program_reach.start m this]
  have "demo_reach u1 (if (0x50000C :: u32) = 0 then {} else insert (unat (0x50000C :: u32), unat (50 :: u32)) {})
      (\<lambda>a. if (0x50000C :: u32) \<noteq> 0 \<and> unat a \<in> block (unat (0x50000C :: u32), unat (50 :: u32)) then umem u1 a else umem empty_sdk a)" .
  then have r2: "demo_reach u1 {(0x50000C, 50)} (\<lambda>a. if unat a \<in> block (0x50000C, 50) then umem u1 a else umem empty_sdk a)"
    by simp
  have "(0x50000C, 50) \<in> {(0x50000C :: nat, 50 :: nat)}" "unat (0x50000D :: u32) \<in> block (0x50000C, 50)" by (simp_all add: block_def)
  from program_reach.store [OF r2 this, of 7] obtain u c where
    r: "demo_reach u {(0x50000C, 50)} c" "c 0x50000D = 7" by force
  have "sdk_heap unat 0x800000 0x500000 empty_sdk []" "live [] = {}"
    by (simp_all add: empty_sdk_def sdk_heap_def heap_repr_def live_def)
  from sdk_heap_separation [OF r(1) demo_brk_ok this] have "umem u 0x50000D = c 0x50000D" by (auto simp: block_def)
  then show ?thesis using r by auto
qed

end
