(* ===== verification/SdkPrograms.thy ===== *)
theory SdkPrograms
  imports SdkHeap
begin

text \<open>
  The first SDK's system calls and programs (legacy_v1/sdk/stdlib.cpp, legacy_v1/programs). A wrapper is what it
  leaves in the registers at \<open>int 0x80\<close>. A program is the sequence of calls it makes: the kernel they were written
  for is not in the repository, so the lines its \<open>read\<close> stores, the listing of \<open>list_dir\<close>, the success of \<open>exec\<close>
  and the break are parameters. Reading past a buffer is a fault (\<open>None\<close>).
\<close>

section \<open>System calls\<close>

record regs =
  reg_eax :: u32
  reg_ebx :: u32
  reg_ecx :: u32
  reg_edx :: u32
  reg_esi :: u32

definition sdk_exit :: "u32 \<Rightarrow> regs \<Rightarrow> regs" where
  "sdk_exit code r = r\<lparr>reg_eax := 1, reg_ebx := code\<rparr>"

definition sdk_printf :: "u32 \<Rightarrow> regs \<Rightarrow> regs" where
  "sdk_printf str r = r\<lparr>reg_eax := 2, reg_ebx := str\<rparr>"

definition sdk_read :: "u32 \<Rightarrow> u32 \<Rightarrow> regs \<Rightarrow> regs" where
  "sdk_read buf sz r = r\<lparr>reg_eax := 3, reg_ebx := buf, reg_ecx := sz\<rparr>"

text \<open>\<open>exec\<close> and \<open>sbrk\<close> write EAX before they read their operand, and do not say so (\<open>"=a"\<close> and not \<open>"=&a"\<close>):
  the compiler may have put the operand into EAX (\<open>in_eax\<close>).\<close>

definition move_operand :: "bool \<Rightarrow> u32 \<Rightarrow> u32 \<Rightarrow> regs \<Rightarrow> regs" where
  "move_operand in_eax number v r =
     (let r1 = (if in_eax then r\<lparr>reg_eax := v\<rparr> else r);
          r2 = r1\<lparr>reg_eax := number\<rparr>
      in r2\<lparr>reg_ebx := (if in_eax then reg_eax r2 else v)\<rparr>)"

definition sdk_exec :: "bool \<Rightarrow> u32 \<Rightarrow> regs \<Rightarrow> regs" where
  "sdk_exec in_eax fname = move_operand in_eax 4 fname"

definition sdk_sbrk :: "bool \<Rightarrow> u32 \<Rightarrow> regs \<Rightarrow> regs" where
  "sdk_sbrk in_eax incr = move_operand in_eax 11 incr"

definition sdk_clear_screen :: "regs \<Rightarrow> regs" where
  "sdk_clear_screen r = r\<lparr>reg_eax := 5\<rparr>"

definition sdk_list_dir :: "u32 \<Rightarrow> u32 \<Rightarrow> regs \<Rightarrow> regs" where
  "sdk_list_dir buf sz r = r\<lparr>reg_eax := 6, reg_ebx := buf, reg_ecx := sz\<rparr>"

definition sdk_spawn :: "u32 \<Rightarrow> regs \<Rightarrow> regs" where
  "sdk_spawn fname r = r\<lparr>reg_eax := 7, reg_ebx := fname\<rparr>"

definition sdk_open_window :: "u32 \<Rightarrow> u32 \<Rightarrow> u32 \<Rightarrow> regs \<Rightarrow> regs" where
  "sdk_open_window w h ttl r = r\<lparr>reg_eax := 8, reg_ebx := w, reg_ecx := h, reg_edx := ttl\<rparr>"

text \<open>Two coordinates in one register.\<close>

definition pack_pair :: "u32 \<Rightarrow> u32 \<Rightarrow> u32" where
  "pack_pair x y = push_bit 16 x OR (y AND 0xFFFF)"

definition sdk_win_draw_rect :: "u32 \<Rightarrow> u32 \<Rightarrow> u32 \<Rightarrow> u32 \<Rightarrow> u32 \<Rightarrow> u32 \<Rightarrow> regs \<Rightarrow> regs" where
  "sdk_win_draw_rect i x y w h col r =
     r\<lparr>reg_eax := 9, reg_ebx := i, reg_ecx := pack_pair x y, reg_edx := pack_pair w h, reg_esi := col\<rparr>"

definition sdk_win_draw_text :: "u32 \<Rightarrow> u32 \<Rightarrow> u32 \<Rightarrow> u32 \<Rightarrow> u32 \<Rightarrow> regs \<Rightarrow> regs" where
  "sdk_win_draw_text i x y str col r =
     r\<lparr>reg_eax := 10, reg_ebx := i, reg_ecx := pack_pair x y, reg_edx := str, reg_esi := col\<rparr>"

lemma pack_pair_halves:
  "(ucast (pack_pair x y) :: u16) = ucast y" "(ucast (drop_bit 16 (pack_pair x y)) :: u16) = ucast x"
proof -
  have m: "(0xFFFF :: u32) = mask 16" by (simp add: mask_eq_exp_minus_1)
  show "(ucast (pack_pair x y) :: u16) = ucast y" "(ucast (drop_bit 16 (pack_pair x y)) :: u16) = ucast x"
    unfolding pack_pair_def m by (rule bit_word_eqI, auto simp: bit_simps)+
qed

text \<open>What reaches the kernel when the operand sat in EAX: the number of the call in place of the operand.\<close>

lemma operand_in_eax:
  "reg_ebx (sdk_exec True fname r) = 4" "reg_ebx (sdk_sbrk True incr r) = 11"
  "reg_ebx (sdk_exec False fname r) = fname" "reg_ebx (sdk_sbrk False incr r) = incr"
  by (simp_all add: sdk_exec_def sdk_sbrk_def move_operand_def)

section \<open>String functions\<close>

fun sdk_strcmp :: "char list \<Rightarrow> char list \<Rightarrow> int option" where
  "sdk_strcmp (a # as) (b # bs) =
     (if a \<noteq> NUL \<and> a = b then sdk_strcmp as bs else Some (uchar a - uchar b))"
| "sdk_strcmp _ _ = None"

fun sdk_strlen :: "char list \<Rightarrow> nat option" where
  "sdk_strlen [] = None"
| "sdk_strlen (c # cs) = (if c \<noteq> NUL then map_option Suc (sdk_strlen cs) else Some 0)"

text \<open>\<open>strcmp(a, "b") == 0\<close>, and \<open>printf\<close> of a buffer.\<close>

definition sdk_streq :: "char list \<Rightarrow> char list \<Rightarrow> bool option" where
  "sdk_streq a b = map_option (\<lambda>d. d = 0) (sdk_strcmp a b)"

lemma sdk_strcmp_eq: "sdk_strcmp a b = utils_strcmp a b"
  by (induction a b rule: sdk_strcmp.induct) auto

lemma sdk_strlen_eq: "sdk_strlen s = utils_strlen s"
  by (induction s) auto

interpretation sdkeq: string_equality sdk_streq
  by unfold_locales (simp add: sdk_streq_def sdk_strcmp_eq utils_streq_spec [unfolded utils_streq_def])

definition sdk_is :: "char list \<Rightarrow> string \<Rightarrow> bool option" where
  "sdk_is a s = sdk_streq a (s @ [NUL])"

lemma sdk_is_spec: "terminated a \<Longrightarrow> NUL \<notin> set s \<Longrightarrow> sdk_is a s = Some (cstr a = s)"
  by (simp add: sdk_is_def sdk_streq_def sdk_strcmp_eq utils_streq_spec [unfolded utils_streq_def])

datatype sdk_call =
    SysExit
  | SysPrint string
  | SysRead nat
  | SysExec string
  | SysClear
  | SysList nat
  | SysSpawn string

definition put_str :: "char list \<Rightarrow> sdk_call option" where
  "put_str b = (if terminated b then Some (SysPrint (cstr b)) else None)"

text \<open>\<open>read\<close> and \<open>list_dir\<close> on an array: the kernel stores \<open>l\<close> at its start.\<close>

definition stored :: "char list \<Rightarrow> char list \<Rightarrow> char list option" where
  "stored l b = (if length l \<le> length b then Some (l @ drop (length l) b) else None)"

lemma stored_zeros:
  assumes "length l \<le> n"
  shows "stored l (replicate n NUL) = Some (l @ replicate (n - length l) NUL)"
  using assms by (simp add: stored_def)

lemma terminated_NULs [simp]: "terminated (replicate n NUL) \<longleftrightarrow> 0 < n"
  by (simp add: terminated_def)

lemma sdk_memset_all: "length ds = n \<Longrightarrow> sdk_memset ds v n = Some (replicate n v)"
  by (induction n arbitrary: ds) (auto simp: length_Suc_conv)

section \<open>The terminal\<close>

definition line_in :: "string \<Rightarrow> string" where "line_in s = s @ [NL]"

definition terminal_prompt :: string where "terminal_prompt = ''user@antigravity:~$ ''"

definition terminal_banner :: "sdk_call list" where
  "terminal_banner = SysClear # map SysPrint
     [line_in ''=============================='',
      line_in ''  Antigravity OS Terminal'',
      line_in ''=============================='',
      ''Type 'help' for available commands.'' @ [NL, NL]]"

definition terminal_help :: "sdk_call list" where
  "terminal_help = map (SysPrint \<circ> line_in)
     [''Available commands:'',
      ''  help   - Show this help'',
      ''  ls     - List files'',
      ''  clear  - Clear screen'',
      ''  file   - Open File Manager'',
      ''  snake  - Play Snake Game'',
      ''  editor - Open Text Editor'',
      ''  heap   - Test Heap Allocation'',
      ''  exit   - Shutdown (halt)'']"

text \<open>The \<open>heap\<close> command: \<open>i\<close> allocations still to try.\<close>

primrec alloc_tests :: "(u32 \<Rightarrow> 'k \<Rightarrow> u32 \<times> 'k) \<Rightarrow> nat \<Rightarrow> 'k user \<Rightarrow> (sdk_call list \<times> 'k user) option" where
  "alloc_tests brk 0 u = Some ([], u)"
| "alloc_tests brk (Suc i) u = do {
     (p, u1) \<leftarrow> sdk_malloc brk 64 u;
     (calls, u2) \<leftarrow> alloc_tests brk i (if p \<noteq> 0 then sdk_free p u1 else u1);
     Some (SysPrint (line_in (if p \<noteq> 0 then ''Alloc: OK'' else ''Alloc: FAILED'')) # calls, u2)
   }"

text \<open>The first \<open>n\<close> bytes at an address, and the kernel's store of a line there.\<close>

definition chars_at :: "nat \<Rightarrow> u32 \<Rightarrow> memory \<Rightarrow> char list" where
  "chars_at n p m = map (\<lambda>i. char_of_byte (m (p + of_nat i))) [0 ..< n]"

definition store_line :: "u32 \<Rightarrow> char list \<Rightarrow> memory \<Rightarrow> memory" where
  "store_line p l m a =
     (if unat a \<in> {unat p ..< unat p + length l} then byte_of_char (l ! (unat a - unat p)) else m a)"

text \<open>One command; the flag says whether the program goes on.\<close>

definition terminal_list :: "char list \<Rightarrow> sdk_call list option" where
  "terminal_list listing = do {
     l \<leftarrow> stored listing (replicate 512 NUL);
     text \<leftarrow> put_str l;
     Some [SysList 512, text]
   }"

definition terminal_command ::
  "(u32 \<Rightarrow> 'k \<Rightarrow> u32 \<times> 'k) \<Rightarrow> char list \<Rightarrow> u32 \<Rightarrow> 'k user \<Rightarrow> (sdk_call list \<times> 'k user \<times> bool) option" where
  "terminal_command brk listing inbuf u = do {
     let inp = chars_at 128 inbuf (umem u);
     help \<leftarrow> sdk_is inp ''help'';
     if help then Some (terminal_help, u, True) else do {
     ls \<leftarrow> sdk_is inp ''ls'';
     if ls then do { calls \<leftarrow> terminal_list listing; Some (calls, u, True) } else do {
     clear \<leftarrow> sdk_is inp ''clear'';
     if clear then Some ([SysClear], u, True) else do {
     file \<leftarrow> sdk_is inp ''file'';
     if file then Some ([SysPrint (line_in ''Launching File Manager...''), SysSpawn ''file.bin''], u, True) else do {
     snake \<leftarrow> sdk_is inp ''snake'';
     if snake then Some ([SysPrint (line_in ''Launching Snake...''), SysSpawn ''snake.bin''], u, True) else do {
     editor \<leftarrow> sdk_is inp ''editor'';
     if editor then Some ([SysPrint (line_in ''Launching Editor...''), SysSpawn ''editor.bin''], u, True) else do {
     heap \<leftarrow> sdk_is inp ''heap'';
     if heap then do {
       (calls, u1) \<leftarrow> alloc_tests brk 10 u;
       Some (SysPrint (line_in ''Allocating 10 blocks (64 bytes each)...'') # calls
         @ [SysPrint (line_in ''Heap Test Complete.'')], u1, True) } else do {
     exit \<leftarrow> sdk_is inp ''exit'';
     if exit then Some ([SysPrint (line_in ''Goodbye!''), SysExit], sdk_free inbuf u, False) else do {
     n \<leftarrow> sdk_strlen inp;
     if 0 < n then do {
       text \<leftarrow> put_str inp;
       Some ([SysPrint ''Unknown command: '', text, SysPrint ([NL] @ line_in ''Type 'help' for available commands.'')], u, True) }
     else Some ([], u, True) }}}}}}}}
   }"

text \<open>The loop, on the lines that \<open>read\<close> will store; after the last one it waits in \<open>read\<close>.\<close>

fun terminal_loop ::
  "(u32 \<Rightarrow> 'k \<Rightarrow> u32 \<times> 'k) \<Rightarrow> char list \<Rightarrow> u32 \<Rightarrow> char list list \<Rightarrow> 'k user \<Rightarrow> (sdk_call list \<times> 'k user) option" where
  "terminal_loop brk listing inbuf [] u =
     Some ([SysPrint terminal_prompt, SysRead 127], u\<lparr>umem := fill_bytes 128 inbuf 0 (umem u)\<rparr>)"
| "terminal_loop brk listing inbuf (l # ls) u = do {
     let u1 = u\<lparr>umem := store_line inbuf l (fill_bytes 128 inbuf 0 (umem u))\<rparr>;
     (calls, u2, more) \<leftarrow> terminal_command brk listing inbuf u1;
     (rest, u3) \<leftarrow> (if more then terminal_loop brk listing inbuf ls u2 else Some ([], u2));
     Some ([SysPrint terminal_prompt, SysRead 127, SysPrint [NL]] @ calls @ rest, u3)
   }"

definition terminal_main ::
  "(u32 \<Rightarrow> 'k \<Rightarrow> u32 \<times> 'k) \<Rightarrow> char list \<Rightarrow> char list list \<Rightarrow> 'k user \<Rightarrow> (sdk_call list \<times> 'k user) option" where
  "terminal_main brk listing ls u = do {
     (inbuf, u1) \<leftarrow> sdk_malloc brk 128 u;
     if inbuf = 0 then Some ([SysPrint (line_in ''Critical Error: malloc failed for input buffer!'')], u1)
     else do {
       (calls, u2) \<leftarrow> terminal_loop brk listing inbuf ls u1;
       Some (terminal_banner @ calls, u2)
     }
   }"

section \<open>What the terminal answers\<close>

definition alloc_report :: "nat \<Rightarrow> nat \<Rightarrow> sdk_call list" where
  "alloc_report i k = map (SysPrint \<circ> line_in) (replicate k ''Alloc: FAILED'' @ replicate (i - k) ''Alloc: OK'')"

text \<open>The calls for a command, as a function of strings; \<open>k\<close> allocations of the \<open>heap\<close> command fail.\<close>

definition terminal_answer :: "string \<Rightarrow> nat \<Rightarrow> string \<Rightarrow> sdk_call list" where
  "terminal_answer listing k cmd =
     (if cmd = ''help'' then terminal_help
      else if cmd = ''ls'' then [SysList 512, SysPrint listing]
      else if cmd = ''clear'' then [SysClear]
      else if cmd = ''file'' then [SysPrint (line_in ''Launching File Manager...''), SysSpawn ''file.bin'']
      else if cmd = ''snake'' then [SysPrint (line_in ''Launching Snake...''), SysSpawn ''snake.bin'']
      else if cmd = ''editor'' then [SysPrint (line_in ''Launching Editor...''), SysSpawn ''editor.bin'']
      else if cmd = ''heap'' then
        SysPrint (line_in ''Allocating 10 blocks (64 bytes each)...'') # alloc_report 10 k
          @ [SysPrint (line_in ''Heap Test Complete.'')]
      else if cmd = ''exit'' then [SysPrint (line_in ''Goodbye!''), SysExit]
      else if cmd = '''' then []
      else [SysPrint ''Unknown command: '', SysPrint cmd, SysPrint ([NL] @ line_in ''Type 'help' for available commands.'')])"

fun terminal_session :: "string \<Rightarrow> (string \<times> nat) list \<Rightarrow> sdk_call list" where
  "terminal_session listing [] = [SysPrint terminal_prompt, SysRead 127]"
| "terminal_session listing ((cmd, k) # r) =
     [SysPrint terminal_prompt, SysRead 127, SysPrint [NL]] @ terminal_answer listing k cmd
       @ (if cmd = ''exit'' then [] else terminal_session listing r)"

text \<open>A block just freed serves the next request, so after one success there are no more failures.\<close>

lemma alloc_tests_spec:
  assumes sb: "sbrk_ok brk pend limit"
  shows "sdk_heap pend limit lo u bs \<Longrightarrow>
    \<exists>k u' bs'. k \<le> i \<and> alloc_tests brk i u = Some (alloc_report i k, u') \<and> sdk_heap pend limit lo u' bs' \<and> live bs' = live bs
    \<and> (\<forall>b \<in> live bs. same_on (block b) (umem u) (umem u')) \<and> (List.find (fits 64) bs \<noteq> None \<longrightarrow> k = 0)"
proof (induction i arbitrary: u bs)
  case 0
  then show ?case by (auto simp: alloc_report_def)
next
  case (Suc i)
  have a: "aligned_size 64 = 64" by (simp add: aligned_size_def)
  have "(64 :: u32) \<noteq> 0" "unat (64 :: u32) < 2 ^ 31 - 20" by simp_all
  from sdk_malloc_spec [OF sb Suc.prems this] obtain p u1 bs1 where m: "sdk_malloc brk 64 u = Some (p, u1)"
    and h1: "sdk_heap pend limit lo u1 bs1" and k1: "\<forall>c \<in> set bs. same_on (block (data c)) (umem u) (umem u1)"
    and r': "if p = 0 then bs1 = bs \<and> List.find (fits (aligned_size 64)) bs = None \<and> fst (brk (12 + aligned_size 64) (kern u)) = -1
       else \<exists>s. unat (64 :: u32) \<le> s \<and> (unat p, s) \<notin> live bs \<and> live bs1 = insert (unat p, s) (live bs)" by blast
  have r: "if p = 0 then bs1 = bs \<and> List.find (fits 64) bs = None
       else \<exists>s. 64 \<le> s \<and> (unat p, s) \<notin> live bs \<and> live bs1 = insert (unat p, s) (live bs)"
    using r' unfolding a by (simp split: if_splits)
  note keep = live_same [OF k1]
  show ?case
  proof (cases "p = 0")
    case True
    then have b: "bs1 = bs" "List.find (fits 64) bs = None" using r by simp_all
    from Suc.IH [OF h1 [unfolded b(1)]] obtain k u' bs' where
      t: "k \<le> i" "alloc_tests brk i u1 = Some (alloc_report i k, u')" "sdk_heap pend limit lo u' bs'" "live bs' = live bs"
        "\<forall>b \<in> live bs. same_on (block b) (umem u1) (umem u')" by blast
    have "alloc_tests brk (Suc i) u = Some (alloc_report (Suc i) (Suc k), u')"
      using True m t(2) by (simp add: alloc_report_def)
    then show ?thesis using t(1,3-5) b(2) keep same_on_trans
      by (intro exI [of _ "Suc k"] exI [of _ u'] exI [of _ bs']) blast
  next
    case p: False
    then obtain s where s: "64 \<le> s" "(unat p, s) \<notin> live bs" "live bs1 = insert (unat p, s) (live bs)" using r by auto
    from sdk_free_spec [OF sb h1, of p s] s(3) obtain bs2 where
      f: "sdk_heap pend limit lo (sdk_free p u1) bs2" "live bs2 = live bs1 - {(unat p, s)}"
        "\<forall>b \<in> live bs1. same_on (block b) (umem u1) (umem (sdk_free p u1))"
        "\<exists>b \<in> set bs2. b_free b \<and> data b = (unat p, s)" by auto
    have "\<exists>b \<in> set bs2. fits 64 b" using f(4) s(1) by (auto simp: fits_def data_def word_le_nat_alt)
    then have "List.find (fits 64) bs2 \<noteq> None" by (auto simp: find_None_iff)
    with Suc.IH [OF f(1)] obtain u' bs' where
      t: "alloc_tests brk i (sdk_free p u1) = Some (alloc_report i 0, u')" "sdk_heap pend limit lo u' bs'" "live bs' = live bs2"
        "\<forall>b \<in> live bs2. same_on (block b) (umem (sdk_free p u1)) (umem u')" by auto
    have l: "live bs2 = live bs" using f(2) s(2,3) by auto
    have "alloc_tests brk (Suc i) u = Some (alloc_report (Suc i) 0, u')"
      using p m t(1) by (simp add: alloc_report_def)
    moreover have "same_on (block b) (umem u) (umem u')" if "b \<in> live bs" for b
      using keep [OF that] f(3) t(4) that l s(3) same_on_trans by blast
    ultimately show ?thesis using t(2,3) l
      by (intro exI [of _ 0] exI [of _ u'] exI [of _ bs']) simp
  qed
qed

text \<open>\<open>memset\<close> and \<open>read\<close> on the buffer: inside the block, and a string the functions can read.\<close>

lemma line_buffer:
  assumes sb: "sbrk_ok brk pend limit" and h: "sdk_heap pend limit lo u bs" and p: "(unat p, s) \<in> live bs" "128 \<le> s"
    and l: "length l \<le> 127" and m: "m = store_line p l (fill_bytes 128 p 0 (umem u))"
  shows "chars_at 128 p m = l @ replicate (128 - length l) NUL" "sdk_heap pend limit lo (u\<lparr>umem := m\<rparr>) bs"
    "\<forall>b \<in> live bs. b \<noteq> (unat p, s) \<longrightarrow> same_on (block b) (umem u) m"
proof -
  have rep: "heap_repr lo (pend (kern u)) u bs" and hi: "pend (kern u) < 2 ^ 32"
    using h sb by (simp_all add: sdk_heap_def sbrk_ok_def)
  note lh = live_header [OF rep hi p(1)]
  obtain b where b: "b \<in> set bs" "data b = (unat p, s)" using lh(4) by blast
  have in32: "unat p + 128 < 2 ^ 32" using lh(2) p(2) hi by simp
  have f: "fill_bytes 128 p 0 (umem u) a = (if unat a \<in> {unat p ..< unat p + 128} then 0 else umem u a)" for a
    using in32 by (intro fill_bytes_spec) simp
  have "char_of_byte (m (p + of_nat i)) = (l @ replicate (128 - length l) NUL) ! i" if "i < 128" for i
  proof -
    have "unat (p + of_nat i) = unat p + i" using in32 that by (intro unat_offset) simp
    then show ?thesis using l that f by (simp add: m store_line_def nth_append)
  qed
  then show "chars_at 128 p m = l @ replicate (128 - length l) NUL"
    using l by (intro nth_equalityI) (simp_all add: chars_at_def)
  have sm: "same_on (- block (data b)) (umem u) m"
    using f p(2) l by (auto simp: same_on_def b(2) block_def m store_line_def)
  show "sdk_heap pend limit lo (u\<lparr>umem := m\<rparr>) bs" using heap_repr_data [OF rep hi b(1) sm] h by (simp add: sdk_heap_def)
  show "\<forall>c \<in> live bs. c \<noteq> (unat p, s) \<longrightarrow> same_on (block c) (umem u) m"
  proof (intro ballI impI)
    fix c assume c: "c \<in> live bs" "c \<noteq> (unat p, s)"
    have "sorted_wrt apart bs" using rep by (simp add: heap_repr_def)
    then have "block (unat p, s) \<inter> block c = {}"
      using c p(1) by (intro disjoint_blocks_block live_disjoint [of bs "(unat p, s)" c]) auto
    then show "same_on (block c) (umem u) m" by (intro same_on_mono [OF sm]) (auto simp: b(2))
  qed
qed

lemma terminal_list_spec: "length listing < 512 \<Longrightarrow> terminal_list listing = Some [SysList 512, SysPrint (cstr listing)]"
  by (simp add: terminal_list_def stored_zeros put_str_def)

lemma terminal_command_spec:
  assumes sb: "sbrk_ok brk pend limit" and h: "sdk_heap pend limit lo u bs" and p: "(unat p, s) \<in> live bs"
    and inp: "terminated (chars_at 128 p (umem u))" "cmd = cstr (chars_at 128 p (umem u))" and ls: "length listing < 512"
  shows "\<exists>k u' bs'. k \<le> 10 \<and> terminal_command brk listing p u = Some (terminal_answer (cstr listing) k cmd, u', cmd \<noteq> ''exit'')
    \<and> sdk_heap pend limit lo u' bs' \<and> live bs' = (if cmd = ''exit'' then live bs - {(unat p, s)} else live bs)
    \<and> (\<forall>b \<in> live bs. same_on (block b) (umem u) (umem u'))"
proof -
  have eq: "sdk_is (chars_at 128 p (umem u)) w = Some (cmd = w)" if "NUL \<notin> set w" for w
    using sdk_is_spec [OF inp(1) that] inp(2) by simp
  have len: "sdk_strlen (chars_at 128 p (umem u)) = Some (length cmd)"
    using inp by (simp add: sdk_strlen_eq utils_strlen_spec)
  have out: "put_str (chars_at 128 p (umem u)) = Some (SysPrint cmd)" using inp by (simp add: put_str_def)
  note simps = terminal_command_def Let_def eq terminal_answer_def len out terminal_list_spec [OF ls]
  consider "cmd = ''heap''" | "cmd = ''exit''" | "cmd \<noteq> ''heap''" "cmd \<noteq> ''exit''" by blast
  then show ?thesis
  proof cases
    case 1
    from alloc_tests_spec [OF sb h, of 10] obtain k u' bs' where
      t: "k \<le> 10" "alloc_tests brk 10 u = Some (alloc_report 10 k, u')" "sdk_heap pend limit lo u' bs'" "live bs' = live bs"
        "\<forall>b \<in> live bs. same_on (block b) (umem u) (umem u')" by blast
    then show ?thesis using 1 by (intro exI [of _ k] exI [of _ u'] exI [of _ bs']) (simp add: simps)
  next
    case 2
    from sdk_free_spec [OF sb h p] obtain bs' where
      "sdk_heap pend limit lo (sdk_free p u) bs'" "live bs' = live bs - {(unat p, s)}"
      "\<forall>b \<in> live bs. same_on (block b) (umem u) (umem (sdk_free p u))" by blast
    then show ?thesis using 2 by (intro exI [of _ 0] exI [of _ "sdk_free p u"] exI [of _ bs']) (simp add: simps)
  next
    case 3
    have "terminal_command brk listing p u = Some (terminal_answer (cstr listing) 0 cmd, u, True)"
      using 3 by (simp add: simps)
    then show ?thesis using 3 h by (intro exI [of _ 0] exI [of _ u] exI [of _ bs]) simp
  qed
qed

lemma terminal_loop_spec:
  assumes sb: "sbrk_ok brk pend limit" and s: "128 \<le> s" and ls: "length listing < 512"
  shows "sdk_heap pend limit lo u bs \<Longrightarrow> (unat p, s) \<in> live bs \<Longrightarrow> \<forall>l \<in> set ls. length l \<le> 127 \<Longrightarrow>
    \<exists>ks u' bs'. length ks = length ls \<and> set ks \<subseteq> {..10}
      \<and> terminal_loop brk listing p ls u = Some (terminal_session (cstr listing) (zip (map cstr ls) ks), u')
      \<and> sdk_heap pend limit lo u' bs'
      \<and> live bs' = (if ''exit'' \<in> cstr ` set ls then live bs - {(unat p, s)} else live bs)
      \<and> (\<forall>b \<in> live bs. b \<noteq> (unat p, s) \<longrightarrow> same_on (block b) (umem u) (umem u'))"
proof (induction ls arbitrary: u bs)
  case Nil
  have "store_line p [] m = m" for m by (rule ext) (simp add: store_line_def)
  then show ?case using line_buffer(2,3) [OF sb Nil(1,2) s _ refl, of "[]"]
    by (intro exI [of _ "[]"] exI [of _ "u\<lparr>umem := fill_bytes 128 p 0 (umem u)\<rparr>"] exI [of _ bs]) simp
next
  case (Cons l ls)
  define m where "m = store_line p l (fill_bytes 128 p 0 (umem u))"
  have l: "length l \<le> 127" using Cons.prems(3) by simp
  note lb = line_buffer [OF sb Cons.prems(1,2) s l m_def]
  have cmd: "terminated (chars_at 128 p (umem (u\<lparr>umem := m\<rparr>)))" "cstr l = cstr (chars_at 128 p (umem (u\<lparr>umem := m\<rparr>)))"
    using lb(1) l by simp_all
  from terminal_command_spec [OF sb lb(2) Cons.prems(2) cmd ls] obtain k u1 bs1 where
    c: "k \<le> 10" "terminal_command brk listing p (u\<lparr>umem := m\<rparr>) = Some (terminal_answer (cstr listing) k (cstr l), u1, cstr l \<noteq> ''exit'')"
      "sdk_heap pend limit lo u1 bs1" "live bs1 = (if cstr l = ''exit'' then live bs - {(unat p, s)} else live bs)"
      "\<forall>b \<in> live bs. same_on (block b) m (umem u1)" by auto
  have keep: "\<forall>b \<in> live bs. b \<noteq> (unat p, s) \<longrightarrow> same_on (block b) (umem u) (umem u1)"
    using lb(3) c(5) same_on_trans by blast
  show ?case
  proof (cases "cstr l = ''exit''")
    case True
    show ?thesis using True c keep l
      by (intro exI [of _ "k # replicate (length ls) 0"] exI [of _ u1] exI [of _ bs1]) (auto simp: m_def)
  next
    case False
    have "(unat p, s) \<in> live bs1" "\<forall>l \<in> set ls. length l \<le> 127" using False c(4) Cons.prems(2,3) by simp_all
    from Cons.IH [OF c(3) this] obtain ks u' bs' where
      t: "length ks = length ls" "set ks \<subseteq> {..10}"
        "terminal_loop brk listing p ls u1 = Some (terminal_session (cstr listing) (zip (map cstr ls) ks), u')"
        "sdk_heap pend limit lo u' bs'" "live bs' = (if ''exit'' \<in> cstr ` set ls then live bs1 - {(unat p, s)} else live bs1)"
        "\<forall>b \<in> live bs1. b \<noteq> (unat p, s) \<longrightarrow> same_on (block b) (umem u1) (umem u')" by blast
    have "\<forall>b \<in> live bs. b \<noteq> (unat p, s) \<longrightarrow> same_on (block b) (umem u) (umem u')"
      using keep t(6) False c(4) same_on_trans by (metis (no_types, lifting))
    then show ?thesis using False c t
      by (intro exI [of _ "k # ks"] exI [of _ u'] exI [of _ bs']) (auto simp: m_def)
  qed
qed

lemma terminal_main_spec:
  assumes sb: "sbrk_ok brk pend limit" and h: "sdk_heap pend limit lo u bs" and ls: "length listing < 512"
    and "\<forall>l \<in> set ls. length l \<le> 127"
  shows "\<exists>calls u' bs'. terminal_main brk listing ls u = Some (calls, u') \<and> sdk_heap pend limit lo u' bs'
    \<and> (\<forall>b \<in> live bs. same_on (block b) (umem u) (umem u'))
    \<and> (if calls = [SysPrint (line_in ''Critical Error: malloc failed for input buffer!'')] then live bs' = live bs
       else \<exists>ks. length ks = length ls \<and> set ks \<subseteq> {..10}
         \<and> calls = terminal_banner @ terminal_session (cstr listing) (zip (map cstr ls) ks)
         \<and> (if ''exit'' \<in> cstr ` set ls then live bs' = live bs
            else \<exists>b. b \<notin> live bs \<and> 128 \<le> snd b \<and> live bs' = insert b (live bs)))"
proof -
  have "(128 :: u32) \<noteq> 0" "unat (128 :: u32) < 2 ^ 31 - 20" by simp_all
  from sdk_malloc_spec [OF sb h this] obtain p u1 bs1 where m: "sdk_malloc brk 128 u = Some (p, u1)"
    and h1: "sdk_heap pend limit lo u1 bs1" and k1: "\<forall>c \<in> set bs. same_on (block (data c)) (umem u) (umem u1)"
    and r: "if p = 0 then bs1 = bs \<and> List.find (fits (aligned_size 128)) bs = None \<and> fst (brk (12 + aligned_size 128) (kern u)) = -1
       else \<exists>s. unat (128 :: u32) \<le> s \<and> (unat p, s) \<notin> live bs \<and> live bs1 = insert (unat p, s) (live bs)" by blast
  note keep = live_same [OF k1]
  show ?thesis
  proof (cases "p = 0")
    case True
    then show ?thesis using m r h1 keep
      by (intro exI [of _ "[SysPrint (line_in ''Critical Error: malloc failed for input buffer!'')]"] exI [of _ u1] exI [of _ bs1])
        (simp add: terminal_main_def)
  next
    case False
    then obtain s where s: "128 \<le> s" "(unat p, s) \<notin> live bs" "live bs1 = insert (unat p, s) (live bs)" using r by auto
    have "(unat p, s) \<in> live bs1" using s(3) by simp
    from terminal_loop_spec [OF sb s(1) ls h1 this assms(4)] obtain ks u' bs' where
      t: "length ks = length ls" "set ks \<subseteq> {..10}"
        "terminal_loop brk listing p ls u1 = Some (terminal_session (cstr listing) (zip (map cstr ls) ks), u')"
        "sdk_heap pend limit lo u' bs'" "live bs' = (if ''exit'' \<in> cstr ` set ls then live bs1 - {(unat p, s)} else live bs1)"
        "\<forall>b \<in> live bs1. b \<noteq> (unat p, s) \<longrightarrow> same_on (block b) (umem u1) (umem u')" by blast
    let ?calls = "terminal_banner @ terminal_session (cstr listing) (zip (map cstr ls) ks)"
    have c: "?calls \<noteq> [SysPrint t]" for t by (simp add: terminal_banner_def)
    have e: "terminal_main brk listing ls u = Some (?calls, u')" using False m t(3) by (simp add: terminal_main_def)
    have kb: "\<forall>b \<in> live bs. same_on (block b) (umem u) (umem u')"
      using keep t(6) s(2,3) same_on_trans by (metis insertCI)
    have lv: "if ''exit'' \<in> cstr ` set ls then live bs' = live bs
        else \<exists>b. b \<notin> live bs \<and> 128 \<le> snd b \<and> live bs' = insert b (live bs)"
      using t(5) s by (auto split: if_splits)
    show ?thesis
      by (intro exI [of _ ?calls] exI [of _ u'] exI [of _ bs'] conjI e t(4) kb)
        (use c t(1,2) lv in \<open>simp only: if_False, intro exI [of _ ks], simp\<close>)
  qed
qed

section \<open>The older shell\<close>

text \<open>A command in the buffer \<open>inp\<close>; \<open>returned\<close> says that \<open>exec\<close> failed and came back.\<close>

definition shell_command :: "bool \<Rightarrow> char list \<Rightarrow> (sdk_call list \<times> bool) option" where
  "shell_command returned inp = do {
     help \<leftarrow> sdk_is inp ''help'';
     if help then Some ([SysPrint (line_in ''Commands: help, hello, clear, exit'')], True) else do {
     hello \<leftarrow> sdk_is inp ''hello'';
     if hello then Some (SysExec ''hello.bin'' # (if returned then [SysPrint (line_in ''Failed to exec hello.bin'')] else []), returned) else do {
     clear \<leftarrow> sdk_is inp ''clear'';
     if clear then Some ([SysClear], True) else do {
     exit \<leftarrow> sdk_is inp ''exit'';
     if exit then Some ([SysPrint (line_in ''Exiting Shell...''), SysExit], False) else do {
     n \<leftarrow> sdk_strlen inp;
     if 0 < n then do {
       text \<leftarrow> put_str inp;
       Some ([SysPrint ''Unknown command: '', text, SysPrint [NL]], True) }
     else Some ([], True) }}}}
   }"

text \<open>The loop, on the lines \<open>read\<close> stores and the results of \<open>exec\<close>; the array is local to \<open>main\<close>.\<close>

fun shell_loop :: "(char list \<times> bool) list \<Rightarrow> char list \<Rightarrow> sdk_call list option" where
  "shell_loop [] inp = Some [SysPrint ''$ '', SysRead 128]"
| "shell_loop ((l, returned) # ls) inp = do {
     inp \<leftarrow> sdk_memset inp NUL 128;
     inp \<leftarrow> stored l inp;
     (calls, more) \<leftarrow> shell_command returned inp;
     rest \<leftarrow> (if more then shell_loop ls inp else Some []);
     Some ([SysPrint ''$ '', SysRead 128, SysPrint [NL]] @ calls @ rest)
   }"

definition shell_main :: "(char list \<times> bool) list \<Rightarrow> char list \<Rightarrow> sdk_call list option" where
  "shell_main ls inp = map_option ((#) (SysPrint (line_in ''Welcome to Antigravity OS Shell!''))) (shell_loop ls inp)"

text \<open>Lines up to 127 bytes are answered. \<open>read\<close> may store 128 bytes, and then no zero ends the string: \<open>strlen\<close>
  runs out of the array.\<close>

lemma shell_command_total:
  "terminated inp \<Longrightarrow> shell_command returned inp \<noteq> None"
  by (simp add: shell_command_def sdk_is_spec sdk_strlen_eq utils_strlen_spec put_str_def del: not_None_eq)

lemma shell_loop_total:
  "\<forall>(l, r) \<in> set ls. length l \<le> 127 \<Longrightarrow> length inp = 128 \<Longrightarrow> \<exists>calls. shell_loop ls inp = Some calls"
proof (induction ls arbitrary: inp)
  case (Cons lr ls)
  obtain l r where lr: "lr = (l, r)" "length l \<le> 127" using Cons.prems(1) by (cases lr) auto
  define b where "b = l @ replicate (128 - length l) NUL"
  have "terminated b" using lr(2) by (simp add: b_def)
  then obtain cs more where c: "shell_command r b = Some (cs, more)" using shell_command_total [of b r] by auto
  have "length b = 128" using lr(2) by (simp add: b_def)
  then obtain rest where "shell_loop ls b = Some rest" using Cons.IH Cons.prems(1) by fastforce
  then show ?case using c lr Cons.prems(2) by (simp add: lr(1) sdk_memset_all stored_zeros b_def)
qed simp

lemma uchar_zero: "uchar a = 0 \<longleftrightarrow> a = NUL"
  using uchar_inj [of a NUL] by (simp del: uchar_inj)

lemma sdk_is_unterminated: "NUL \<notin> set a \<Longrightarrow> NUL \<notin> set s \<Longrightarrow> length s < length a \<Longrightarrow> sdk_is a s = Some False"
  unfolding sdk_is_def sdk_streq_def
proof (induction s arbitrary: a)
  case Nil
  then show ?case by (cases a) (auto dest: uchar_zero [THEN iffD1])
next
  case (Cons c s)
  then show ?case by (cases a) (auto dest: uchar_zero [THEN iffD1])
qed

lemma shell_reads_past_buffer:
  assumes "length inp = 128" "length l = 128" "NUL \<notin> set l"
  shows "shell_loop ((l, r) # ls) inp = None"
proof -
  have "sdk_strlen l = None" using assms(3) by (simp add: sdk_strlen_eq utils_strlen_spec terminated_def)
  moreover have "sdk_is l s = Some False" if "s \<in> {''help'', ''hello'', ''clear'', ''exit''}" for s
    using that assms(2,3) by (intro sdk_is_unterminated) auto
  ultimately have "shell_command r l = None" by (simp add: shell_command_def)
  then show ?thesis using assms(1,2) by (simp add: sdk_memset_all stored_def)
qed

section \<open>The small programs\<close>

definition hello_main :: "sdk_call list" where
  "hello_main = map (SysPrint \<circ> line_in) [''Success! C++ is running in User Mode.'', ''This is the hello.bin test program.'']"

definition rule_line :: string where "rule_line = ''================================''"

definition snake_main :: "sdk_call list" where
  "snake_main = SysClear # map SysPrint
     [line_in rule_line,
      line_in ''       Snake Game v0.1'',
      rule_line @ [NL, NL],
      line_in ''     +------------------+'',
      line_in ''     |                  |'',
      line_in ''     |   ####>  *       |'',
      line_in ''     |                  |'',
      line_in ''     |                  |'',
      ''     +------------------+'' @ [NL, NL],
      line_in ''(Full graphics mode needed for gameplay)'',
      ''Controls: W/A/S/D or Arrow Keys'' @ [NL, NL],
      line_in ''Press Enter to return to Terminal...''] @ [SysRead 10]"

definition file_main :: "char list \<Rightarrow> char list \<Rightarrow> sdk_call list option" where
  "file_main list_buf listing = do {
     list_buf \<leftarrow> sdk_memset list_buf NUL 512;
     list_buf \<leftarrow> stored listing list_buf;
     text \<leftarrow> put_str list_buf;
     Some (SysClear # map SysPrint
       [line_in rule_line, line_in ''       File Manager v1.0'', rule_line @ [NL, NL],
        line_in ''Directory listing: /'', line_in ''-------------------'']
       @ [SysList 512, text, SysPrint ([NL] @ line_in ''-------------------''),
          SysPrint (line_in ''Press Enter to return to Terminal...''), SysRead 10])
   }"

definition editor_main :: "char list \<Rightarrow> char list \<Rightarrow> sdk_call list option" where
  "editor_main buf l = do {
     buf \<leftarrow> sdk_memset buf NUL 256;
     buf \<leftarrow> stored l buf;
     text \<leftarrow> put_str buf;
     Some (SysClear # map SysPrint
       [line_in rule_line, line_in ''      Nano-lite Editor v0.1'', rule_line @ [NL, NL],
        line_in ''Enter your text (max 128 chars):'', ''> '']
       @ [SysRead 128, SysPrint [NL, NL], SysPrint (line_in ''--- Your text ---''), text,
          SysPrint ([NL] @ ''-----------------'' @ [NL, NL]),
          SysPrint (line_in ''Saving to memory... Done!''),
          SysPrint (''(File system writes not yet implemented)'' @ [NL, NL]),
          SysPrint (line_in ''Press Enter to return to Terminal...''), SysRead 10])
   }"

text \<open>The editor echoes what was typed: its buffer is twice what \<open>read\<close> may store.\<close>

lemma editor_main_echoes:
  "length buf = 256 \<Longrightarrow> length l \<le> 128 \<Longrightarrow> \<exists>calls. editor_main buf l = Some calls \<and> SysPrint (cstr l) \<in> set calls"
  by (simp add: editor_main_def sdk_memset_all stored_zeros put_str_def)

section \<open>Properties\<close>

text \<open>C9: the terminal, from its heap and buffers to the calls it makes. On a heap in order over a break that works, with
  lines of at most 127 bytes and a listing below 512, \<open>main\<close> never faults: it reports that it got no buffer, or makes
  exactly the calls that \<open>terminal_session\<close> gives for the lines as strings, where the \<open>heap\<close> command prints failures
  only before its first success. The blocks that were there keep their bytes, and after an \<open>exit\<close> every block
  the program allocated has been freed; without one it still holds just its buffer.\<close>

theorem terminal_answers_lines:
  assumes "sbrk_ok brk pend limit" and "sdk_heap pend limit lo u bs" and "length listing < 512"
    and "\<forall>l \<in> set ls. length l \<le> 127"
  shows "\<exists>calls u' bs'. terminal_main brk listing ls u = Some (calls, u') \<and> sdk_heap pend limit lo u' bs'
    \<and> (\<forall>b \<in> live bs. same_on (block b) (umem u) (umem u'))
    \<and> (if calls = [SysPrint (line_in ''Critical Error: malloc failed for input buffer!'')] then live bs' = live bs
       else \<exists>ks. length ks = length ls \<and> set ks \<subseteq> {..10}
         \<and> calls = terminal_banner @ terminal_session (cstr listing) (zip (map cstr ls) ks)
         \<and> (if ''exit'' \<in> cstr ` set ls then live bs' = live bs
            else \<exists>b. b \<notin> live bs \<and> 128 \<le> snd b \<and> live bs' = insert b (live bs)))"
  by (rule terminal_main_spec [OF assms])

theorem terminal_answers_lines_witness:
  "\<exists>calls u' bs'. terminal_main demo_brk ''boot'' [''ls'', ''heap'', ''exit''] demo_sdk = Some (calls, u')
    \<and> (calls = [SysPrint (line_in ''Critical Error: malloc failed for input buffer!'')]
       \<or> SysPrint ''boot'' \<in> set calls \<and> SysExit \<in> set calls) \<and> live bs' = {(0x50000C, 8)}"
proof -
  have "length ''boot'' < 512" "\<forall>l \<in> set [''ls'', ''heap'', ''exit'']. length l \<le> 127" by simp_all
  from terminal_answers_lines [OF demo_brk_ok demo_sdk_ok(1) this] obtain calls u' bs' where
    m: "terminal_main demo_brk ''boot'' [''ls'', ''heap'', ''exit''] demo_sdk = Some (calls, u')"
    and r: "if calls = [SysPrint (line_in ''Critical Error: malloc failed for input buffer!'')] then live bs' = live [demo_block]
       else \<exists>ks. length ks = length [''ls'', ''heap'', ''exit''] \<and> set ks \<subseteq> {..10}
         \<and> calls = terminal_banner @ terminal_session (cstr ''boot'') (zip (map cstr [''ls'', ''heap'', ''exit'']) ks)
         \<and> (if ''exit'' \<in> cstr ` set [''ls'', ''heap'', ''exit''] then live bs' = live [demo_block]
            else \<exists>b. b \<notin> live [demo_block] \<and> 128 \<le> snd b \<and> live bs' = insert b (live [demo_block]))" by blast
  have s: "cstr ''boot'' = ''boot''" "map cstr [''ls'', ''heap'', ''exit''] = [''ls'', ''heap'', ''exit'']" "''exit'' \<in> cstr ` set [''ls'', ''heap'', ''exit'']"
    by (simp_all add: cstr_def)
  have "live bs' = {(0x50000C, 8)}" using r s(3) demo_sdk_ok(2) by (auto split: if_splits)
  moreover have "calls = [SysPrint (line_in ''Critical Error: malloc failed for input buffer!'')]
       \<or> SysPrint ''boot'' \<in> set calls \<and> SysExit \<in> set calls"
  proof (cases "calls = [SysPrint (line_in ''Critical Error: malloc failed for input buffer!'')]")
    case False
    then obtain ks where ks: "length ks = Suc (Suc (Suc 0))" "calls = terminal_banner @ terminal_session ''boot'' (zip [''ls'', ''heap'', ''exit''] ks)"
      using r unfolding s by auto
    from ks(1) obtain a b c where "ks = [a, b, c]" by (auto simp: length_Suc_conv)
    then show ?thesis using ks(2) by (simp add: terminal_answer_def)
  qed simp
  ultimately show ?thesis using m by blast
qed

end
